(* ===== verification/Prelude.thy ===== *)
theory Prelude
  imports "HOL-Library.Word"
begin

text \<open>
  Shared vocabulary of the development: the machine integer types of
  \<^verbatim>\<open>kernel/types.h\<close>, the outcome type of kernel functions with its bind and its
  weakest-precondition calculus, C integer conversions, and the little-endian byte encoding
  that links words, C structs and byte memory.
\<close>

unbundle bit_operations_syntax

type_synonym uchar = "8 word"
type_synonym ushort = "16 word"
type_synonym uint32 = "32 word"
type_synonym uint64 = "64 word"

text \<open>Byte-addressed memory; a C pointer is a 64-bit address.\<close>

type_synonym memory = "uint64 \<Rightarrow> uchar"

named_theorems wp_rules
named_theorems bytes_simps

section \<open>Identities of kernel objects\<close>

text \<open>
  The kernel uses addresses of statically allocated objects as identities: of spin locks, of
  sleep locks, of wait channels.  They are datatypes here, one constructor per object or array
  of objects; the objects that live in allocated pages (pipes) carry their address.
\<close>

datatype sleeplock_id = SL_buf nat | SL_inode nat

datatype lock_id =
    L_kmem | L_pid | L_wait | L_proc nat | L_ticks | L_ftable | L_itable | L_bcache | L_log
  | L_pipe uint64 | L_cons | L_tx | L_vdisk | L_pr | L_sleep sleeplock_id

datatype chan =
    Chan_ticks | Chan_proc nat | Chan_sleeplock sleeplock_id | Chan_log
  | Chan_nread uint64 | Chan_nwrite uint64 | Chan_cons_r | Chan_tx | Chan_disk_free | Chan_buf nat

section \<open>Outcomes of kernel functions\<close>

text \<open>
  A kernel function run by one thread ends in one of five ways: it returns a value
  (\<open>Ret\<close>); it calls \<^verbatim>\<open>panic\<close> (\<open>Panic\<close>, with the message); it
  cannot go on until another thread or a device acts (\<open>Wait\<close>: it spins on a lock, has
  switched to the scheduler, polls the UART or waits for hart 0 to boot, in the given state); it loops for ever
  (\<open>Diverge\<close>); or it does what C leaves undefined, such as reading through a null pointer
  (\<open>Undef\<close>).
\<close>

datatype wait_on = OnLock lock_id | OnSched | OnUart | OnBoot

datatype ('r, 's) kres = Ret 'r 's | Panic string | Wait wait_on 's | Diverge | Undef

primrec kbind :: "('r, 's) kres \<Rightarrow> ('r \<Rightarrow> 's \<Rightarrow> ('q, 's) kres) \<Rightarrow> ('q, 's) kres" where
  "kbind (Ret r s) f = f r s"
| "kbind (Panic msg) f = Panic msg"
| "kbind (Wait w s) f = Wait w s"
| "kbind Diverge f = Diverge"
| "kbind Undef f = Undef"

lemma kbind_assoc: "kbind (kbind m f) g = kbind m (\<lambda>r s. kbind (f r s) g)"
  by (cases m) simp_all

lemma kbind_cong [fundef_cong]:
  "m = m' \<Longrightarrow> (\<And>r s. m' = Ret r s \<Longrightarrow> f r s = f' r s) \<Longrightarrow> kbind m f = kbind m' f'"
  by (cases m') simp_all

lemma kbind_eq_Ret:
  "kbind m f = Ret q t \<longleftrightarrow> (\<exists>r s. m = Ret r s \<and> f r s = Ret q t)"
  by (cases m) simp_all

text \<open>\<open>wp m Q\<close>: the run returns, and its value and final state satisfy \<open>Q\<close>.\<close>

primrec wp :: "('r, 's) kres \<Rightarrow> ('r \<Rightarrow> 's \<Rightarrow> bool) \<Rightarrow> bool" where
  "wp (Ret r s) Q = Q r s"
| "wp (Panic msg) Q = False"
| "wp (Wait w s) Q = False"
| "wp Diverge Q = False"
| "wp Undef Q = False"

lemma wp_kbind [wp_rules]: "wp (kbind m f) Q = wp m (\<lambda>r s. wp (f r s) Q)"
  by (cases m) simp_all

lemma wp_if [wp_rules]: "wp (if b then m else n) Q = (if b then wp m Q else wp n Q)"
  by simp

lemma wp_let [wp_rules]: "wp (let x = e in f x) Q = wp (f e) Q"
  by simp

lemma wp_mono: "wp m Q \<Longrightarrow> (\<And>r s. m = Ret r s \<Longrightarrow> Q r s \<Longrightarrow> R r s) \<Longrightarrow> wp m R"
  by (cases m) simp_all

lemma wp_iff: "wp m Q \<longleftrightarrow> (\<exists>r s. m = Ret r s \<and> Q r s)"
  by (cases m) simp_all

text \<open>
  Counted loops: \<open>kfor\<close> runs the body for each index in turn, \<open>kfind\<close> stops at the
  first index for which the body returns a value.
\<close>

primrec kfor :: "'i list \<Rightarrow> ('i \<Rightarrow> 's \<Rightarrow> (unit, 's) kres) \<Rightarrow> 's \<Rightarrow> (unit, 's) kres" where
  "kfor [] body s = Ret () s"
| "kfor (i # is) body s = kbind (body i s) (\<lambda>_ s. kfor is body s)"

primrec kfind :: "'i list \<Rightarrow> ('i \<Rightarrow> 's \<Rightarrow> ('r option, 's) kres) \<Rightarrow> 's \<Rightarrow> ('r option, 's) kres" where
  "kfind [] body s = Ret None s"
| "kfind (i # is) body s =
     kbind (body i s) (\<lambda>r s. case r of None \<Rightarrow> kfind is body s | Some x \<Rightarrow> Ret (Some x) s)"

lemma kfor_cong [fundef_cong]:
  "is = js \<Longrightarrow> s = t \<Longrightarrow> (\<And>i s. i \<in> set js \<Longrightarrow> f i s = g i s) \<Longrightarrow> kfor is f s = kfor js g t"
proof (induction js arbitrary: "is" s t)
  case (Cons j js)
  then show ?case by (auto intro!: kbind_cong)
qed simp

lemma kfind_cong [fundef_cong]:
  "is = js \<Longrightarrow> s = t \<Longrightarrow> (\<And>i s. i \<in> set js \<Longrightarrow> f i s = g i s) \<Longrightarrow> kfind is f s = kfind js g t"
proof (induction js arbitrary: "is" s t)
  case (Cons j js)
  then show ?case by (auto intro!: kbind_cong split: option.split)
qed simp

text \<open>Searching an index range gives the lowest index.\<close>

lemma find_lowest:
  "find P [0..<n] = Some i \<longleftrightarrow> i < n \<and> P i \<and> (\<forall>j<i. \<not> P j)" "find P [0..<n] = None \<longleftrightarrow> (\<forall>i<n. \<not> P i)"
  by (auto simp: find_Some_iff find_None_iff)

text \<open>A loop whose body never stops, fails or waits on the states an invariant allows.\<close>

lemma kfor_Ret:
  assumes "\<And>i s. i \<in> set is \<Longrightarrow> I s \<Longrightarrow> body i s = Ret () (g i s) \<and> I (g i s)" and "I s"
  shows "kfor is body s = Ret () (fold g is s) \<and> I (fold g is s)"
  using assms
proof (induction "is" arbitrary: s)
  case (Cons i "is")
  then show ?case by auto
qed simp

lemma kfor_append: "kfor (is @ js) body s = kbind (kfor is body s) (\<lambda>_ s. kfor js body s)"
proof (induction "is" arbitrary: s)
  case (Cons i "is")
  then show ?case by (cases "body i s") simp_all
qed simp

lemma kfor_upt:
  assumes "P 0 s" "\<And>i t. i < n \<Longrightarrow> P i t \<Longrightarrow> \<exists>u. body i t = Ret () u \<and> P (Suc i) u"
  shows "\<exists>t. kfor [0..<n] body s = Ret () t \<and> P n t"
  using assms
proof (induction n)
  case (Suc n)
  then obtain t where "kfor [0..<n] body s = Ret () t" "P n t" by (metis less_Suc_eq)
  then show ?case using Suc.prems(2) [of n t] by (auto simp: kfor_append)
qed simp

section \<open>C integers\<close>

text \<open>The value of an expression converted to C's 32-bit \<^verbatim>\<open>int\<close>.\<close>

definition to_int :: "uint64 \<Rightarrow> int" where
  "to_int w = sint (ucast w :: 32 word)"

text \<open>An \<^verbatim>\<open>int\<close> converted to \<^verbatim>\<open>uint64\<close>: sign extension.\<close>

definition of_cint :: "int \<Rightarrow> uint64" where
  "of_cint i = word_of_int i"

lemma to_int_of_nat: "k < 2 ^ 31 \<Longrightarrow> to_int (of_nat k) = int k"
proof -
  assume k: "k < 2 ^ 31"
  then have "(ucast (of_nat k :: uint64) :: 32 word) = of_nat k"
    by (simp add: unsigned_of_nat take_bit_nat_eq_self)
  moreover have "sint (of_nat k :: 32 word) = int k"
    using k by (simp add: signed_of_nat signed_take_bit_int_eq_self)
  ultimately show ?thesis by (simp add: to_int_def)
qed

lemma of_cint_minus1: "of_cint (- 1) = - 1"
  by (simp add: of_cint_def)

section \<open>64-bit words as numbers\<close>

lemma unat_of_nat64: "n < 2 ^ 64 \<Longrightarrow> unat (of_nat n :: uint64) = n"
  by (simp add: unat_of_nat take_bit_nat_eq_self)

lemma unat_minus1_64: "unat (- 1 :: uint64) = 2 ^ 64 - 1"
  by (simp add: unsigned_minus_1_eq_mask mask_eq_exp_minus_1)

lemma unat_lt64: "unat (w :: uint64) < 2 ^ 64"
  using unsigned_less [of w] by simp

section \<open>Little-endian bytes\<close>

primrec le_bytes :: "nat \<Rightarrow> 'a::len word \<Rightarrow> uchar list" where
  "le_bytes 0 w = []"
| "le_bytes (Suc n) w = ucast w # le_bytes n (drop_bit 8 w)"

primrec le_word :: "uchar list \<Rightarrow> 'a::len word" where
  "le_word [] = 0"
| "le_word (b # bs) = ucast b OR push_bit 8 (le_word bs)"

lemma length_le_bytes [simp]: "length (le_bytes n w) = n"
  by (induction n arbitrary: w) simp_all

lemma bit_le_word:
  fixes bs :: "uchar list"
  shows "bit (le_word bs :: 'a::len word) n \<longleftrightarrow>
    n < LENGTH('a) \<and> n < 8 * length bs \<and> bit (bs ! (n div 8)) (n mod 8)"
proof (induction bs arbitrary: n)
  case Nil
  then show ?case by simp
next
  case (Cons b bs)
  show ?case
  proof (cases "n < 8")
    case True
    then show ?thesis
      by (auto simp: bit_or_iff bit_push_bit_iff bit_ucast_iff)
  next
    case False
    then obtain k where k: "n = 8 + k"
      using le_Suc_ex not_less by blast
    have high: "\<not> bit b n"
      using False bit_imp_le_length [of b n] by auto
    have "(8 + k) div 8 = Suc (k div 8)" by simp
    then show ?thesis
      using k high Cons.IH [of k]
      by (auto simp: bit_or_iff bit_push_bit_iff bit_ucast_iff simp del: div_add_self1)
  qed
qed

lemma bit_le_bytes:
  fixes w :: "'a::len word"
  shows "i < n \<Longrightarrow> bit (le_bytes n w ! i) j \<longleftrightarrow> j < 8 \<and> bit w (8 * i + j)"
proof (induction n arbitrary: w i)
  case 0
  then show ?case by simp
next
  case (Suc n)
  then show ?case
    by (cases i) (auto simp: bit_ucast_iff bit_drop_bit_eq add.assoc)
qed

lemma le_word_le_bytes [simp]:
  fixes w :: "'a::len word"
  assumes "LENGTH('a) \<le> 8 * n"
  shows "(le_word (le_bytes n w) :: 'a word) = w"
proof (rule bit_word_eqI)
  fix k assume k: "k < LENGTH('a)"
  then have "k div 8 < n"
    using assms by (simp add: div_less_iff_less_mult mult.commute)
  then show "bit (le_word (le_bytes n w) :: 'a word) k \<longleftrightarrow> bit w k"
    using k assms by (simp add: bit_le_word bit_le_bytes)
qed

lemma le_bytes_le_word:
  fixes bs :: "uchar list"
  assumes "8 * length bs \<le> LENGTH('a)"
  shows "le_bytes (length bs) (le_word bs :: 'a::len word) = bs"
proof (rule nth_equalityI)
  fix i assume i: "i < length (le_bytes (length bs) (le_word bs :: 'a word))"
  show "le_bytes (length bs) (le_word bs :: 'a word) ! i = bs ! i"
  proof (rule bit_word_eqI)
    fix j assume "j < LENGTH(8)"
    then have j: "j < 8" by simp
    have "8 * i + j < 8 * length bs" using i j by simp
    moreover have "(8 * i + j) div 8 = i" "(8 * i + j) mod 8 = j" using j by simp_all
    ultimately show "bit (le_bytes (length bs) (le_word bs :: 'a word) ! i) j = bit (bs ! i) j"
      using i j assms by (simp add: bit_le_bytes bit_le_word)
  qed
qed simp

end
