(* ===== verification/CString.thy ===== *)
theory CString
  imports Layout
begin

text \<open>
  The byte and string routines of \<^verbatim>\<open>kernel/string.c\<close> over byte memory, and the
  64-bit loads and stores the kernel does through pointers.  A routine takes the memory and
  returns the memory after it; a \<^verbatim>\<open>uint\<close> count is a \<^typ>\<open>nat\<close>.
\<close>

section \<open>memset, memcmp, memmove\<close>

function memset_loop :: "memory \<Rightarrow> uint64 \<Rightarrow> int \<Rightarrow> nat \<Rightarrow> nat \<Rightarrow> memory" where
  "memset_loop m dst c i n =
     (if i < n then memset_loop (m(dst + of_nat i := word_of_int c)) dst c (Suc i) n else m)"
  by pat_completeness auto
termination
  by (relation "measure (\<lambda>(m, dst, c, i, n). n - i)") auto

declare memset_loop.simps [simp del]

definition memset :: "memory \<Rightarrow> uint64 \<Rightarrow> int \<Rightarrow> nat \<Rightarrow> memory" where
  "memset m dst c n = memset_loop m dst c 0 n"

fun memcmp :: "memory \<Rightarrow> uint64 \<Rightarrow> uint64 \<Rightarrow> nat \<Rightarrow> int" where
  "memcmp m s1 s2 0 = 0"
| "memcmp m s1 s2 (Suc n) =
     (if m s1 \<noteq> m s2 then uint (m s1) - uint (m s2) else memcmp m (s1 + 1) (s2 + 1) n)"

fun move_up :: "memory \<Rightarrow> uint64 \<Rightarrow> uint64 \<Rightarrow> nat \<Rightarrow> memory" where
  "move_up m d s 0 = m"
| "move_up m d s (Suc n) = move_up (m(d := m s)) (d + 1) (s + 1) n"

fun move_down :: "memory \<Rightarrow> uint64 \<Rightarrow> uint64 \<Rightarrow> nat \<Rightarrow> memory" where
  "move_down m d s 0 = m"
| "move_down m d s (Suc n) = move_down (m(d - 1 := m (s - 1))) (d - 1) (s - 1) n"

definition memmove :: "memory \<Rightarrow> uint64 \<Rightarrow> uint64 \<Rightarrow> nat \<Rightarrow> memory" where
  "memmove m dst src n =
     (if n = 0 then m
      else if src < dst \<and> src + of_nat n > dst
           then move_down m (dst + of_nat n) (src + of_nat n) n
           else move_up m dst src n)"

definition memcpy :: "memory \<Rightarrow> uint64 \<Rightarrow> uint64 \<Rightarrow> nat \<Rightarrow> memory" where
  "memcpy m dst src n = memmove m dst src n"

section \<open>NUL-terminated strings\<close>

fun strncmp :: "memory \<Rightarrow> uint64 \<Rightarrow> uint64 \<Rightarrow> nat \<Rightarrow> int" where
  "strncmp m p q 0 = 0"
| "strncmp m p q (Suc n) =
     (if m p \<noteq> 0 \<and> m p = m q then strncmp m (p + 1) (q + 1) n
      else uint (m p) - uint (m q))"

fun zero_fill :: "memory \<Rightarrow> uint64 \<Rightarrow> nat \<Rightarrow> memory" where
  "zero_fill m s 0 = m"
| "zero_fill m s (Suc n) = zero_fill (m(s := 0)) (s + 1) n"

fun strncpy_loop :: "memory \<Rightarrow> uint64 \<Rightarrow> uint64 \<Rightarrow> nat \<Rightarrow> memory" where
  "strncpy_loop m s t 0 = m"
| "strncpy_loop m s t (Suc n) =
     (if m t \<noteq> 0 then strncpy_loop (m(s := m t)) (s + 1) (t + 1) n
      else zero_fill (m(s := m t)) (s + 1) n)"

definition strncpy :: "memory \<Rightarrow> uint64 \<Rightarrow> uint64 \<Rightarrow> int \<Rightarrow> memory" where
  "strncpy m s t n = strncpy_loop m s t (nat n)"

text \<open>The argument counts down what is left of \<open>n - 1\<close>.\<close>

fun safestrcpy_loop :: "memory \<Rightarrow> uint64 \<Rightarrow> uint64 \<Rightarrow> nat \<Rightarrow> memory" where
  "safestrcpy_loop m s t 0 = m(s := 0)"
| "safestrcpy_loop m s t (Suc n) =
     (if m t \<noteq> 0 then safestrcpy_loop (m(s := m t)) (s + 1) (t + 1) n
      else m(s := m t, s + 1 := 0))"

definition safestrcpy :: "memory \<Rightarrow> uint64 \<Rightarrow> uint64 \<Rightarrow> int \<Rightarrow> memory" where
  "safestrcpy m s t n = (if n \<le> 0 then m else safestrcpy_loop m s t (nat (n - 1)))"

text \<open>\<^verbatim>\<open>strlen\<close> need not return: memory may hold no NUL byte.\<close>

partial_function (option) strlen_loop :: "memory \<Rightarrow> uint64 \<Rightarrow> nat \<Rightarrow> nat option" where
  "strlen_loop m s n = (if m (s + of_nat n) \<noteq> 0 then strlen_loop m s (Suc n) else Some n)"

definition strlen :: "memory \<Rightarrow> uint64 \<Rightarrow> nat option" where
  "strlen m s = strlen_loop m s 0"

section \<open>64-bit loads and stores\<close>

primrec read_bytes :: "memory \<Rightarrow> uint64 \<Rightarrow> nat \<Rightarrow> uchar list" where
  "read_bytes m a 0 = []"
| "read_bytes m a (Suc n) = m a # read_bytes m (a + 1) n"

primrec write_bytes :: "memory \<Rightarrow> uint64 \<Rightarrow> uchar list \<Rightarrow> memory" where
  "write_bytes m a [] = m"
| "write_bytes m a (b # bs) = write_bytes (m(a := b)) (a + 1) bs"

definition load64 :: "memory \<Rightarrow> uint64 \<Rightarrow> uint64" where
  "load64 m a = le_word (read_bytes m a 8)"

definition store64 :: "memory \<Rightarrow> uint64 \<Rightarrow> uint64 \<Rightarrow> memory" where
  "store64 m a v = write_bytes m a (le_bytes 8 v)"

section \<open>What the routines compute\<close>

text \<open>Address arithmetic: \<open>x\<close> is in the \<open>n\<close> bytes from \<open>a\<close> on.\<close>

abbreviation in_range :: "uint64 \<Rightarrow> uint64 \<Rightarrow> nat \<Rightarrow> bool" where
  "in_range x a n \<equiv> unat (x - a) < n"

lemma eq_add_of_nat_iff:
  assumes "i < 2 ^ 64"
  shows "(x = a + (of_nat i :: uint64)) = (unat (x - a) = i)"
proof
  assume "x = a + of_nat i"
  then show "unat (x - a) = i" using assms by (simp add: unat_of_nat64)
next
  assume "unat (x - a) = i"
  then have "x - a = of_nat i" by auto
  then show "x = a + of_nat i" by (simp add: algebra_simps)
qed

lemma unat_minus_one_word: "(w :: uint64) \<noteq> 0 \<Longrightarrow> unat (w - 1) = unat w - 1"
  by (simp add: unat_minus_one)

lemma unat_step: "(x :: uint64) \<noteq> a \<Longrightarrow> unat (x - a) = Suc (unat (x - (a + 1)))"
proof -
  assume "x \<noteq> a"
  then have nz: "x - a \<noteq> 0" by simp
  have "x - (a + 1) = (x - a) - 1" by simp
  then have "unat (x - (a + 1)) = unat (x - a) - 1"
    by (metis nz unat_minus_one_word)
  moreover have "0 < unat (x - a)" using nz by (simp add: unat_gt_0)
  ultimately show ?thesis by simp
qed

lemma in_range_Suc: "in_range x a (Suc n) \<longleftrightarrow> x = a \<or> in_range x (a + 1) n" if "n < 2 ^ 64"
  using unat_step [of x a] by (cases "x = a") auto

lemma memset_loop_apply:
  assumes "n \<le> 2 ^ 64"
  shows "memset_loop m dst c i n x =
    (if i \<le> unat (x - dst) \<and> unat (x - dst) < n then word_of_int c else m x)"
  using assms
proof (induction m dst c i n rule: memset_loop.induct)
  case (1 m dst c i n)
  show ?case
  proof (cases "i < n")
    case True
    have eq: "(x = dst + of_nat i) = (unat (x - dst) = i)"
      using True "1.prems" by (intro eq_add_of_nat_iff) simp
    have "memset_loop (m(dst + of_nat i := word_of_int c)) dst c (Suc i) n x =
        (if Suc i \<le> unat (x - dst) \<and> unat (x - dst) < n then word_of_int c
         else (m(dst + of_nat i := word_of_int c)) x)"
      using True "1" by blast
    then show ?thesis
      using True eq by (subst memset_loop.simps)
        (auto simp del: fun_upd_apply simp: fun_upd_other fun_upd_same)
  next
    case False
    then show ?thesis by (subst memset_loop.simps) auto
  qed
qed

lemma memset_apply:
  "n \<le> 2 ^ 64 \<Longrightarrow> memset m dst c n x = (if in_range x dst n then word_of_int c else m x)"
  by (simp add: memset_def memset_loop_apply)

lemma move_up_apply:
  assumes "d = s \<or> n \<le> unat (d - s)" and "n \<le> 2 ^ 64"
  shows "move_up m d s n x = (if in_range x d n then m (s + (x - d)) else m x)"
  using assms
proof (induction n arbitrary: m d s)
  case 0
  then show ?case by simp
next
  case (Suc n)
  have sep: "d + 1 = s + 1 \<or> n \<le> unat ((d + 1) - (s + 1))"
    using Suc.prems by auto
  have IH: "move_up (m(d := m s)) (d + 1) (s + 1) n x =
      (if in_range x (d + 1) n then (m(d := m s)) (s + 1 + (x - (d + 1))) else (m(d := m s)) x)"
    using Suc.prems by (intro Suc.IH) (auto simp del: One_nat_def)
  show ?case
  proof (cases "x = d")
    case True
    have "unat (x - (d + 1)) = 2 ^ 64 - 1"
      using True by (simp add: unat_minus1_64)
    then show ?thesis using IH True Suc.prems by auto
  next
    case False
    have step: "unat (x - d) = Suc (unat (x - (d + 1)))" by (rule unat_step [OF False])
    have "s + (x - d) \<noteq> d" if "in_range x d (Suc n)"
    proof
      assume "s + (x - d) = d"
      then have "d - s = x - d" by (metis add_diff_cancel_left')
      then show False using that Suc.prems(1) step False by auto
    qed
    then show ?thesis
      using IH step False by (auto simp: algebra_simps)
  qed
qed

lemma move_down_apply:
  assumes "d = s \<or> n \<le> unat (s - d)" and "n \<le> 2 ^ 64"
  shows "move_down m (d + of_nat n) (s + of_nat n) n x =
    (if in_range x d n then m (s + (x - d)) else m x)"
  using assms
proof (induction n arbitrary: m)
  case 0
  then show ?case by simp
next
  case (Suc n)
  let ?m = "m(d + of_nat n := m (s + of_nat n))"
  have "move_down m (d + of_nat (Suc n)) (s + of_nat (Suc n)) (Suc n) x =
      move_down ?m (d + of_nat n) (s + of_nat n) n x"
    by (simp add: algebra_simps)
  also have "\<dots> = (if in_range x d n then ?m (s + (x - d)) else ?m x)"
    using Suc.prems by (intro Suc.IH) auto
  also have "\<dots> = (if in_range x d (Suc n) then m (s + (x - d)) else m x)"
  proof -
    have top: "(x = d + of_nat n) = (unat (x - d) = n)"
      using Suc.prems by (intro eq_add_of_nat_iff) simp
    have "s + (x - d) \<noteq> d + of_nat n" if "in_range x d n"
    proof
      assume eq: "s + (x - d) = d + of_nat n"
      have "s = d + of_nat n - (x - d)" by (simp only: eq [symmetric] add_diff_cancel_right')
      then have "s - d = of_nat n - (x - d)" by simp
      also have "unat \<dots> = n - unat (x - d)"
        using that Suc.prems by (subst unat_sub) (auto simp: word_le_nat_alt unat_of_nat64)
      finally have "unat (s - d) = n - unat (x - d)" .
      moreover have "d = s \<Longrightarrow> unat (s - d) = 0" by simp
      ultimately show False using that Suc.prems(1) by linarith
    qed
    moreover have "s + (x - d) = s + of_nat n" if "x = d + of_nat n" using that by simp
    ultimately show ?thesis using top by (auto simp: less_Suc_eq)
  qed
  finally show ?case .
qed

lemma unat_diff_lower: "unat (a - b :: uint64) = unat a + 2 ^ 64 - unat b" if "a < b"
  using that by (simp add: unat_sub_if' word_less_nat_alt)

lemma memmove_apply:
  assumes "unat src + n < 2 ^ 64" and "unat dst + n < 2 ^ 64"
  shows "memmove m dst src n x = (if in_range x dst n then m (src + (x - dst)) else m x)"
proof -
  have end_src: "unat (src + of_nat n) = unat src + n"
    using assms by (simp add: unat_word_ariths unat_of_nat64)
  consider "src < dst" "src + of_nat n > dst" | "src < dst" "src + of_nat n \<le> dst"
    | "src = dst" | "dst < src" by fastforce
  then show ?thesis
  proof cases
    case 1
    have "n \<le> unat (src - dst)"
      using 1 assms unat_diff_lower [of src dst] by simp
    then show ?thesis
      using 1 move_down_apply [of dst src n m x] assms by (simp add: memmove_def)
  next
    case 2
    then have "n \<le> unat (dst - src)"
      using end_src by (simp add: unat_sub word_le_nat_alt)
    then show ?thesis
      using 2 move_up_apply [of dst src n m x] assms by (auto simp: memmove_def)
  next
    case 3
    then show ?thesis
      using move_up_apply [of dst src n m x] assms by (auto simp: memmove_def)
  next
    case 4
    have "n \<le> unat (dst - src)"
      using 4 assms unat_diff_lower [of dst src] by simp
    then show ?thesis
      using 4 move_up_apply [of dst src n m x] assms by (auto simp: memmove_def)
  qed
qed

section \<open>Strings: the bytes up to the first NUL\<close>

text \<open>The bytes of the string at \<open>p\<close>, at most \<open>n\<close> of them.\<close>

primrec cstr :: "memory \<Rightarrow> uint64 \<Rightarrow> nat \<Rightarrow> uchar list" where
  "cstr m p 0 = []"
| "cstr m p (Suc n) = (if m p = 0 then [] else m p # cstr m (p + 1) n)"

lemma uint_diff_eq_0 [simp]: "uint (a :: uchar) - uint b = 0 \<longleftrightarrow> a = b"
  using word_uint_eq_iff [of a b] by auto

lemma strncmp_eq_0_iff: "strncmp m p q n = 0 \<longleftrightarrow> cstr m p n = cstr m q n"
  by (induction m p q n rule: strncmp.induct) (simp_all del: right_minus_eq, auto simp: uint_0_iff)

lemma memcmp_eq_0_iff: "memcmp m s1 s2 n = 0 \<longleftrightarrow> read_bytes m s1 n = read_bytes m s2 n"
  by (induction m s1 s2 n rule: memcmp.induct) (simp_all del: right_minus_eq)

lemma cstr_cong:
  "(\<And>i. i < n \<Longrightarrow> m (p + of_nat i) = m' (q + of_nat i)) \<Longrightarrow> cstr m p n = cstr m' q n"
proof (induction n arbitrary: p q)
  case 0
  then show ?case by simp
next
  case (Suc n)
  have "m p = m' q" using Suc.prems [of 0] by simp
  moreover have "cstr m (p + 1) n = cstr m' (q + 1) n"
  proof (rule Suc.IH)
    fix i assume "i < n"
    then show "m (p + 1 + of_nat i) = m' (q + 1 + of_nat i)"
      using Suc.prems [of "Suc i"] by (simp add: ac_simps)
  qed
  ultimately show ?case by simp
qed

lemma strlen_loop_Some:
  assumes "\<And>i. n \<le> i \<Longrightarrow> i < k \<Longrightarrow> m (s + of_nat i) \<noteq> 0" and "m (s + of_nat k) = 0" and "n \<le> k"
  shows "strlen_loop m s n = Some k"
  using assms
proof (induction "k - n" arbitrary: n)
  case 0
  then show ?case by (subst strlen_loop.simps) simp
next
  case (Suc d)
  then have "strlen_loop m s (Suc n) = Some k" by simp
  moreover have "m (s + of_nat n) \<noteq> 0" using Suc.hyps Suc.prems by simp
  ultimately show ?case by (subst strlen_loop.simps) simp
qed

lemma safestrcpy_loop_frame:
  "k < 2 ^ 64 - 1 \<Longrightarrow> \<not> in_range x s (Suc k) \<Longrightarrow> safestrcpy_loop m s t k x = m x"
proof (induction m s t k rule: safestrcpy_loop.induct)
  case (1 m s t)
  then show ?case by auto
next
  case (2 m s t n)
  have "x \<noteq> s" using "2.prems"(2) by auto
  moreover from this have "\<not> in_range x (s + 1) (Suc n)"
    using unat_step [of x s] "2.prems"(2) by auto
  moreover from this have "x \<noteq> s + 1" by auto
  ultimately show ?case
    using "2.IH" "2.prems"(1) by (auto simp del: fun_upd_apply simp: fun_upd_other)
qed

lemma safestrcpy_loop_cstr:
  assumes "k < 2 ^ 64 - 1" and "\<And>i j. i \<le> k \<Longrightarrow> j \<le> k \<Longrightarrow> t + of_nat j \<noteq> s + of_nat i"
  shows "cstr (safestrcpy_loop m s t k) s (Suc k) = cstr m t k"
  using assms
proof (induction m s t k rule: safestrcpy_loop.induct)
  case (1 m s t)
  then show ?case by simp
next
  case (2 m s t n)
  show ?case
  proof (cases "m t = 0")
    case True
    then show ?thesis by simp
  next
    case False
    let ?m = "m(s := m t)"
    have "safestrcpy_loop ?m (s + 1) (t + 1) n s = ?m s"
      using "2.prems"(1) by (intro safestrcpy_loop_frame) (simp_all add: unat_minus1_64)
    then have here: "safestrcpy_loop m s t (Suc n) s = m t"
      using False by simp
    have "cstr (safestrcpy_loop ?m (s + 1) (t + 1) n) (s + 1) (Suc n) = cstr ?m (t + 1) n"
    proof (rule "2.IH")
      fix i j assume "i \<le> n" "j \<le> n"
      then show "t + 1 + of_nat j \<noteq> s + 1 + of_nat i"
        using "2.prems"(2) [of "Suc i" "Suc j"] by (simp add: ac_simps)
    qed (use False "2.prems"(1) in simp_all)
    also have "\<dots> = cstr m (t + 1) n"
    proof (rule cstr_cong)
      fix i assume "i < n"
      then show "?m (t + 1 + of_nat i) = m (t + 1 + of_nat i)"
        using "2.prems"(2) [of 0 "Suc i"] by (simp add: ac_simps)
    qed
    finally show ?thesis
      using False here by simp
  qed
qed

section \<open>Loads see stores\<close>

lemma read_bytes_map: "read_bytes m a n = map (\<lambda>i. m (a + of_nat i)) [0..<n]"
proof (induction n arbitrary: a)
  case 0
  then show ?case by simp
next
  case (Suc n)
  have "[0..<Suc n] = 0 # map Suc [0..<n]"
    by (simp add: upt_conv_Cons map_Suc_upt)
  then show ?case using Suc by (simp add: ac_simps)
qed

lemma length_read_bytes [simp]: "length (read_bytes m a n) = n"
  by (simp add: read_bytes_map)

lemma write_bytes_apply:
  "length bs \<le> 2 ^ 64 \<Longrightarrow>
    write_bytes m a bs x = (if in_range x a (length bs) then bs ! unat (x - a) else m x)"
proof (induction bs arbitrary: m a)
  case Nil
  then show ?case by simp
next
  case (Cons b bs)
  show ?case
  proof (cases "x = a")
    case True
    then show ?thesis using Cons by (simp add: unat_minus1_64)
  next
    case False
    then show ?thesis using Cons unat_step [OF False] by simp
  qed
qed

lemma read_write_bytes:
  assumes "length bs \<le> 2 ^ 64"
  shows "read_bytes (write_bytes m a bs) a (length bs) = bs"
proof (rule nth_equalityI)
  fix i assume "i < length (read_bytes (write_bytes m a bs) a (length bs))"
  then have i: "i < length bs" by simp
  then show "read_bytes (write_bytes m a bs) a (length bs) ! i = bs ! i"
    using assms by (simp add: read_bytes_map write_bytes_apply unat_of_nat64)
qed simp

lemma load64_store64_same [simp]: "load64 (store64 m a v) a = v"
  using read_write_bytes [of "le_bytes 8 v" m a] by (simp add: load64_def store64_def)

lemma store64_frame: "\<not> in_range x a 8 \<Longrightarrow> store64 m a v x = m x"
  by (simp add: store64_def write_bytes_apply)

lemma load64_cong: "(\<And>i. i < 8 \<Longrightarrow> m (a + of_nat i) = m' (a + of_nat i)) \<Longrightarrow> load64 m a = load64 m' a"
  by (auto simp: load64_def read_bytes_map intro!: arg_cong [where f = le_word])

text \<open>Distinct aligned blocks do not overlap.\<close>

definition aligned :: "nat \<Rightarrow> uint64 \<Rightarrow> bool" where
  "aligned n a \<longleftrightarrow> n dvd unat a"

lemma aligned_diff:
  assumes "aligned n a" "aligned n b" "n dvd 2 ^ 64"
  shows "n dvd unat (b - a)"
proof (cases "unat a \<le> unat b")
  case True
  then show ?thesis using assms by (simp add: unat_sub_if' aligned_def)
next
  case False
  have "n dvd unat b + 2 ^ 64" using assms by (simp add: aligned_def)
  then have "n dvd unat b + 2 ^ 64 - unat a"
    using assms(1) unfolding aligned_def by (rule dvd_diff_nat)
  then show ?thesis using False by (simp add: unat_sub_if')
qed

lemma aligned_disjoint:
  assumes "aligned n a" "aligned n b" "n dvd 2 ^ 64" "a \<noteq> b" "i < n"
  shows "\<not> in_range (b + of_nat i) a n"
proof -
  have d: "n dvd unat (b - a)" by (rule aligned_diff [OF assms(1-3)])
  have "b - a \<noteq> 0" using assms(4) by simp
  then have "0 < unat (b - a)" by (simp add: unat_gt_0)
  then have ge: "n \<le> unat (b - a)" using d by (rule dvd_imp_le [rotated])
  have "n dvd 2 ^ 64 - unat (b - a)" using d assms(3) by (rule dvd_diff_nat [rotated])
  moreover have "0 < 2 ^ 64 - unat (b - a)" using unat_lt64 [of "b - a"] by simp
  ultimately have "n \<le> 2 ^ 64 - unat (b - a)" by (rule dvd_imp_le)
  then have lt: "unat (b - a) + i < 2 ^ 64" using assms(5) by linarith
  then have "unat ((b - a) + of_nat i) = unat (b - a) + i"
    by (simp add: unat_word_ariths unat_of_nat64)
  moreover have "b + of_nat i - a = (b - a) + of_nat i" by simp
  ultimately have "unat (b + of_nat i - a) = unat (b - a) + i" by (simp only:)
  then show ?thesis using ge by simp
qed

lemma load64_store64_other:
  "aligned 8 a \<Longrightarrow> aligned 8 b \<Longrightarrow> a \<noteq> b \<Longrightarrow> load64 (store64 m a v) b = load64 m b"
  by (intro load64_cong store64_frame aligned_disjoint) simp_all

section \<open>Properties\<close>

text \<open>
  C14: \<^verbatim>\<open>memmove\<close> moves the \<open>n\<close> source bytes as they were before the call, however
  the two ranges overlap, and writes nothing outside the destination.
\<close>

theorem memmove_moves:
  assumes "unat src + n < 2 ^ 64" and "unat dst + n < 2 ^ 64"
  shows "memmove m dst src n x = (if unat (x - dst) < n then m (src + (x - dst)) else m x)"
  using memmove_apply [OF assms] .

theorem memmove_moves_witness:
  "memmove (\<lambda>x. ucast x) 101 100 3 102 = (101 :: uchar) \<and> memmove (\<lambda>x. ucast x) 101 100 3 104 = (104 :: uchar)"
  using memmove_moves [of 100 3 101 "\<lambda>x. ucast x" 102] memmove_moves [of 100 3 101 "\<lambda>x. ucast x" 104]
  by simp

lemma disjoint_ranges:
  assumes "n \<le> unat (t - s :: uint64)" "n \<le> unat (s - t)" "i < n" "j < n" "n < 2 ^ 64"
  shows "t + of_nat j \<noteq> s + of_nat i"
proof
  assume eq: "t + of_nat j = s + of_nat i"
  show False
  proof (cases "j \<le> i")
    case True
    then have "t - s = of_nat (i - j)" using eq by (simp add: algebra_simps)
    then have "unat (t - s) = i - j" using assms unat_of_nat64 [of "i - j"] by (metis less_imp_diff_less less_trans)
    then show ?thesis using assms by simp
  next
    case False
    then have "s - t = of_nat (j - i)" using eq by (simp add: algebra_simps)
    then have "unat (s - t) = j - i" using assms unat_of_nat64 [of "j - i"] by (metis less_imp_diff_less less_trans)
    then show ?thesis using assms by simp
  qed
qed

text \<open>
  C15: \<^verbatim>\<open>safestrcpy\<close> with room for \<open>n\<close> bytes leaves in the destination the source
  string cut to \<open>n - 1\<close> bytes, terminated within the \<open>n\<close> bytes, and writes nothing outside
  them, when the ranges are disjoint.
\<close>

theorem safestrcpy_copies:
  assumes "0 < n" "n < 2 ^ 31" "nat n \<le> unat (t - s)" "nat n \<le> unat (s - t)"
  shows "cstr (safestrcpy m s t n) s (nat n) = cstr m t (nat n - 1) \<and>
    (\<forall>x. \<not> unat (x - s) < nat n \<longrightarrow> safestrcpy m s t n x = m x)"
proof -
  let ?k = "nat (n - 1)"
  have k: "Suc ?k = nat n" "?k < 2 ^ 64 - 1" "nat n - 1 = ?k" using assms by auto
  have "safestrcpy m s t n = safestrcpy_loop m s t ?k" using assms by (simp add: safestrcpy_def)
  moreover have "cstr (safestrcpy_loop m s t ?k) s (Suc ?k) = cstr m t ?k"
    using assms k by (intro safestrcpy_loop_cstr disjoint_ranges [where n = "nat n"]) auto
  moreover have "safestrcpy_loop m s t ?k x = m x" if "\<not> unat (x - s) < nat n" for x
    using that k by (intro safestrcpy_loop_frame) auto
  ultimately show ?thesis using k by auto
qed

theorem safestrcpy_copies_witness:
  "cstr (safestrcpy (\<lambda>x. if x < 70 then ucast x else 0) 100 66 16) 100 16 = [66, 67, 68, 69]"
proof -
  have "cstr (safestrcpy (\<lambda>x. if x < 70 then ucast x else 0) 100 66 16) 100 (nat 16) =
      cstr (\<lambda>x. if x < 70 then ucast x else 0) 66 (nat 16 - 1)"
    using safestrcpy_copies [of 16 66 100 "\<lambda>x. if x < 70 then ucast x else 0"] by simp
  also have "\<dots> = [66, 67, 68, 69]" by code_simp
  finally show ?thesis by simp
qed

end
