(* ===== verification/Spinlock.thy ===== *)
theory Spinlock
  imports CString
begin

text \<open>
  Spin locks (\<^verbatim>\<open>kernel/spinlock.c\<close>) with the per-CPU interrupt bookkeeping they rest on
  (\<^verbatim>\<open>struct cpu\<close>, \<^verbatim>\<open>cpuid\<close>, \<^verbatim>\<open>mycpu\<close> of \<^verbatim>\<open>kernel/proc.c\<close> and
  the interrupt-enable accessors of \<^verbatim>\<open>kernel/riscv.h\<close>).  The state is the first layer of
  the kernel state: every later component extends the record.
\<close>

section \<open>State\<close>

record spinlock =
  locked :: uint32
  lk_name :: string
  lk_cpu :: "nat option"

text \<open>
  \<open>sie\<close> is the \<^verbatim>\<open>SSTATUS_SIE\<close> bit of the hart; the saved scheduler context of
  \<^verbatim>\<open>struct cpu\<close> belongs to the assembly of \<^verbatim>\<open>swtch.S\<close>.
\<close>

record cpu =
  cpu_proc :: "nat option"
  noff :: int
  intena :: bool
  sie :: bool

record lock_state =
  cpus :: "nat \<Rightarrow> cpu"
  tp :: nat
  locks :: "lock_id \<Rightarrow> spinlock"

section \<open>CPU identity and interrupt enable\<close>

definition cpuid :: "'a lock_state_scheme \<Rightarrow> nat" where
  "cpuid s = tp s"

definition mycpu :: "'a lock_state_scheme \<Rightarrow> cpu" where
  "mycpu s = cpus s (cpuid s)"

definition upd_mycpu :: "(cpu \<Rightarrow> cpu) \<Rightarrow> 'a lock_state_scheme \<Rightarrow> 'a lock_state_scheme" where
  "upd_mycpu f s = s\<lparr>cpus := (cpus s)(cpuid s := f (mycpu s))\<rparr>"

definition intr_get :: "'a lock_state_scheme \<Rightarrow> bool" where
  "intr_get s = sie (mycpu s)"

definition intr_off :: "'a lock_state_scheme \<Rightarrow> 'a lock_state_scheme" where
  "intr_off s = upd_mycpu (sie_update (\<lambda>_. False)) s"

definition intr_on :: "'a lock_state_scheme \<Rightarrow> 'a lock_state_scheme" where
  "intr_on s = upd_mycpu (sie_update (\<lambda>_. True)) s"

section \<open>Operations\<close>

definition initlock :: "lock_id \<Rightarrow> string \<Rightarrow> 'a lock_state_scheme \<Rightarrow> 'a lock_state_scheme" where
  "initlock lk name s =
     s\<lparr>locks := (locks s)(lk := \<lparr>locked = 0, lk_name = name, lk_cpu = None\<rparr>)\<rparr>"

definition push_off :: "'a lock_state_scheme \<Rightarrow> 'a lock_state_scheme" where
  "push_off s =
     (let old = intr_get s;
          s = intr_off s;
          s = (if noff (mycpu s) = 0 then upd_mycpu (intena_update (\<lambda>_. old)) s else s)
      in upd_mycpu (noff_update (\<lambda>n. n + 1)) s)"

definition pop_off :: "'a lock_state_scheme \<Rightarrow> (unit, 'a lock_state_scheme) kres" where
  "pop_off s =
     (if intr_get s then Panic ''pop_off - interruptible''
      else if noff (mycpu s) < 1 then Panic ''pop_off''
      else let s = upd_mycpu (noff_update (\<lambda>n. n - 1)) s
           in Ret () (if noff (mycpu s) = 0 \<and> intena (mycpu s) then intr_on s else s))"

definition holding :: "lock_id \<Rightarrow> 'a lock_state_scheme \<Rightarrow> bool" where
  "holding lk s \<longleftrightarrow> locked (locks s lk) \<noteq> 0 \<and> lk_cpu (locks s lk) = Some (cpuid s)"

text \<open>The atomic swap of 1 into \<^verbatim>\<open>lk->locked\<close>, with the value it had.\<close>

definition test_and_set :: "lock_id \<Rightarrow> 'a lock_state_scheme \<Rightarrow> uint32 \<times> 'a lock_state_scheme" where
  "test_and_set lk s =
     (locked (locks s lk), s\<lparr>locks := (locks s)(lk := (locks s lk)\<lparr>locked := 1\<rparr>)\<rparr>)"

definition set_lk_cpu :: "lock_id \<Rightarrow> nat option \<Rightarrow> 'a lock_state_scheme \<Rightarrow> 'a lock_state_scheme" where
  "set_lk_cpu lk c s = s\<lparr>locks := (locks s)(lk := (locks s lk)\<lparr>lk_cpu := c\<rparr>)\<rparr>"

definition lock_release :: "lock_id \<Rightarrow> 'a lock_state_scheme \<Rightarrow> 'a lock_state_scheme" where
  "lock_release lk s = s\<lparr>locks := (locks s)(lk := (locks s lk)\<lparr>locked := 0\<rparr>)\<rparr>"

definition acquire :: "lock_id \<Rightarrow> 'a lock_state_scheme \<Rightarrow> (unit, 'a lock_state_scheme) kres" where
  "acquire lk s =
     (let s = push_off s in
      if holding lk s then Panic ''acquire''
      else let (old, s) = test_and_set lk s in
           if old \<noteq> 0 then Wait (OnLock lk) s
           else Ret () (set_lk_cpu lk (Some (cpuid s)) s))"

definition release :: "lock_id \<Rightarrow> 'a lock_state_scheme \<Rightarrow> (unit, 'a lock_state_scheme) kres" where
  "release lk s =
     (if \<not> holding lk s then Panic ''release''
      else let s = set_lk_cpu lk None s;
               s = lock_release lk s
           in pop_off s)"

section \<open>A critical section run by one thread\<close>

text \<open>
  \<open>cpu_ok\<close> is what \<^verbatim>\<open>push_off\<close>/\<^verbatim>\<open>pop_off\<close> keep of the current CPU: the nesting
  depth is not negative, and interrupts are off at any positive depth.  \<open>hold lk s\<close> is
  the state inside the critical section of \<open>lk\<close> entered from \<open>s\<close>, and
  \<open>settle s\<close> the state a balanced section leaves: \<open>s\<close> itself, but for the saved
  \<^verbatim>\<open>intena\<close> flag of an outermost section.
\<close>

definition cpu_ok :: "'a lock_state_scheme \<Rightarrow> bool" where
  "cpu_ok s \<longleftrightarrow> 0 \<le> noff (mycpu s) \<and> (0 < noff (mycpu s) \<longrightarrow> \<not> intr_get s)"

definition lock_free :: "lock_id \<Rightarrow> 'a lock_state_scheme \<Rightarrow> bool" where
  "lock_free lk s \<longleftrightarrow> locked (locks s lk) = 0 \<and> lk_cpu (locks s lk) = None"

definition hold :: "lock_id \<Rightarrow> 'a lock_state_scheme \<Rightarrow> 'a lock_state_scheme" where
  "hold lk s = set_lk_cpu lk (Some (cpuid s)) (snd (test_and_set lk (push_off s)))"

definition settle :: "'a lock_state_scheme \<Rightarrow> 'a lock_state_scheme" where
  "settle s =
     (if noff (mycpu s) = 0 then upd_mycpu (\<lambda>c. c\<lparr>intena := sie c\<rparr>) s else s)"

lemmas cpu_defs =
  cpuid_def mycpu_def upd_mycpu_def intr_get_def intr_off_def intr_on_def push_off_def Let_def

lemmas lock_defs =
  cpu_defs holding_def test_and_set_def set_lk_cpu_def lock_release_def hold_def settle_def

lemma push_off_simps [simp]:
  "locks (push_off s) = locks s" "tp (push_off s) = tp s"
  "lock_state.more (push_off s) = lock_state.more s"
  by (simp_all add: cpu_defs)

lemma mycpu_push_off:
  "mycpu (push_off s) =
     (mycpu s)\<lparr>sie := False, noff := noff (mycpu s) + 1,
               intena := (if noff (mycpu s) = 0 then sie (mycpu s) else intena (mycpu s))\<rparr>"
  by (simp add: cpu_defs)

lemma settle_simps [simp]:
  "locks (settle s) = locks s" "tp (settle s) = tp s" "cpuid (settle s) = cpuid s"
  "settle (settle s) = settle s" "cpu_ok (settle s) = cpu_ok s"
  "lock_free lk (settle s) = lock_free lk s" "intr_get (settle s) = intr_get s"
  "noff (mycpu (settle s)) = noff (mycpu s)" "cpu_proc (mycpu (settle s)) = cpu_proc (mycpu s)"
  by (simp_all add: lock_defs cpu_ok_def lock_free_def)

lemma hold_settle [simp]: "hold lk (settle s) = hold lk s"
  by (simp add: lock_defs)

lemma hold_simps [simp]:
  "tp (hold lk s) = tp s" "cpuid (hold lk s) = cpuid s"
  "noff (mycpu (hold lk s)) = noff (mycpu s) + 1" "\<not> intr_get (hold lk s)"
  "cpu_proc (mycpu (hold lk s)) = cpu_proc (mycpu s)"
  "lk \<noteq> lk' \<Longrightarrow> lock_free lk' (hold lk s) = lock_free lk' s"
  "lk \<noteq> lk' \<Longrightarrow> locks (hold lk s) lk' = locks s lk'"
  by (simp_all add: lock_defs lock_free_def)

lemma holding_hold [simp]: "holding lk (hold lk s)"
  by (simp add: lock_defs)

lemma holding_hold_other [simp]: "lk \<noteq> lk' \<Longrightarrow> holding lk' (hold lk s) = holding lk' s"
  by (simp add: lock_defs)

lemma cpu_ok_hold [simp]: "cpu_ok s \<Longrightarrow> cpu_ok (hold lk s)"
  by (simp add: cpu_ok_def)

lemma settle_hold [simp]: "cpu_ok s \<Longrightarrow> settle (hold lk s) = hold lk s"
  by (auto simp: settle_def cpu_ok_def)

lemma acquire_free: "lock_free lk s \<Longrightarrow> acquire lk s = Ret () (hold lk s)"
  by (simp add: acquire_def lock_defs lock_free_def)

lemma acquire_held: "holding lk s \<Longrightarrow> acquire lk s = Panic ''acquire''"
  by (simp add: acquire_def lock_defs)

lemma release_not_held: "\<not> holding lk s \<Longrightarrow> release lk s = Panic ''release''"
  by (simp add: release_def)

lemma release_hold:
  assumes "lock_free lk s" "cpu_ok s"
  shows "release lk (hold lk s) = Ret () (settle s)"
proof -
  have upd: "(locks s lk)\<lparr>lk_cpu := None, locked := 0\<rparr> = locks s lk"
    using assms(1) by (simp add: lock_free_def spinlock.equality)
  show ?thesis
    using assms upd
    by (auto simp: release_def pop_off_def lock_defs cpu_ok_def cpu.equality
        intro!: lock_state.equality ext)
qed

text \<open>A thread may enter the critical section of \<open>lk\<close>.\<close>

definition may_lock :: "lock_id \<Rightarrow> 'a lock_state_scheme \<Rightarrow> bool" where
  "may_lock lk s \<longleftrightarrow> lock_free lk s \<and> cpu_ok s"

lemma may_lock_settle [simp]: "may_lock lk (settle s) = may_lock lk s"
  by (simp add: may_lock_def)

lemma acquire_may [simp]: "may_lock lk s \<Longrightarrow> acquire lk s = Ret () (hold lk s)"
  by (simp add: may_lock_def acquire_free)

lemma release_may [simp]: "may_lock lk s \<Longrightarrow> release lk (hold lk s) = Ret () (settle s)"
  by (simp add: may_lock_def release_hold)

text \<open>No lock outside \<open>A\<close> is held, by this CPU or another.\<close>

definition free_but :: "lock_id set \<Rightarrow> 'a lock_state_scheme \<Rightarrow> bool" where
  "free_but A s \<longleftrightarrow> cpu_ok s \<and> (\<forall>lk. lk \<notin> A \<longrightarrow> lock_free lk s)"

lemma may_lock_free_but: "free_but A s \<Longrightarrow> lk \<notin> A \<Longrightarrow> may_lock lk s"
  by (simp add: free_but_def may_lock_def)

lemma free_but_settle [simp]: "free_but A (settle s) = free_but A s"
  by (simp add: free_but_def)

lemma free_but_hold [simp]: "lk \<in> A \<Longrightarrow> free_but A s \<Longrightarrow> free_but A (hold lk s)"
  by (auto simp: free_but_def) (metis hold_simps(6))

lemma free_but_mono: "free_but A s \<Longrightarrow> A \<subseteq> B \<Longrightarrow> free_but B s"
  by (auto simp: free_but_def)

lemma may_lock_hold [simp]: "lk \<noteq> lk' \<Longrightarrow> may_lock lk s \<Longrightarrow> may_lock lk (hold lk' s)"
  by (simp add: may_lock_def)

text \<open>Nested sections can be left in either order.\<close>

lemma hold_commute:
  assumes "lk \<noteq> lk'" "cpu_ok s"
  shows "hold lk (hold lk' s) = hold lk' (hold lk s)"
  using assms by (simp add: lock_defs cpu_ok_def fun_upd_twist)

lemma release_outer [simp]:
  assumes "lk \<noteq> lk'" "may_lock lk s"
  shows "release lk (hold lk' (hold lk s)) = Ret () (hold lk' s)"
proof -
  have "cpu_ok s" using assms(2) by (simp add: may_lock_def)
  moreover have "settle (hold lk' s) = hold lk' s" using calculation by simp
  ultimately show ?thesis
    using assms hold_commute [of lk' lk s] release_may [of lk "hold lk' s"] by simp
qed

abbreviation nested :: "'a lock_state_scheme \<Rightarrow> bool" where
  "nested s \<equiv> cpu_ok s \<and> 0 < noff (mycpu s)"

lemma pop_push_off: "cpu_ok s \<Longrightarrow> pop_off (push_off s) = Ret () (settle s)"
  by (auto simp: pop_off_def cpu_defs cpu_ok_def settle_def cpu.equality
      intro!: lock_state.equality ext)

lemma settle_nested: "0 < noff (mycpu s) \<Longrightarrow> settle s = s"
  by (simp add: settle_def)

lemma pop_push_nested: "nested s \<Longrightarrow> pop_off (push_off s) = Ret () s"
  by (simp add: pop_push_off settle_nested)

lemma nested_push_off: "cpu_ok s \<Longrightarrow> nested (push_off s)"
  by (simp add: cpu_ok_def mycpu_push_off intr_get_def)

text \<open>A CPU outside every critical section with interrupts on, and a lock nobody holds.\<close>

definition idle_cpu :: cpu where
  "idle_cpu = \<lparr>cpu_proc = None, noff = 0, intena = False, sie = True\<rparr>"

definition open_lock :: spinlock where
  "open_lock = \<lparr>locked = 0, lk_name = [], lk_cpu = None\<rparr>"

lemma may_lock_idle [simp]:
  "cpus s (tp s) = idle_cpu \<Longrightarrow> locks s lk = open_lock \<Longrightarrow> may_lock lk s"
  by (simp add: may_lock_def lock_free_def cpu_ok_def cpu_defs idle_cpu_def open_lock_def)

section \<open>Several CPUs contending for one lock\<close>

text \<open>
  The steps of \<^verbatim>\<open>acquire\<close> and \<^verbatim>\<open>release\<close> that other CPUs can interleave with:
  \<^verbatim>\<open>push_off\<close> with the \<^verbatim>\<open>holding\<close> check, each atomic swap of the spin loop,
  recording the owner; the \<^verbatim>\<open>holding\<close> check with clearing the owner, and the atomic
  release with \<^verbatim>\<open>pop_off\<close>.  A CPU whose step would panic goes to \<open>Failed\<close>.
\<close>

datatype spin_pc = Outside | Spinning | Taken | Inside | Leaving | Failed

definition on_hart :: "nat \<Rightarrow> 'a lock_state_scheme \<Rightarrow> 'a lock_state_scheme" where
  "on_hart h s = s\<lparr>tp := h\<rparr>"

inductive spin_step ::
  "lock_id \<Rightarrow> 'a lock_state_scheme \<times> (nat \<Rightarrow> spin_pc) \<Rightarrow> 'a lock_state_scheme \<times> (nat \<Rightarrow> spin_pc) \<Rightarrow> bool"
  for lk where
  enter: "pc h = Outside \<Longrightarrow> s' = push_off (on_hart h s) \<Longrightarrow>
    spin_step lk (s, pc) (s', pc(h := (if holding lk s' then Failed else Spinning)))"
| swap: "pc h = Spinning \<Longrightarrow> test_and_set lk (on_hart h s) = (old, s') \<Longrightarrow>
    spin_step lk (s, pc) (s', pc(h := (if old \<noteq> 0 then Spinning else Taken)))"
| owner: "pc h = Taken \<Longrightarrow>
    spin_step lk (s, pc) (set_lk_cpu lk (Some h) (on_hart h s), pc(h := Inside))"
| leave: "pc h = Inside \<Longrightarrow> s' = on_hart h s \<Longrightarrow>
    spin_step lk (s, pc)
      (if holding lk s' then (set_lk_cpu lk None s', pc(h := Leaving)) else (s', pc(h := Failed)))"
| free: "pc h = Leaving \<Longrightarrow> pop_off (lock_release lk (on_hart h s)) = Ret () s' \<Longrightarrow>
    spin_step lk (s, pc) (s', pc(h := Outside))"
| free_panic: "pc h = Leaving \<Longrightarrow> pop_off (lock_release lk (on_hart h s)) = Panic msg \<Longrightarrow>
    spin_step lk (s, pc) (s, pc(h := Failed))"

definition spin_init :: "lock_id \<Rightarrow> 'a lock_state_scheme \<times> (nat \<Rightarrow> spin_pc) \<Rightarrow> bool" where
  "spin_init lk = (\<lambda>(s, pc). lock_free lk s \<and> (\<forall>h. cpu_ok (on_hart h s)) \<and> (\<forall>h. pc h = Outside))"

inductive spin_reach ::
  "lock_id \<Rightarrow> 'a lock_state_scheme \<times> (nat \<Rightarrow> spin_pc) \<Rightarrow> bool" for lk where
  init: "spin_init lk x \<Longrightarrow> spin_reach lk x"
| step: "spin_reach lk x \<Longrightarrow> spin_step lk x y \<Longrightarrow> spin_reach lk y"

abbreviation owns :: "spin_pc \<Rightarrow> bool" where
  "owns p \<equiv> p = Taken \<or> p = Inside \<or> p = Leaving"

text \<open>The invariant ties the lock word and its owner field to the program counters.\<close>

definition hart_inv ::
  "spinlock \<Rightarrow> nat option \<Rightarrow> nat \<Rightarrow> cpu \<Rightarrow> spin_pc \<Rightarrow> bool" where
  "hart_inv l ow h c p \<longleftrightarrow>
     (owns p \<longleftrightarrow> ow = Some h) \<and> (lk_cpu l = Some h \<longleftrightarrow> p = Inside) \<and>
     (p \<noteq> Outside \<longrightarrow> 1 \<le> noff c) \<and> 0 \<le> noff c \<and> (0 < noff c \<longrightarrow> \<not> sie c) \<and> p \<noteq> Failed"

definition spin_inv :: "lock_id \<Rightarrow> 'a lock_state_scheme \<times> (nat \<Rightarrow> spin_pc) \<Rightarrow> bool" where
  "spin_inv lk = (\<lambda>(s, pc). \<exists>ow.
     (locked (locks s lk) \<noteq> 0 \<longleftrightarrow> ow \<noteq> None) \<and>
     (\<forall>h. hart_inv (locks s lk) ow h (cpus s h) (pc h)))"

lemma spin_init_inv: "spin_init lk x \<Longrightarrow> spin_inv lk x"
  by (auto simp: spin_init_def spin_inv_def hart_inv_def lock_free_def cpu_ok_def on_hart_def
      cpu_defs intro!: exI [of _ None])

text \<open>A step of CPU \<open>h\<close> need only be checked at \<open>h\<close> if it changes nothing the
  invariant of another CPU reads.\<close>

lemma spin_invI:
  assumes "locked (locks s lk) \<noteq> 0 \<longleftrightarrow> ow \<noteq> None"
    and "hart_inv (locks s lk) ow h (cpus s h) p"
    and "\<And>k. k \<noteq> h \<Longrightarrow> hart_inv (locks s lk) ow k (cpus s k) (pc k)"
  shows "spin_inv lk (s, pc(h := p))"
  using assms by (auto simp: spin_inv_def intro!: exI [of _ ow])

lemma enter_inv:
  assumes inv: "spin_inv lk (s, pc)" and h1: "pc h = Outside" and h2: "s' = push_off (on_hart h s)"
  shows "spin_inv lk (s', pc(h := (if holding lk s' then Failed else Spinning)))"
proof -
  obtain ow where ow: "locked (locks s lk) \<noteq> 0 \<longleftrightarrow> ow \<noteq> None"
      "\<And>k. hart_inv (locks s lk) ow k (cpus s k) (pc k)"
    using inv by (auto simp: spin_inv_def)
  have other: "hart_inv (locks s' lk) ow k (cpus s' k) (pc k)" if "k \<noteq> h" for k
    using ow(2) [of k] that h1 h2 by (simp add: on_hart_def cpu_defs)
  have "\<not> holding lk s'"
    using ow(2) [of h] h1 h2 by (auto simp: hart_inv_def holding_def cpuid_def on_hart_def)
  moreover have "hart_inv (locks s' lk) ow h (cpus s' h) Spinning"
    using ow(2) [of h] h1 h2 by (simp add: hart_inv_def on_hart_def cpu_defs)
  moreover have "locked (locks s' lk) \<noteq> 0 \<longleftrightarrow> ow \<noteq> None"
    using ow(1) h1 h2 by (simp add: on_hart_def)
  ultimately show ?thesis using other by (simp add: spin_invI)
qed

lemma swap_inv:
  assumes inv: "spin_inv lk (s, pc)" and h1: "pc h = Spinning"
    and h2: "test_and_set lk (on_hart h s) = (old, s')"
  shows "spin_inv lk (s', pc(h := (if old \<noteq> 0 then Spinning else Taken)))"
proof -
  obtain ow where ow: "locked (locks s lk) \<noteq> 0 \<longleftrightarrow> ow \<noteq> None"
      "\<And>k. hart_inv (locks s lk) ow k (cpus s k) (pc k)"
    using inv by (auto simp: spin_inv_def)
  let ?ow = "if old \<noteq> 0 then ow else Some h"
  have old: "old = locked (locks s lk)"
    and s': "s' = (on_hart h s)\<lparr>locks := (locks s)(lk := (locks s lk)\<lparr>locked := 1\<rparr>)\<rparr>"
    using h1 h2 by (auto simp: test_and_set_def on_hart_def)
  show ?thesis
  proof (rule spin_invI [where ow = ?ow])
    show "locked (locks s' lk) \<noteq> 0 \<longleftrightarrow> ?ow \<noteq> None"
      using ow(1) by (simp add: s' old)
    show "hart_inv (locks s' lk) ?ow h (cpus s' h) (if old \<noteq> 0 then Spinning else Taken)"
      using ow(2) [of h] h1 by (simp add: hart_inv_def s' on_hart_def)
    show "hart_inv (locks s' lk) ?ow k (cpus s' k) (pc k)" if "k \<noteq> h" for k
      using ow(1) ow(2) [of k] that by (auto simp: hart_inv_def s' on_hart_def old)
  qed
qed

lemma owner_inv:
  assumes inv: "spin_inv lk (s, pc)" and h1: "pc h = Taken"
  shows "spin_inv lk (set_lk_cpu lk (Some h) (on_hart h s), pc(h := Inside))"
proof -
  obtain ow where ow: "locked (locks s lk) \<noteq> 0 \<longleftrightarrow> ow \<noteq> None"
      "\<And>k. hart_inv (locks s lk) ow k (cpus s k) (pc k)"
    using inv by (auto simp: spin_inv_def)
  let ?s = "set_lk_cpu lk (Some h) (on_hart h s)"
  show ?thesis
  proof (rule spin_invI [where ow = ow])
    show "locked (locks ?s lk) \<noteq> 0 \<longleftrightarrow> ow \<noteq> None"
      using ow(1) by (simp add: set_lk_cpu_def on_hart_def)
    show "hart_inv (locks ?s lk) ow h (cpus ?s h) Inside"
      using ow(2) [of h] h1 by (simp add: hart_inv_def set_lk_cpu_def on_hart_def)
    show "hart_inv (locks ?s lk) ow k (cpus ?s k) (pc k)" if "k \<noteq> h" for k
      using ow(2) [of h] ow(2) [of k] h1 that
      by (auto simp: hart_inv_def set_lk_cpu_def on_hart_def)
  qed
qed

lemma leave_inv:
  assumes inv: "spin_inv lk (s, pc)" and h1: "pc h = Inside" and h2: "s' = on_hart h s"
  shows "spin_inv lk
    (if holding lk s' then (set_lk_cpu lk None s', pc(h := Leaving)) else (s', pc(h := Failed)))"
proof -
  obtain ow where ow: "locked (locks s lk) \<noteq> 0 \<longleftrightarrow> ow \<noteq> None"
      "\<And>k. hart_inv (locks s lk) ow k (cpus s k) (pc k)"
    using inv by (auto simp: spin_inv_def)
  have held: "holding lk s'"
    using ow(1) ow(2) [of h] h1 h2 by (simp add: hart_inv_def holding_def cpuid_def on_hart_def)
  let ?s = "set_lk_cpu lk None s'"
  have "spin_inv lk (?s, pc(h := Leaving))"
  proof (rule spin_invI [where ow = ow])
    show "locked (locks ?s lk) \<noteq> 0 \<longleftrightarrow> ow \<noteq> None"
      using ow(1) h1 h2 by (simp add: set_lk_cpu_def on_hart_def)
    show "hart_inv (locks ?s lk) ow h (cpus ?s h) Leaving"
      using ow(2) [of h] h1 h2 by (simp add: hart_inv_def set_lk_cpu_def on_hart_def)
    show "hart_inv (locks ?s lk) ow k (cpus ?s k) (pc k)" if "k \<noteq> h" for k
      using ow(2) [of h] ow(2) [of k] h1 h2 that
      by (auto simp: hart_inv_def set_lk_cpu_def on_hart_def)
  qed
  then show ?thesis using held by simp
qed

lemma free_inv:
  assumes inv: "spin_inv lk (s, pc)" and h1: "pc h = Leaving"
    and h2: "pop_off (lock_release lk (on_hart h s)) = Ret () s'"
  shows "spin_inv lk (s', pc(h := Outside))"
proof -
  obtain ow where ow: "locked (locks s lk) \<noteq> 0 \<longleftrightarrow> ow \<noteq> None"
      "\<And>k. hart_inv (locks s lk) ow k (cpus s k) (pc k)"
    using inv by (auto simp: spin_inv_def)
  have s': "locks s' = (locks s)(lk := (locks s lk)\<lparr>locked := 0\<rparr>)"
      "\<And>k. k \<noteq> h \<Longrightarrow> cpus s' k = cpus s k" "noff (cpus s' h) = noff (cpus s h) - 1"
      "noff (cpus s' h) \<noteq> 0 \<Longrightarrow> sie (cpus s' h) = sie (cpus s h)"
    using h1 h2 by (auto simp: pop_off_def lock_release_def on_hart_def cpu_defs split: if_splits)
  show ?thesis
  proof (rule spin_invI [where ow = None])
    show "locked (locks s' lk) \<noteq> 0 \<longleftrightarrow> None \<noteq> None"
      by (simp add: s')
    show "hart_inv (locks s' lk) None h (cpus s' h) Outside"
      using ow(2) [of h] h1 s' by (auto simp: hart_inv_def)
    show "hart_inv (locks s' lk) None k (cpus s' k) (pc k)" if "k \<noteq> h" for k
      using ow(2) [of h] ow(2) [of k] h1 that by (auto simp: hart_inv_def s')
  qed
qed

lemma free_panic_inv:
  assumes inv: "spin_inv lk (s, pc)" and h1: "pc h = Leaving"
    and h2: "pop_off (lock_release lk (on_hart h s)) = Panic msg"
  shows "spin_inv lk (s, pc(h := Failed))"
proof -
  obtain ow where ow: "\<And>k. hart_inv (locks s lk) ow k (cpus s k) (pc k)"
    using inv by (auto simp: spin_inv_def)
  have "1 \<le> noff (cpus s h)" "\<not> sie (cpus s h)"
    using ow [of h] h1 by (simp_all add: hart_inv_def)
  then have False
    using h2
    by (simp add: pop_off_def lock_release_def on_hart_def cpu_defs split: if_splits)
  then show ?thesis ..
qed

lemma spin_step_inv: "spin_step lk x y \<Longrightarrow> spin_inv lk x \<Longrightarrow> spin_inv lk y"
  by (induction rule: spin_step.induct)
    (simp only: enter_inv swap_inv owner_inv leave_inv free_inv free_panic_inv)+

lemma spin_reach_inv: "spin_reach lk x \<Longrightarrow> spin_inv lk x"
  by (induction rule: spin_reach.induct) (auto intro: spin_init_inv spin_step_inv)

section \<open>Properties\<close>

text \<open>
  C10: however any number of CPUs interleave, at most one of them is between the successful
  swap in \<^verbatim>\<open>acquire\<close> and the store that frees the lock in \<^verbatim>\<open>release\<close>; a CPU inside the critical
  section passes \<^verbatim>\<open>holding\<close> with its interrupts off; and no call of \<^verbatim>\<open>acquire\<close>,
  \<^verbatim>\<open>release\<close> or \<^verbatim>\<open>pop_off\<close> panics.
\<close>

theorem spinlock_mutual_exclusion:
  assumes "spin_reach lk (s, pc)"
  shows "(\<forall>h k. owns (pc h) \<and> owns (pc k) \<longrightarrow> h = k) \<and>
    (\<forall>h. pc h = Inside \<longrightarrow> holding lk (on_hart h s) \<and> \<not> sie (cpus s h)) \<and>
    (\<forall>h. pc h \<noteq> Failed)"
proof -
  obtain ow where ow: "locked (locks s lk) \<noteq> 0 \<longleftrightarrow> ow \<noteq> None"
      "\<And>k. hart_inv (locks s lk) ow k (cpus s k) (pc k)"
    using spin_reach_inv [OF assms] by (auto simp: spin_inv_def)
  have "h = k" if "owns (pc h)" "owns (pc k)" for h k
    using ow(2) [of h] ow(2) [of k] that by (simp add: hart_inv_def)
  moreover have "holding lk (on_hart h s) \<and> \<not> sie (cpus s h)" if "pc h = Inside" for h
    using ow(1) ow(2) [of h] that by (simp add: hart_inv_def holding_def on_hart_def cpuid_def)
  moreover have "pc h \<noteq> Failed" for h using ow(2) [of h] by (simp add: hart_inv_def)
  ultimately show ?thesis by blast
qed

definition idle_locks :: lock_state where
  "idle_locks = \<lparr>cpus = (\<lambda>_. idle_cpu), tp = 0, locks = (\<lambda>_. open_lock)\<rparr>"

theorem spinlock_mutual_exclusion_witness:
  "\<exists>(s :: lock_state) pc. spin_reach L_kmem (s, pc) \<and> pc 1 = Taken \<and> (\<forall>h. owns (pc h) \<longrightarrow> h = 1)"
proof -
  have i: "spin_reach L_kmem (idle_locks, \<lambda>_. Outside)"
    by (rule spin_reach.init) (simp add: spin_init_def idle_locks_def lock_free_def open_lock_def
        cpu_ok_def on_hart_def cpu_defs idle_cpu_def)
  let ?s = "push_off (on_hart 1 idle_locks)"
  have nh: "\<not> holding L_kmem ?s"
    by (simp add: holding_def on_hart_def idle_locks_def open_lock_def)
  have "spin_reach L_kmem (?s, (\<lambda>_. Outside)(1 := Spinning))"
    using spin_reach.step [OF i spin_step.enter [of _ 1 ?s idle_locks]] nh by simp
  moreover have "test_and_set L_kmem (on_hart 1 ?s) = (0, snd (test_and_set L_kmem (on_hart 1 ?s)))"
    by (simp add: test_and_set_def on_hart_def idle_locks_def open_lock_def)
  ultimately have r: "spin_reach L_kmem
      (snd (test_and_set L_kmem (on_hart 1 ?s)), (\<lambda>_. Outside)(1 := Taken))"
    using spin_reach.step [OF _ spin_step.swap [of "(\<lambda>_. Outside)(1 := Spinning)" 1]] by fastforce
  have o: "\<forall>h. owns (((\<lambda>_. Outside)(1 := Taken)) h) \<longrightarrow> h = 1"
    using spinlock_mutual_exclusion [OF r] by auto
  show ?thesis by (intro exI conjI, rule r, simp, rule o)
qed

primrec pop_offs :: "nat \<Rightarrow> 'a lock_state_scheme \<Rightarrow> (unit, 'a lock_state_scheme) kres" where
  "pop_offs 0 s = Ret () s"
| "pop_offs (Suc n) s = kbind (pop_off s) (\<lambda>_ s. pop_offs n s)"

lemma nested_push_offs:
  "cpu_ok s \<Longrightarrow> nested ((push_off ^^ Suc n) s) \<and> noff (mycpu ((push_off ^^ n) s)) = noff (mycpu s) + int n"
proof (induction n)
  case 0
  then show ?case using nested_push_off [of s] by simp
next
  case (Suc n)
  then show ?case using nested_push_off [of "push_off ((push_off ^^ n) s)"] by (simp add: mycpu_push_off)
qed



end
