(* ===== verification/Printf.thy ===== *)
theory Printf
  imports Spinlock
begin

text \<open>
  Formatted console output: \<^verbatim>\<open>printint\<close>, \<^verbatim>\<open>printptr\<close>, \<^verbatim>\<open>printf\<close> and
  \<^verbatim>\<open>panic\<close> of \<^verbatim>\<open>kernel/printf.c\<close>, over \<^verbatim>\<open>consputc\<close>
  (\<^verbatim>\<open>kernel/console.c\<close>) and the polling output of \<^verbatim>\<open>kernel/uart.c\<close>.  The UART is
  its line status register, which the device owns, and the bytes written to its transmit
  register.
\<close>

section \<open>State and the UART\<close>

record cons_state = lock_state +
  uart_lsr :: uchar
  uart_out :: "uchar list"
  panicking :: int
  panicked :: int

definition LSR_TX_IDLE :: uchar where "LSR_TX_IDLE = 32"

definition uartputc_sync :: "int \<Rightarrow> 'a cons_state_scheme \<Rightarrow> (unit, 'a cons_state_scheme) kres" where
  "uartputc_sync c s =
     (let s = (if panicking s = 0 then push_off s else s) in
      if panicked s \<noteq> 0 then Diverge
      else if uart_lsr s AND LSR_TX_IDLE = 0 then Wait OnUart s
      else let s = s\<lparr>uart_out := uart_out s @ [word_of_int c]\<rparr> in
           if panicking s = 0 then pop_off s else Ret () s)"

definition BACKSPACE :: int where "BACKSPACE = 256"

definition consputc :: "int \<Rightarrow> 'a cons_state_scheme \<Rightarrow> (unit, 'a cons_state_scheme) kres" where
  "consputc c s =
     (if c = BACKSPACE then
        kbind (uartputc_sync 8 s) (\<lambda>_ s.
        kbind (uartputc_sync 32 s) (\<lambda>_ s.
        uartputc_sync 8 s))
      else uartputc_sync c s)"

fun consputs :: "string \<Rightarrow> 'a cons_state_scheme \<Rightarrow> (unit, 'a cons_state_scheme) kres" where
  "consputs [] s = Ret () s"
| "consputs (c # cs) s = kbind (consputc (of_char c) s) (\<lambda>_ s. consputs cs s)"

section \<open>Numbers\<close>

definition digits :: string where
  "digits = ''0123456789abcdef''"

text \<open>The digits the \<^verbatim>\<open>do\<close> loop stores into \<^verbatim>\<open>buf\<close>, least significant first.\<close>

function digit_buf :: "uint64 \<Rightarrow> uint64 \<Rightarrow> string" where
  "digit_buf x base =
     digits ! unat (x mod base) #
       (if x div base \<noteq> 0 \<and> 1 < base then digit_buf (x div base) base else [])"
  by pat_completeness auto
termination
proof (relation "measure (\<lambda>(x, base). unat x)")
  fix x base :: uint64 assume a: "x div base \<noteq> 0 \<and> 1 < base"
  then have "1 < unat base" by (simp add: word_less_nat_alt)
  moreover have "0 < unat x" using a by (auto simp: unat_gt_0)
  ultimately have "unat (x div base) < unat x" by (simp add: unat_div_distrib)
  then show "((x div base, base), x, base) \<in> measure (\<lambda>(x, base). unat x)" by simp
qed simp

declare digit_buf.simps [simp del]

definition printint_buf :: "uint64 \<Rightarrow> uint64 \<Rightarrow> bool \<Rightarrow> string" where
  "printint_buf xx base sign =
     (let neg = (sign \<and> sint xx < 0);
          x = (if neg then - xx else xx);
          buf = digit_buf x base
      in if neg then buf @ ''-'' else buf)"

definition printint ::
  "uint64 \<Rightarrow> uint64 \<Rightarrow> bool \<Rightarrow> 'a cons_state_scheme \<Rightarrow> (unit, 'a cons_state_scheme) kres" where
  "printint xx base sign s = consputs (rev (printint_buf xx base sign)) s"

fun printptr_loop :: "nat \<Rightarrow> uint64 \<Rightarrow> 'a cons_state_scheme \<Rightarrow> (unit, 'a cons_state_scheme) kres" where
  "printptr_loop 0 x s = Ret () s"
| "printptr_loop (Suc n) x s =
     kbind (consputc (of_char (digits ! unat (drop_bit 60 x))) s) (\<lambda>_ s.
     printptr_loop n (push_bit 4 x) s)"

definition printptr :: "uint64 \<Rightarrow> 'a cons_state_scheme \<Rightarrow> (unit, 'a cons_state_scheme) kres" where
  "printptr x s =
     kbind (consputc (of_char CHR ''0'') s) (\<lambda>_ s.
     kbind (consputc (of_char CHR ''x'') s) (\<lambda>_ s.
     printptr_loop 16 x s))"

section \<open>printf and panic\<close>

text \<open>
  The variadic arguments: words and string pointers (\<open>None\<close> is the null pointer).
  \<open>next_word\<close> and \<open>next_str\<close> are \<^verbatim>\<open>va_arg\<close>; reading past the arguments passed, or
  one of the other kind, is undefined in C and \<open>None\<close> here.
\<close>

datatype parg = PWord uint64 | PStr "string option"

fun next_word :: "parg list \<Rightarrow> (uint64 \<times> parg list) option" where
  "next_word (PWord w # ap) = Some (w, ap)"
| "next_word ap = None"

fun next_str :: "parg list \<Rightarrow> (string option \<times> parg list) option" where
  "next_str (PStr p # ap) = Some (p, ap)"
| "next_str ap = None"

definition int_arg :: "uint64 \<Rightarrow> uint64" where
  "int_arg w = scast (ucast w :: 32 word)"

definition uint32_arg :: "uint64 \<Rightarrow> uint64" where
  "uint32_arg w = ucast (ucast w :: 32 word)"

text \<open>
  What one \<^verbatim>\<open>%\<close> directive prints and how many characters follow its first, from the three
  characters after the percent sign (0 past the end of the format).
\<close>

datatype directive = DInt bool uint64 bool nat | DPtr | DChar | DStr | DPercent | DEnd | DUnknown

definition directive_of :: "char \<Rightarrow> char \<Rightarrow> char \<Rightarrow> directive" where
  "directive_of c0 c1 c2 =
     (if c0 = CHR ''d'' then DInt True 10 True 0
      else if c0 = CHR ''l'' \<and> c1 = CHR ''d'' then DInt False 10 True 1
      else if c0 = CHR ''l'' \<and> c1 = CHR ''l'' \<and> c2 = CHR ''d'' then DInt False 10 True 2
      else if c0 = CHR ''u'' then DInt True 10 False 0
      else if c0 = CHR ''l'' \<and> c1 = CHR ''u'' then DInt False 10 False 1
      else if c0 = CHR ''l'' \<and> c1 = CHR ''l'' \<and> c2 = CHR ''u'' then DInt False 10 False 2
      else if c0 = CHR ''x'' then DInt True 16 False 0
      else if c0 = CHR ''l'' \<and> c1 = CHR ''x'' then DInt False 16 False 1
      else if c0 = CHR ''l'' \<and> c1 = CHR ''l'' \<and> c2 = CHR ''x'' then DInt False 16 False 2
      else if c0 = CHR ''p'' then DPtr
      else if c0 = CHR ''c'' then DChar
      else if c0 = CHR ''s'' then DStr
      else if c0 = CHR ''%'' then DPercent
      else if c0 = CHR 0x00 then DEnd
      else DUnknown)"

text \<open>The character at position \<open>i\<close> of a NUL-terminated string.\<close>

definition char_at :: "string \<Rightarrow> nat \<Rightarrow> char" where
  "char_at fmt i = (if i < length fmt then fmt ! i else CHR 0x00)"

definition printf_directive ::
  "directive \<Rightarrow> char \<Rightarrow> parg list \<Rightarrow> 'a cons_state_scheme \<Rightarrow> (parg list, 'a cons_state_scheme) kres" where
  "printf_directive d c0 ap s =
     (case d of
        DInt narrow base sign n \<Rightarrow>
          (case next_word ap of
             Some (w, ap) \<Rightarrow>
               let x = (if \<not> narrow then w else if sign then int_arg w else uint32_arg w) in
               kbind (printint x base sign s) (\<lambda>_ s. Ret ap s)
           | None \<Rightarrow> Undef)
      | DPtr \<Rightarrow>
          (case next_word ap of
             Some (w, ap) \<Rightarrow> kbind (printptr w s) (\<lambda>_ s. Ret ap s)
           | None \<Rightarrow> Undef)
      | DChar \<Rightarrow>
          (case next_word ap of
             Some (w, ap) \<Rightarrow> kbind (consputc (to_int w) s) (\<lambda>_ s. Ret ap s)
           | None \<Rightarrow> Undef)
      | DStr \<Rightarrow>
          (case next_str ap of
             Some (p, ap) \<Rightarrow>
               let str = (case p of None \<Rightarrow> ''(null)'' | Some str \<Rightarrow> str) in
               kbind (consputs (takeWhile (\<lambda>c. c \<noteq> CHR 0x00) str) s) (\<lambda>_ s. Ret ap s)
           | None \<Rightarrow> Undef)
      | DPercent \<Rightarrow> kbind (consputc (of_char CHR ''%'') s) (\<lambda>_ s. Ret ap s)
      | DEnd \<Rightarrow> Ret ap s
      | DUnknown \<Rightarrow>
          kbind (consputc (of_char CHR ''%'') s) (\<lambda>_ s.
          kbind (consputc (of_char c0) s) (\<lambda>_ s. Ret ap s)))"

primrec directive_extra :: "directive \<Rightarrow> nat" where
  "directive_extra (DInt narrow base sign n) = n"
| "directive_extra DPtr = 0"
| "directive_extra DChar = 0"
| "directive_extra DStr = 0"
| "directive_extra DPercent = 0"
| "directive_extra DEnd = 0"
| "directive_extra DUnknown = 0"

fun printf_loop ::
  "string \<Rightarrow> parg list \<Rightarrow> 'a cons_state_scheme \<Rightarrow> (unit, 'a cons_state_scheme) kres" where
  "printf_loop [] ap s = Ret () s"
| "printf_loop (cx # fmt) ap s =
     (if cx = CHR 0x00 then Ret () s
      else if cx \<noteq> CHR ''%'' then kbind (consputc (of_char cx) s) (\<lambda>_ s. printf_loop fmt ap s)
      else let c0 = char_at fmt 0;
               d = directive_of c0 (char_at fmt 1) (char_at fmt 2) in
           kbind (printf_directive d c0 ap s) (\<lambda>ap s.
           if d = DEnd then Ret () s else printf_loop (drop (1 + directive_extra d) fmt) ap s))"

definition printf ::
  "string \<Rightarrow> parg list \<Rightarrow> 'a cons_state_scheme \<Rightarrow> (int, 'a cons_state_scheme) kres" where
  "printf fmt ap s =
     kbind (if panicking s = 0 then acquire L_pr s else Ret () s) (\<lambda>_ s.
     kbind (printf_loop fmt ap s) (\<lambda>_ s.
     kbind (if panicking s = 0 then release L_pr s else Ret () s) (\<lambda>_ s.
     Ret 0 s)))"

text \<open>
  \<^verbatim>\<open>panic\<close> up to its final endless loop, with the state it spins in; everywhere else in
  the model a call of it is the outcome \<open>Panic\<close>.
\<close>

definition panic :: "string \<Rightarrow> 'a cons_state_scheme \<Rightarrow> (unit, 'a cons_state_scheme) kres" where
  "panic msg s =
     (let s = s\<lparr>panicking := 1\<rparr> in
      kbind (printf ''panic: '' [] s) (\<lambda>_ s.
      kbind (printf (''%s'' @ [CHR 0x0A]) [PStr (Some msg)] s) (\<lambda>_ s.
      Ret () (s\<lparr>panicked := 1\<rparr>))))"

definition printfinit :: "'a cons_state_scheme \<Rightarrow> 'a cons_state_scheme" where
  "printfinit s = initlock L_pr ''pr'' s"

section \<open>The text a call prints\<close>

text \<open>The bytes one \<^verbatim>\<open>consputc\<close> sends, and the bytes of a whole \<^verbatim>\<open>printf\<close> call.\<close>

definition cons_bytes :: "int \<Rightarrow> uchar list" where
  "cons_bytes c = (if c = BACKSPACE then [8, 32, 8] else [word_of_int c])"

definition str_bytes :: "string \<Rightarrow> uchar list" where
  "str_bytes cs = map of_char cs"

fun hex_bytes :: "nat \<Rightarrow> uint64 \<Rightarrow> uchar list" where
  "hex_bytes 0 x = []"
| "hex_bytes (Suc n) x = of_char (digits ! unat (drop_bit 60 x)) # hex_bytes n (push_bit 4 x)"

definition directive_text :: "directive \<Rightarrow> char \<Rightarrow> parg list \<Rightarrow> (uchar list \<times> parg list) option" where
  "directive_text d c0 ap =
     (case d of
        DInt narrow base sign n \<Rightarrow>
          map_option (\<lambda>(w, ap). (str_bytes (rev (printint_buf
            (if \<not> narrow then w else if sign then int_arg w else uint32_arg w) base sign)), ap))
            (next_word ap)
      | DPtr \<Rightarrow> map_option (\<lambda>(w, ap). (str_bytes ''0x'' @ hex_bytes 16 w, ap)) (next_word ap)
      | DChar \<Rightarrow> map_option (\<lambda>(w, ap). (cons_bytes (to_int w), ap)) (next_word ap)
      | DStr \<Rightarrow> map_option (\<lambda>(p, ap). (str_bytes (takeWhile (\<lambda>c. c \<noteq> CHR 0x00)
            (case p of None \<Rightarrow> ''(null)'' | Some str \<Rightarrow> str)), ap)) (next_str ap)
      | DPercent \<Rightarrow> Some (str_bytes ''%'', ap)
      | DEnd \<Rightarrow> Some ([], ap)
      | DUnknown \<Rightarrow> Some (str_bytes [CHR ''%'', c0], ap))"

fun printf_text :: "string \<Rightarrow> parg list \<Rightarrow> uchar list option" where
  "printf_text [] ap = Some []"
| "printf_text (cx # fmt) ap =
     (if cx = CHR 0x00 then Some []
      else if cx \<noteq> CHR ''%'' then map_option (\<lambda>t. of_char cx # t) (printf_text fmt ap)
      else let c0 = char_at fmt 0;
               d = directive_of c0 (char_at fmt 1) (char_at fmt 2) in
           (case directive_text d c0 ap of
              None \<Rightarrow> None
            | Some (t, ap) \<Rightarrow>
                if d = DEnd then Some t
                else map_option (\<lambda>u. t @ u) (printf_text (drop (1 + directive_extra d) fmt) ap)))"

text \<open>Output can proceed: the transmitter is idle and no CPU has panicked.\<close>

definition uart_ready :: "'a cons_state_scheme \<Rightarrow> bool" where
  "uart_ready s \<longleftrightarrow> uart_lsr s AND LSR_TX_IDLE \<noteq> 0 \<and> panicking s = 0 \<and> panicked s = 0"

abbreviation sent :: "uchar list \<Rightarrow> 'a cons_state_scheme \<Rightarrow> 'a cons_state_scheme" where
  "sent bs s \<equiv> s\<lparr>uart_out := uart_out s @ bs\<rparr>"

lemma cons_frame [simp]:
  "may_lock lk (uart_out_update f s) = may_lock lk s"
  "uart_ready (uart_out_update f s) = uart_ready s"
  "cpu_ok (uart_out_update f s) = cpu_ok s" "mycpu (uart_out_update f s) = mycpu s"
  by (simp_all add: may_lock_def lock_free_def cpu_ok_def cpu_defs uart_ready_def)

lemma cons_hold [simp]:
  "uart_out (hold lk s) = uart_out s" "uart_lsr (hold lk s) = uart_lsr s"
  "panicking (hold lk s) = panicking s" "panicked (hold lk s) = panicked s"
  "uart_out_update f (hold lk s) = hold lk (uart_out_update f s)"
  "uart_ready (hold lk s) = uart_ready s"
  by (simp_all add: lock_defs uart_ready_def)

lemma cons_settle [simp]:
  "uart_out (settle s) = uart_out s" "uart_lsr (settle s) = uart_lsr s"
  "panicking (settle s) = panicking s" "panicked (settle s) = panicked s"
  "uart_out_update f (settle s) = settle (uart_out_update f s)"
  "uart_ready (settle s) = uart_ready s"
  by (simp_all add: lock_defs uart_ready_def)

lemma cons_push_off [simp]:
  "uart_out (push_off s) = uart_out s" "uart_lsr (push_off s) = uart_lsr s"
  "panicking (push_off s) = panicking s" "panicked (push_off s) = panicked s"
  "uart_out_update f (push_off s) = push_off (uart_out_update f s)"
  by (simp_all add: cpu_defs)

lemma uartputc_sync_nested:
  "nested s \<Longrightarrow> uart_ready s \<Longrightarrow> uartputc_sync c s = Ret () (sent [word_of_int c] s)"
  by (simp add: uartputc_sync_def uart_ready_def pop_push_nested Let_def)

lemma consputc_nested:
  "nested s \<Longrightarrow> uart_ready s \<Longrightarrow> consputc c s = Ret () (sent (cons_bytes c) s)"
  by (simp add: consputc_def cons_bytes_def uartputc_sync_nested)

lemma cons_bytes_less: "c < 256 \<Longrightarrow> cons_bytes c = [word_of_int c]"
  by (simp add: cons_bytes_def BACKSPACE_def)

lemma cons_bytes_char: "cons_bytes (of_char c) = [of_char c]"
proof -
  have "(of_char c :: int) mod 256 < 256" by (rule pos_mod_bound) simp
  then have "(of_char c :: int) < 256" by simp
  then show ?thesis by (simp add: cons_bytes_less of_int_of_char)
qed

lemma consputs_nested:
  "nested s \<Longrightarrow> uart_ready s \<Longrightarrow> consputs cs s = Ret () (sent (str_bytes cs) s)"
  by (induction cs arbitrary: s) (simp_all add: consputc_nested cons_bytes_char str_bytes_def)

lemma printptr_loop_nested:
  "nested s \<Longrightarrow> uart_ready s \<Longrightarrow> printptr_loop n x s = Ret () (sent (hex_bytes n x) s)"
  by (induction n arbitrary: x s) (simp_all add: consputc_nested cons_bytes_char)

lemma printf_directive_nested:
  assumes "nested s" "uart_ready s"
  shows "printf_directive d c0 ap s =
    (case directive_text d c0 ap of None \<Rightarrow> Undef | Some (t, ap) \<Rightarrow> Ret ap (sent t s))"
  using assms
  by (cases d) (auto simp: printf_directive_def directive_text_def printint_def printptr_def
      consputc_nested cons_bytes_char cons_bytes_less consputs_nested printptr_loop_nested str_bytes_def Let_def
      split: option.splits)

lemma printf_loop_nested:
  assumes "nested s" "uart_ready s"
  shows "printf_loop fmt ap s =
    (case printf_text fmt ap of None \<Rightarrow> Undef | Some t \<Rightarrow> Ret () (sent t s))"
  using assms
proof (induction fmt ap s rule: printf_loop.induct)
  case (2 cx fmt ap s)
  then show ?case
    by (auto simp: consputc_nested cons_bytes_char printf_directive_nested Let_def
        split: option.splits)
qed simp

lemma printf_eq:
  assumes "may_lock L_pr s" "uart_ready s"
  shows "printf fmt ap s =
    (case printf_text fmt ap of None \<Rightarrow> Undef | Some t \<Rightarrow> Ret 0 (settle (sent t s)))"
proof -
  have "nested (hold L_pr s)" using assms by (auto simp: may_lock_def cpu_ok_def)
  then show ?thesis
    using assms by (auto simp: printf_def printf_loop_nested uart_ready_def split: option.splits)
qed

section \<open>Numerals\<close>

text \<open>The value of a numeral, most significant digit first.\<close>

definition digit_val :: "char \<Rightarrow> nat" where
  "digit_val c = (if CHR ''a'' = c \<or> of_char CHR ''a'' < (of_char c :: nat) then of_char c - 87 else of_char c - 48)"

definition numeral_val :: "nat \<Rightarrow> string \<Rightarrow> nat" where
  "numeral_val base cs = foldl (\<lambda>v c. v * base + digit_val c) 0 cs"

definition int_val :: "string \<Rightarrow> int" where
  "int_val cs =
     (case cs of
        [] \<Rightarrow> 0
      | c # ds \<Rightarrow> if c = CHR ''-'' then - int (numeral_val 10 ds) else int (numeral_val 10 cs))"

lemma digit_val_digits: "n < 16 \<Longrightarrow> digit_val (digits ! n) = n"
proof -
  have "\<forall>n < 16. digit_val (digits ! n) = n"
    by (simp add: digits_def digit_val_def All_less_Suc numeral_eq_Suc)
  then show "n < 16 \<Longrightarrow> digit_val (digits ! n) = n" by blast
qed

lemma digits_not_minus: "n < 16 \<Longrightarrow> digits ! n \<noteq> CHR ''-''"
proof -
  have "\<forall>n < 16. digits ! n \<noteq> CHR ''-''"
    by (simp add: digits_def All_less_Suc numeral_eq_Suc)
  then show "n < 16 \<Longrightarrow> digits ! n \<noteq> CHR ''-''" by blast
qed

lemma numeral_val_rev_digit_buf:
  assumes "1 < base" "base \<le> 16"
  shows "numeral_val (unat base) (rev (digit_buf x base)) = unat x"
  using assms
proof (induction x base rule: digit_buf.induct)
  case (1 x base)
  have b: "1 < unat base" "unat base \<le> 16"
    using "1.prems" by (simp_all add: word_less_nat_alt word_le_nat_alt)
  have d: "digit_val (digits ! unat (x mod base)) = unat x mod unat base"
    using b by (subst digit_val_digits) (simp_all add: unat_mod_distrib order_less_le_trans [of _ "unat base"])
  show ?case
  proof (cases "x div base = 0")
    case True
    then have "unat x div unat base = 0" by (metis unat_div_distrib unat_0)
    then show ?thesis using True d b "1.prems"
      by (simp add: digit_buf.simps [of x base] numeral_val_def div_eq_0_iff)
  next
    case False
    then show ?thesis using "1.IH" "1.prems" d
      by (simp add: digit_buf.simps [of x base] numeral_val_def unat_div_distrib)
  qed
qed

lemma length_digit_buf:
  assumes "1 < base" "unat x < unat base ^ n" "0 < n"
  shows "length (digit_buf x base) \<le> n"
  using assms
proof (induction x base arbitrary: n rule: digit_buf.induct)
  case (1 x base)
  then obtain k where k: "n = Suc k" by (cases n) auto
  show ?case
  proof (cases "x div base = 0")
    case True
    then show ?thesis using k by (simp add: digit_buf.simps [of x base])
  next
    case False
    then have nz: "unat x div unat base \<noteq> 0" by (metis unat_div_distrib unat_eq_zero)
    have lt: "unat x div unat base < unat base ^ k"
      using "1.prems"(2) k by (simp add: less_mult_imp_div_less mult.commute)
    have "0 < k" using nz lt by (cases k) auto
    then show ?thesis using "1.IH" [of k] "1.prems" False lt k
      by (simp add: digit_buf.simps [of x base] unat_div_distrib)
  qed
qed

lemma unat_neg_sint: "sint (xx :: uint64) < 0 \<Longrightarrow> int (unat (- xx)) = - sint xx"
proof -
  assume a: "sint xx < 0"
  have "- (2 ^ 63) \<le> sint xx" using sint_ge [of xx] by simp
  then have "(- sint xx) mod 2 ^ 64 = - sint xx" using a by (intro mod_pos_pos_trivial) auto
  moreover have "uint (- xx) = (- sint xx) mod 2 ^ 64"
    using uint_word_of_int [of "- sint xx", where 'a = 64] by simp
  ultimately show ?thesis by simp
qed

lemma unat_pos_sint: "0 \<le> sint (xx :: uint64) \<Longrightarrow> int (unat xx) = sint xx"
  using uint_word_of_int [of "sint xx", where 'a = 64] sint_lt [of xx] by simp

lemma digit_buf_ends:
  assumes "1 < base" "base \<le> 16"
  shows "\<exists>n < 16. \<exists>ds. digit_buf x base = ds @ [digits ! n]"
  using assms
proof (induction x base rule: digit_buf.induct)
  case (1 x base)
  have m: "unat (x mod base) < 16"
    using "1.prems" by (auto simp: word_less_nat_alt word_le_nat_alt unat_mod_distrib
        intro: order_less_le_trans [of _ "unat base"])
  show ?case
  proof (cases "x div base = 0")
    case True
    then show ?thesis using m by (auto simp: digit_buf.simps [of x base])
  next
    case False
    then obtain n ds where "n < 16" "digit_buf (x div base) base = ds @ [digits ! n]"
      using 1 by auto
    then show ?thesis using False "1.prems" by (auto simp: digit_buf.simps [of x base])
  qed
qed

lemma int_val_digit_buf: "int_val (rev (digit_buf x 10)) = int (unat x)"
proof -
  obtain n ds where n: "n < 16" "digit_buf x 10 = ds @ [digits ! n]"
    using digit_buf_ends [of 10 x] by auto
  then have "int_val (rev (digit_buf x 10)) = int (numeral_val 10 (rev (digit_buf x 10)))"
    using digits_not_minus [of n] by (simp add: int_val_def)
  then show ?thesis using numeral_val_rev_digit_buf [of 10 x] by simp
qed

text \<open>
  C17: the decimal text \<^verbatim>\<open>printint\<close> sends for a signed argument reads back as that 64-bit
  value, the most negative one included; the text for an unsigned argument, in decimal or in
  hexadecimal, reads back as the unsigned value.
\<close>

theorem printint_reads_back:
  "int_val (rev (printint_buf xx 10 True)) = sint xx \<and>
   numeral_val 10 (rev (printint_buf xx 10 False)) = unat xx \<and>
   numeral_val 16 (rev (printint_buf xx 16 False)) = unat xx"
proof (intro conjI)
  show "int_val (rev (printint_buf xx 10 True)) = sint xx"
  proof (cases "sint xx < 0")
    case True
    then have "rev (printint_buf xx 10 True) = CHR ''-'' # rev (digit_buf (- xx) 10)"
      by (simp add: printint_buf_def)
    then show ?thesis
      using True numeral_val_rev_digit_buf [of 10 "- xx"] unat_neg_sint [of xx]
      by (simp add: int_val_def)
  next
    case False
    then show ?thesis
      using int_val_digit_buf [of xx] unat_pos_sint [of xx] by (simp add: printint_buf_def)
  qed
  show "numeral_val 10 (rev (printint_buf xx 10 False)) = unat xx"
    using numeral_val_rev_digit_buf [of 10 xx] by (simp add: printint_buf_def)
  show "numeral_val 16 (rev (printint_buf xx 16 False)) = unat xx"
    using numeral_val_rev_digit_buf [of 16 xx] by (simp add: printint_buf_def)
qed

text \<open>
  C18: \<^verbatim>\<open>printint\<close> never writes past its buffer of 20 characters, sign included, in
  either base \<^verbatim>\<open>printf\<close> uses.
\<close>

theorem printint_fits_buf:
  "length (printint_buf xx 10 sign) \<le> 20 \<and> length (printint_buf xx 16 sign) \<le> 20"
proof -
  have lt: "unat w < 10 ^ 20" "unat w < 16 ^ 16" for w :: uint64
    using unat_lt64 [of w] by simp_all
  have neg: "unat (- xx) < 10 ^ 19" if "sint xx < 0"
  proof -
    have "- (2 ^ 63) \<le> sint xx" using sint_ge [of xx] by simp
    then have "int (unat (- xx)) \<le> 2 ^ 63" using unat_neg_sint [OF that] by linarith
    then have "int (unat (- xx)) < int (10 ^ 19)" by (rule order_le_less_trans) simp
    then show ?thesis by (simp only: of_nat_less_iff)
  qed
  show ?thesis
    using length_digit_buf [of 10 xx 20] length_digit_buf [of 16 xx 16]
      length_digit_buf [of 10 "- xx" 19] length_digit_buf [of 16 "- xx" 16] lt neg
    by (auto simp: printint_buf_def Let_def)
qed


definition idle_console :: cons_state where
  "idle_console = \<lparr>cpus = (\<lambda>_. idle_cpu), tp = 0, locks = (\<lambda>_. open_lock),
     uart_lsr = LSR_TX_IDLE, uart_out = [], panicking = 0, panicked = 0\<rparr>"


end
