(* ===== verification/Kalloc.thy ===== *)
theory Kalloc
  imports Printf
begin

text \<open>
  The physical page allocator (\<^verbatim>\<open>kernel/kalloc.c\<close>).  Free pages are linked through their own
  first eight bytes, so the free list lives in byte memory; \<open>end_sym\<close> is the linker symbol
  \<^verbatim>\<open>end\<close>, which no operation writes.
\<close>

section \<open>State and operations\<close>

record kmem_state = cons_state +
  mem :: memory
  end_sym :: uint64
  freelist :: uint64
  total_mem_bytes :: uint64

definition kfree :: "uint64 \<Rightarrow> 'a kmem_state_scheme \<Rightarrow> (unit, 'a kmem_state_scheme) kres" where
  "kfree pa s =
     (if pa mod PGSIZE \<noteq> 0 \<or> pa < end_sym s \<or> pa \<ge> PHYSTOP then Panic ''kfree''
      else let s = s\<lparr>mem := memset (mem s) pa 1 (unat PGSIZE)\<rparr>; r = pa in
           kbind (acquire L_kmem s) (\<lambda>_ s.
           let s = s\<lparr>mem := store64 (mem s) r (freelist s)\<rparr>;
               s = s\<lparr>freelist := r\<rparr> in
           release L_kmem s))"

definition kalloc :: "'a kmem_state_scheme \<Rightarrow> (uint64, 'a kmem_state_scheme) kres" where
  "kalloc s =
     kbind (acquire L_kmem s) (\<lambda>_ s.
     let r = freelist s;
         s = (if r \<noteq> 0 then s\<lparr>freelist := load64 (mem s) r\<rparr> else s) in
     kbind (release L_kmem s) (\<lambda>_ s.
     Ret r (if r \<noteq> 0 then s\<lparr>mem := memset (mem s) r 5 (unat PGSIZE)\<rparr> else s)))"

text \<open>A loop that does not end is \<open>None\<close> in the loop's own type, \<open>Diverge\<close> in the caller's.\<close>

primrec or_diverge :: "('r, 's) kres option \<Rightarrow> ('r, 's) kres" where
  "or_diverge (Some m) = m"
| "or_diverge None = Diverge"

partial_function (option) freerange_loop ::
  "uint64 \<Rightarrow> uint64 \<Rightarrow> 'a kmem_state_scheme \<Rightarrow> (unit, 'a kmem_state_scheme) kres option" where
  "freerange_loop p pa_end s =
     (if p + PGSIZE \<le> pa_end then
        (case kfree p s of
           Ret _ s \<Rightarrow> freerange_loop (p + PGSIZE) pa_end s
         | Panic msg \<Rightarrow> Some (Panic msg) | Wait w s \<Rightarrow> Some (Wait w s) 
         | Diverge \<Rightarrow> Some Diverge | Undef \<Rightarrow> Some Undef)
      else Some (Ret () s))"

definition freerange ::
  "uint64 \<Rightarrow> uint64 \<Rightarrow> 'a kmem_state_scheme \<Rightarrow> (unit, 'a kmem_state_scheme) kres" where
  "freerange pa_start pa_end s = or_diverge (freerange_loop (PGROUNDUP pa_start) pa_end s)"

partial_function (option) count_free_loop :: "memory \<Rightarrow> uint64 \<Rightarrow> uint64 \<Rightarrow> uint64 option" where
  "count_free_loop m r n = (if r \<noteq> 0 then count_free_loop m (load64 m r) (n + 1) else Some n)"

definition count_free_mem :: "'a kmem_state_scheme \<Rightarrow> (uint64, 'a kmem_state_scheme) kres" where
  "count_free_mem s =
     kbind (acquire L_kmem s) (\<lambda>_ s.
     case count_free_loop (mem s) (freelist s) 0 of
       None \<Rightarrow> Diverge
     | Some n \<Rightarrow> kbind (release L_kmem s) (\<lambda>_ s. Ret (n * PGSIZE) s))"

definition count_total_mem :: "'a kmem_state_scheme \<Rightarrow> uint64" where
  "count_total_mem s = total_mem_bytes s"

definition kinit :: "'a kmem_state_scheme \<Rightarrow> (unit, 'a kmem_state_scheme) kres" where
  "kinit s =
     (let s = initlock L_kmem ''kmem'' s in
      kbind (freerange (end_sym s) PHYSTOP s) (\<lambda>_ s.
      kbind (count_free_mem s) (\<lambda>n s.
      Ret () (s\<lparr>total_mem_bytes := n\<rparr>))))"

section \<open>Linked lists through memory\<close>

text \<open>\<open>linked nx r xs\<close>: following \<open>nx\<close> from \<open>r\<close> visits the nodes \<open>xs\<close> and ends at null.\<close>

primrec linked :: "(uint64 \<Rightarrow> uint64) \<Rightarrow> uint64 \<Rightarrow> uint64 list \<Rightarrow> bool" where
  "linked nx r [] \<longleftrightarrow> r = 0"
| "linked nx r (x # xs) \<longleftrightarrow> r = x \<and> x \<noteq> 0 \<and> linked nx (nx x) xs"

lemma linked_cong: "(\<And>x. x \<in> set xs \<Longrightarrow> nx x = nx' x) \<Longrightarrow> linked nx r xs = linked nx' r xs"
  by (induction xs arbitrary: r) auto

lemma linked_null: "linked nx 0 xs \<longleftrightarrow> xs = []"
  by (cases xs) auto

lemma linked_nonnull: "linked nx r xs \<Longrightarrow> r \<noteq> 0 \<Longrightarrow> \<exists>ys. xs = r # ys \<and> linked nx (nx r) ys"
  by (cases xs) auto

text \<open>
  The interface the list-threading code relies on: a heap of 64-bit cells whose loads see the
  stores to the same cell and to no other.
\<close>

locale dword_heap =
  fixes ld :: "'m \<Rightarrow> uint64 \<Rightarrow> uint64" and st :: "'m \<Rightarrow> uint64 \<Rightarrow> uint64 \<Rightarrow> 'm"
    and cell :: "uint64 \<Rightarrow> bool"
  assumes ld_st_same: "cell a \<Longrightarrow> ld (st m a v) a = v"
    and ld_st_other: "cell a \<Longrightarrow> cell b \<Longrightarrow> a \<noteq> b \<Longrightarrow> ld (st m a v) b = ld m b"
begin

lemma linked_frame:
  assumes "cell a" "\<And>x. x \<in> set xs \<Longrightarrow> cell x" "a \<notin> set xs"
  shows "linked (ld (st m a v)) r xs = linked (ld m) r xs"
  using assms by (intro linked_cong) (metis ld_st_other)

lemma linked_push:
  assumes "cell a" "\<And>x. x \<in> set xs \<Longrightarrow> cell x" "a \<notin> set xs" "a \<noteq> 0" "linked (ld m) r xs"
  shows "linked (ld (st m a r)) a (a # xs)"
  using assms linked_frame [of a xs m r r] by (simp add: ld_st_same)

end

interpretation mem64: dword_heap load64 store64 "aligned 8"
  by unfold_locales (simp_all add: load64_store64_other)

section \<open>The free list invariant\<close>

definition phys_page :: "'a kmem_state_scheme \<Rightarrow> uint64 \<Rightarrow> bool" where
  "phys_page s pa \<longleftrightarrow> page_aligned pa \<and> end_sym s \<le> pa \<and> pa < PHYSTOP"

text \<open>
  \<open>kmem_ok s xs\<close>: the free list holds exactly the pages \<open>xs\<close>, each once, each a page of
  allocatable RAM.
\<close>

definition kmem_ok :: "'a kmem_state_scheme \<Rightarrow> uint64 list \<Rightarrow> bool" where
  "kmem_ok s xs \<longleftrightarrow> 0 < end_sym s \<and> linked (load64 (mem s)) (freelist s) xs \<and> distinct xs \<and>
     (\<forall>x \<in> set xs. phys_page s x)"

lemma kmem_frame [simp]:
  "may_lock lk (mem_update f s) = may_lock lk s"
  "may_lock lk (freelist_update g s) = may_lock lk s"
  "may_lock lk (total_mem_bytes_update h s) = may_lock lk s"
  by (simp_all add: may_lock_def lock_free_def cpu_ok_def cpu_defs)

lemma kmem_hold [simp]:
  "mem (hold lk s) = mem s" "freelist (hold lk s) = freelist s" "end_sym (hold lk s) = end_sym s"
  "total_mem_bytes (hold lk s) = total_mem_bytes s"
  "mem_update f (hold lk s) = hold lk (mem_update f s)"
  "freelist_update g (hold lk s) = hold lk (freelist_update g s)"
  by (simp_all add: lock_defs)

lemma kmem_settle [simp]:
  "mem (settle s) = mem s" "freelist (settle s) = freelist s" "end_sym (settle s) = end_sym s"
  "total_mem_bytes (settle s) = total_mem_bytes s"
  "mem_update f (settle s) = settle (mem_update f s)"
  "freelist_update g (settle s) = settle (freelist_update g s)"
  "total_mem_bytes_update h (settle s) = settle (total_mem_bytes_update h s)"
  by (simp_all add: lock_defs)

lemma kmem_ok_settle [simp]: "kmem_ok (settle s) xs = kmem_ok s xs"
  by (simp add: kmem_ok_def phys_page_def)

lemma phys_page_aligned: "phys_page s pa \<Longrightarrow> aligned 4096 pa"
  by (simp add: phys_page_def page_aligned_unat aligned_def dvd_eq_mod_eq_0)

lemma aligned_4096_8: "aligned 4096 a \<Longrightarrow> aligned 8 a"
  using dvd_trans [of 8 4096 "unat a"] by (simp add: aligned_def dvd_eq_mod_eq_0 [of 8 4096])

lemma load64_memset_other:
  assumes "aligned 4096 a" "aligned 4096 b" "a \<noteq> b"
  shows "load64 (memset m a c (unat PGSIZE)) b = load64 m b"
proof (rule load64_cong)
  fix i :: nat assume "i < 8"
  then have "\<not> in_range (b + of_nat i) a 4096"
    using assms by (intro aligned_disjoint) simp_all
  then show "memset m a c (unat PGSIZE) (b + of_nat i) = m (b + of_nat i)"
    by (simp add: memset_apply PGSIZE_def)
qed

section \<open>What the operations do\<close>

lemma kfree_eq:
  assumes "phys_page s pa" "may_lock L_kmem s"
  shows "kfree pa s = Ret () (settle (s\<lparr>mem := store64 (memset (mem s) pa 1 (unat PGSIZE)) pa (freelist s),
    freelist := pa\<rparr>))"
  using assms by (simp add: kfree_def phys_page_def page_aligned_def [symmetric] Let_def not_le not_less)

lemma kfree_panic: "\<not> phys_page s pa \<Longrightarrow> kfree pa s = Panic ''kfree''"
  by (auto simp: kfree_def phys_page_def page_aligned_def [symmetric])

lemma kalloc_eq:
  assumes "may_lock L_kmem s"
  shows "kalloc s = Ret (freelist s)
    (settle (if freelist s = 0 then s
      else s\<lparr>freelist := load64 (mem s) (freelist s),
             mem := memset (mem s) (freelist s) 5 (unat PGSIZE)\<rparr>))"
  using assms by (simp add: kalloc_def Let_def)

lemma kmem_ok_kfree:
  assumes ok: "kmem_ok s xs" and pg: "phys_page s pa" and new: "pa \<notin> set xs"
  shows "kmem_ok (s\<lparr>mem := store64 (memset (mem s) pa 1 (unat PGSIZE)) pa (freelist s),
    freelist := pa\<rparr>) (pa # xs)"
proof -
  let ?m = "memset (mem s) pa 1 (unat PGSIZE)"
  have al: "aligned 4096 pa" "\<And>x. x \<in> set xs \<Longrightarrow> aligned 4096 x"
    using ok pg by (auto simp: kmem_ok_def intro: phys_page_aligned)
  have "linked (load64 ?m) (freelist s) xs = linked (load64 (mem s)) (freelist s) xs"
    using al new by (intro linked_cong load64_memset_other) auto
  then have "linked (load64 ?m) (freelist s) xs" using ok by (simp add: kmem_ok_def)
  moreover have "pa \<noteq> 0" using ok pg by (auto simp: kmem_ok_def phys_page_def)
  ultimately have "linked (load64 (store64 ?m pa (freelist s))) pa (pa # xs)"
    using al new by (intro mem64.linked_push) (auto intro: aligned_4096_8)
  then show ?thesis using ok pg new by (simp add: kmem_ok_def phys_page_def)
qed

lemma kmem_ok_kalloc:
  assumes ok: "kmem_ok s (x # xs)"
  shows "kmem_ok (s\<lparr>freelist := load64 (mem s) (freelist s),
    mem := memset (mem s) (freelist s) 5 (unat PGSIZE)\<rparr>) xs"
proof -
  have al: "aligned 4096 x" "\<And>y. y \<in> set xs \<Longrightarrow> aligned 4096 y" and fl: "freelist s = x"
    using ok by (auto simp: kmem_ok_def intro: phys_page_aligned)
  have "linked (load64 (memset (mem s) x 5 (unat PGSIZE))) (load64 (mem s) x) xs =
      linked (load64 (mem s)) (load64 (mem s) x) xs"
    using al ok by (intro linked_cong load64_memset_other) (auto simp: kmem_ok_def)
  then show ?thesis using ok fl by (simp add: kmem_ok_def phys_page_def)
qed

lemma count_free_loop_linked:
  "linked (load64 m) r xs \<Longrightarrow> count_free_loop m r n = Some (n + of_nat (length xs))"
  by (induction xs arbitrary: r n) (simp_all add: count_free_loop.simps)

lemma count_free_mem_eq:
  assumes "kmem_ok s xs" "may_lock L_kmem s"
  shows "count_free_mem s = Ret (of_nat (length xs) * PGSIZE) (settle s)"
proof -
  have "count_free_loop (mem s) (freelist s) 0 = Some (of_nat (length xs))"
    using assms(1) count_free_loop_linked [of "mem s" "freelist s" xs 0] by (simp add: kmem_ok_def)
  then show ?thesis using assms(2) by (simp add: count_free_mem_def)
qed

section \<open>The allocator as an interface\<close>

text \<open>
  What a client of a page allocator relies on.  \<open>avail s xs\<close>: the pages \<open>xs\<close> are free in
  \<open>s\<close>, to be handed out in this order.
\<close>

locale page_allocator =
  fixes alloc :: "'s \<Rightarrow> (uint64, 's) kres" and free :: "uint64 \<Rightarrow> 's \<Rightarrow> (unit, 's) kres"
    and avail :: "'s \<Rightarrow> uint64 list \<Rightarrow> bool" and page :: "'s \<Rightarrow> uint64 \<Rightarrow> bool"
  assumes alloc_some:
      "avail s (x # xs) \<Longrightarrow> \<exists>t. alloc s = Ret x t \<and> avail t xs \<and> page t = page s"
    and alloc_none: "avail s [] \<Longrightarrow> \<exists>t. alloc s = Ret 0 t \<and> avail t [] \<and> page t = page s"
    and free_page: "avail s xs \<Longrightarrow> page s pa \<Longrightarrow> pa \<notin> set xs \<Longrightarrow>
      \<exists>t. free pa s = Ret () t \<and> avail t (pa # xs) \<and> page t = page s"
    and avail_distinct: "avail s xs \<Longrightarrow> distinct xs"
    and avail_page: "avail s xs \<Longrightarrow> x \<in> set xs \<Longrightarrow> page s x \<and> x \<noteq> 0"

text \<open>
  A client that frees only what it holds: the state of the allocator with the set of pages the
  client holds.
\<close>

inductive client_step ::
  "('s \<Rightarrow> (uint64, 's) kres) \<Rightarrow> (uint64 \<Rightarrow> 's \<Rightarrow> (unit, 's) kres) \<Rightarrow>
    's \<times> uint64 set \<Rightarrow> 's \<times> uint64 set \<Rightarrow> bool" for alloc free where
  alloc: "alloc s = Ret p t \<Longrightarrow> p \<noteq> 0 \<Longrightarrow> client_step alloc free (s, held) (t, insert p held)"
| alloc_fails: "alloc s = Ret 0 t \<Longrightarrow> client_step alloc free (s, held) (t, held)"
| free: "p \<in> held \<Longrightarrow> free p s = Ret () t \<Longrightarrow> client_step alloc free (s, held) (t, held - {p})"

context page_allocator
begin

definition split_ok :: "uint64 set \<Rightarrow> 's \<times> uint64 set \<Rightarrow> bool" where
  "split_ok all = (\<lambda>(s, held). \<exists>xs. avail s xs \<and> set xs \<inter> held = {} \<and> set xs \<union> held = all \<and>
     (\<forall>p \<in> held. page s p \<and> p \<noteq> 0))"

lemma client_step_split:
  assumes "client_step alloc free x y" "split_ok all x"
  shows "split_ok all y"
  using assms
proof (induction rule: client_step.induct)
  case (alloc s p t held)
  then obtain xs where xs: "avail s xs" "set xs \<inter> held = {}" "set xs \<union> held = all"
      "\<forall>q \<in> held. page s q \<and> q \<noteq> 0" by (auto simp: split_ok_def)
  show ?case
  proof (cases xs)
    case Nil
    then show ?thesis using alloc_none [of s] xs(1) alloc.hyps by auto
  next
    case (Cons y ys)
    then have "p = y" "avail t ys" "page t = page s"
      using alloc_some [of s y ys] xs(1) alloc.hyps by auto
    then show ?thesis
      using xs Cons avail_distinct [OF xs(1)] avail_page [OF xs(1), of y]
      by (auto simp: split_ok_def intro!: exI [of _ ys])
  qed
next
  case (alloc_fails s t held)
  then obtain xs where xs: "avail s xs" "set xs \<inter> held = {}" "set xs \<union> held = all"
      "\<forall>q \<in> held. page s q \<and> q \<noteq> 0" by (auto simp: split_ok_def)
  have "xs = []"
  proof (cases xs)
    case (Cons y ys)
    then show ?thesis
      using alloc_some [of s y ys] avail_page [OF xs(1), of y] xs(1) alloc_fails.hyps by auto
  qed
  then show ?case
    using alloc_none [of s] xs alloc_fails.hyps by (auto simp: split_ok_def intro!: exI [of _ "[]"])
next
  case (free p held s t)
  then obtain xs where xs: "avail s xs" "set xs \<inter> held = {}" "set xs \<union> held = all"
      "\<forall>q \<in> held. page s q \<and> q \<noteq> 0" by (auto simp: split_ok_def)
  then obtain "avail t (p # xs)" "page t = page s"
    using free_page [of s xs p] free.hyps by auto
  then show ?case
    using xs free.hyps by (auto simp: split_ok_def intro!: exI [of _ "p # xs"])
qed

lemma client_run_split:
  "(client_step alloc free)\<^sup>*\<^sup>* x y \<Longrightarrow> split_ok all x \<Longrightarrow> split_ok all y"
  by (induction rule: rtranclp_induct) (auto intro: client_step_split)

end

definition kmem_avail :: "'a kmem_state_scheme \<Rightarrow> uint64 list \<Rightarrow> bool" where
  "kmem_avail s xs \<longleftrightarrow> kmem_ok s xs \<and> may_lock L_kmem s"

lemma phys_page_frame [simp]:
  "phys_page (settle s) = phys_page s" "phys_page (mem_update f s) = phys_page s"
  "phys_page (freelist_update g s) = phys_page s"
  by (simp_all add: fun_eq_iff phys_page_def)

lemma kalloc_avail:
  assumes "kmem_avail s (x # xs)"
  shows "\<exists>t. kalloc s = Ret x t \<and> kmem_avail t xs \<and> phys_page t = phys_page s"
proof -
  have "freelist s = x" "x \<noteq> 0" using assms by (auto simp: kmem_avail_def kmem_ok_def)
  then show ?thesis
    using assms kmem_ok_kalloc [of s x xs] by (simp add: kmem_avail_def kalloc_eq)
qed

interpretation kmem: page_allocator kalloc kfree kmem_avail phys_page
proof unfold_locales
  show "\<exists>t. kalloc s = Ret x t \<and> kmem_avail t xs \<and> phys_page t = phys_page s"
    if "kmem_avail s (x # xs)" for s :: "'a kmem_state_scheme" and x xs
    using that by (rule kalloc_avail)
  show "\<exists>t. kalloc s = Ret 0 t \<and> kmem_avail t [] \<and> phys_page t = phys_page s"
    if "kmem_avail s []" for s :: "'a kmem_state_scheme"
    using that by (simp add: kmem_avail_def kalloc_eq kmem_ok_def)
  show "\<exists>t. kfree pa s = Ret () t \<and> kmem_avail t (pa # xs) \<and> phys_page t = phys_page s"
    if "kmem_avail s xs" "phys_page s pa" "pa \<notin> set xs" for s :: "'a kmem_state_scheme" and xs pa
    using that kmem_ok_kfree [of s xs pa] by (simp add: kmem_avail_def kfree_eq)
  show "distinct xs" if "kmem_avail s xs" for s :: "'a kmem_state_scheme" and xs
    using that by (simp add: kmem_avail_def kmem_ok_def)
  show "phys_page s x \<and> x \<noteq> 0" if "kmem_avail s xs" "x \<in> set xs"
    for s :: "'a kmem_state_scheme" and xs x
    using that by (auto simp: kmem_avail_def kmem_ok_def phys_page_def)
qed

section \<open>Boot: all of RAM becomes free\<close>

definition pages :: "uint64 \<Rightarrow> nat \<Rightarrow> uint64 list" where
  "pages p k = map (\<lambda>i. p + of_nat i * PGSIZE) [0..<k]"

lemma pages_Suc: "pages p (Suc k) = p # pages (p + PGSIZE) k"
proof -
  have "[0..<Suc k] = 0 # map Suc [0..<k]" by (simp add: upt_conv_Cons map_Suc_upt)
  then show ?thesis by (simp add: pages_def algebra_simps)
qed

lemma unat_PHYSTOP: "unat PHYSTOP = 2281701376"
  by (simp add: PHYSTOP_def KERNBASE_def)

lemma unat_add_PGSIZE: "unat p + 4096 < 2 ^ 64 \<Longrightarrow> unat (p + PGSIZE) = unat p + 4096"
  by (simp add: unat_word_ariths PGSIZE_def)

lemma freerange_loop_ok:
  assumes "kmem_avail s xs" "page_aligned p" "end_sym s \<le> p" "unat p + 4096 * k = unat PHYSTOP"
    "\<forall>x \<in> set xs. x < p"
  shows "\<exists>t. freerange_loop p PHYSTOP s = Some (Ret () t) \<and>
    kmem_avail t (rev (pages p k) @ xs) \<and> end_sym t = end_sym s"
  using assms
proof (induction k arbitrary: p s xs)
  case 0
  then have "\<not> p + PGSIZE \<le> PHYSTOP"
    by (simp add: word_le_nat_alt unat_add_PGSIZE unat_PHYSTOP)
  then show ?case using 0 by (subst freerange_loop.simps) (simp add: pages_def)
next
  case (Suc k)
  have next_p: "unat (p + PGSIZE) = unat p + 4096"
    using Suc.prems by (intro unat_add_PGSIZE) (simp add: unat_PHYSTOP)
  have pg: "phys_page s p"
    using Suc.prems by (simp add: phys_page_def word_less_nat_alt unat_PHYSTOP)
  then obtain t where t: "kfree p s = Ret () t" "kmem_avail t (p # xs)" "phys_page t = phys_page s"
    using kmem.free_page [of s xs p] Suc.prems by auto
  have e: "end_sym t = end_sym s"
    using t(1) pg Suc.prems(1) by (auto simp: kfree_eq kmem_avail_def)
  have "\<exists>u. freerange_loop (p + PGSIZE) PHYSTOP t = Some (Ret () u) \<and>
      kmem_avail u (rev (pages (p + PGSIZE) k) @ p # xs) \<and> end_sym u = end_sym t"
  proof (rule Suc.IH [OF t(2)])
    show "page_aligned (p + PGSIZE)"
      using Suc.prems(2) by (simp add: page_aligned_unat next_p)
    show "end_sym t \<le> p + PGSIZE"
      using Suc.prems(3) e by (simp add: word_le_nat_alt next_p)
    show "unat (p + PGSIZE) + 4096 * k = unat PHYSTOP"
      using Suc.prems(4) next_p by simp
    show "\<forall>x \<in> set (p # xs). x < p + PGSIZE"
      using Suc.prems(5) next_p by (auto simp: word_less_nat_alt)
  qed
  moreover have "p + PGSIZE \<le> PHYSTOP"
    using Suc.prems(4) next_p by (simp add: word_le_nat_alt)
  ultimately show ?case
    using t e by (subst freerange_loop.simps) (simp add: pages_Suc)
qed

lemma kinit_spec:
  assumes "cpu_ok s" "freelist s = 0" "0 < end_sym s" "end_sym s \<le> PHYSTOP"
  shows "\<exists>t. kinit s = Ret () t \<and> kmem_avail t (rev (pages (PGROUNDUP (end_sym s))
      ((unat PHYSTOP - unat (PGROUNDUP (end_sym s))) div 4096))) \<and>
    total_mem_bytes t =
      of_nat ((unat PHYSTOP - unat (PGROUNDUP (end_sym s))) div 4096) * PGSIZE"
proof -
  let ?p = "PGROUNDUP (end_sym s)" and ?s = "initlock L_kmem ''kmem'' s"
  let ?k = "(unat PHYSTOP - unat ?p) div 4096"
  have en: "unat (end_sym s) \<le> 2281701376"
    using assms(4) by (simp add: word_le_nat_alt unat_PHYSTOP)
  have up: "unat ?p = (unat (end_sym s) + 4095) - (unat (end_sym s) + 4095) mod 4096"
    using en by (intro unat_PGROUNDUP) simp
  have al: "unat ?p mod 4096 = 0" unfolding up by (simp add: minus_mod_eq_mult_div)
  then obtain q where q: "unat ?p = 4096 * q" by (auto simp: mod_eq_0_iff_dvd)
  have "unat (end_sym s) \<le> unat ?p" "unat ?p \<le> unat (end_sym s) + 4095"
    unfolding up by linarith+
  moreover from this have "q < 557057" using en q by linarith
  ultimately have bounds: "unat (end_sym s) \<le> unat ?p" "unat ?p \<le> 2281701376"
    using q by simp_all
  have k: "unat ?p + 4096 * ?k = unat PHYSTOP"
  proof -
    have "unat PHYSTOP - unat ?p = 4096 * (557056 - q)"
      by (simp add: unat_PHYSTOP q diff_mult_distrib2)
    then show ?thesis using bounds(2) q by (simp add: unat_PHYSTOP)
  qed
  have init: "kmem_avail ?s []" "end_sym ?s = end_sym s"
    using assms by (simp_all add: kmem_avail_def kmem_ok_def may_lock_def lock_free_def initlock_def
        cpu_ok_def cpu_defs)
  obtain t where t: "freerange_loop ?p PHYSTOP ?s = Some (Ret () t)"
      "kmem_avail t (rev (pages ?p ?k))" "end_sym t = end_sym s"
    using freerange_loop_ok [OF init(1), of ?p ?k] al bounds k init(2)
    by (auto simp: page_aligned_unat word_le_nat_alt)
  then have "count_free_mem t = Ret (of_nat ?k * PGSIZE) (settle t)"
    using count_free_mem_eq [of t "rev (pages ?p ?k)"] by (simp add: kmem_avail_def pages_def)
  then show ?thesis
    using t init by (auto simp: kinit_def freerange_def kmem_avail_def kmem_ok_def phys_page_def
        intro!: exI [of _ "settle (t\<lparr>total_mem_bytes := of_nat ?k * PGSIZE\<rparr>)"])
qed

lemma set_pages_phys:
  assumes "page_aligned p" "\<And>a. page_aligned a \<Longrightarrow> end_sym s \<le> a \<longleftrightarrow> p \<le> a"
    "unat p + 4096 * k = unat PHYSTOP"
  shows "set (pages p k) = {pa. phys_page s pa}"
proof (intro set_eqI iffI)
  have un: "unat (p + of_nat i * PGSIZE) = unat p + 4096 * i" if "i \<le> k" for i
    using that assms(3) unat_of_nat64 [of "4096 * i"]
    by (simp add: unat_PHYSTOP PGSIZE_def unat_word_ariths mult.commute)
  { fix x assume "x \<in> set (pages p k)"
    then obtain i where i: "i < k" "x = p + of_nat i * PGSIZE" by (auto simp: pages_def)
    then have "unat x = unat p + 4096 * i" using un [of i] by simp
    then show "x \<in> {pa. phys_page s pa}"
      using i assms(1,3) assms(2) [of x]
      by (simp add: phys_page_def page_aligned_unat word_le_nat_alt word_less_nat_alt) }
  { fix x assume "x \<in> {pa. phys_page s pa}"
    then have x: "unat x mod 4096 = 0" "unat p \<le> unat x" "unat x < unat p + 4096 * k"
      using assms by (auto simp: phys_page_def page_aligned_unat word_le_nat_alt word_less_nat_alt)
    have "unat p mod 4096 = 0" using assms(1) by (simp add: page_aligned_unat)
    then obtain a b where ab: "unat x = 4096 * a" "unat p = 4096 * b"
      using x(1) by (metis mod_eq_0_iff_dvd dvdE)
    then have "b \<le> a" "a - b < k" using x by auto
    moreover from this have "x = p + of_nat (a - b) * PGSIZE"
      using un [of "a - b"] ab by (simp add: word_unat_eq_iff diff_mult_distrib2)
    ultimately show "x \<in> set (pages p k)"
      by (auto simp: pages_def simp del: of_nat_diff intro!: image_eqI [of _ _ "a - b"]) }
qed

lemma PGROUNDUP_le_iff:
  assumes "unat e + 4095 < 2 ^ 64" "page_aligned a"
  shows "PGROUNDUP e \<le> a \<longleftrightarrow> e \<le> a"
proof -
  obtain q where q: "unat a = 4096 * q"
    using assms(2) by (auto simp: page_aligned_unat mod_eq_0_iff_dvd)
  have up: "unat (PGROUNDUP e) = 4096 * ((unat e + 4095) div 4096)"
    using unat_PGROUNDUP [OF assms(1)] by (simp add: minus_mod_eq_mult_div)
  have "(unat e + 4095) div 4096 \<le> q \<longleftrightarrow> unat e \<le> 4096 * q"
    by (simp add: div_le_dividend less_Suc_eq_le [symmetric] div_less_iff_less_mult) linarith
  then show ?thesis by (simp add: word_le_nat_alt q up)
qed

lemma length_pages [simp]: "length (pages p k) = k"
  by (simp add: pages_def)

lemma kinit_all:
  assumes "cpu_ok s" "freelist s = 0" "0 < end_sym s" "end_sym s \<le> PHYSTOP"
  shows "\<exists>t xs. kinit s = Ret () t \<and> kmem_avail t xs \<and> set xs = {pa. phys_page s pa} \<and>
    total_mem_bytes t = of_nat (length xs) * PGSIZE"
proof -
  let ?p = "PGROUNDUP (end_sym s)"
  let ?k = "(unat PHYSTOP - unat ?p) div 4096"
  have sm: "unat (end_sym s) \<le> 2281701376"
    using assms(4) by (simp add: word_le_nat_alt unat_PHYSTOP)
  then have up: "unat ?p = 4096 * ((unat (end_sym s) + 4095) div 4096)"
    using unat_PGROUNDUP [of "end_sym s"] by (simp add: minus_mod_eq_mult_div)
  have al: "page_aligned ?p" by (simp add: page_aligned_unat up)
  have top: "unat PHYSTOP = 4096 * 557056" by (simp add: unat_PHYSTOP)
  have "(unat (end_sym s) + 4095) div 4096 < 557057"
    using sm by (simp add: div_less_iff_less_mult)
  then have "unat ?p + 4096 * ?k = unat PHYSTOP"
    by (simp add: up top flip: diff_mult_distrib2)
  then have "set (pages ?p ?k) = {pa. phys_page s pa}"
    using al sm by (intro set_pages_phys) (simp_all add: PGROUNDUP_le_iff)
  then show ?thesis using kinit_spec [OF assms]
    by (auto intro!: exI [of _ "rev (pages ?p ?k)"])
qed

section \<open>Properties\<close>

text \<open>
  C11: after \<^verbatim>\<open>kinit\<close> the free list holds exactly the page-aligned addresses from the end of
  the kernel to the top of RAM, each once, and \<^verbatim>\<open>total_mem_bytes\<close> is their size; the
  \<^verbatim>\<open>freerange\<close> and counting loops end.
\<close>

theorem kinit_frees_all_ram:
  assumes "cpu_ok s" "freelist s = 0" "0 < end_sym s" "end_sym s \<le> PHYSTOP"
  shows "\<exists>t xs. kinit s = Ret () t \<and> kmem_avail t xs \<and> set xs = {pa. phys_page s pa} \<and>
    total_mem_bytes t = of_nat (length xs) * PGSIZE"
  using kinit_all [OF assms] .

definition boot_kmem :: kmem_state where
  "boot_kmem = cons_state.extend idle_console
     (kmem_state.fields (\<lambda>_. 0) 0x80023000 0 0)"

lemma boot_kmem_simps [simp]:
  "cpus boot_kmem = (\<lambda>_. idle_cpu)" "locks boot_kmem = (\<lambda>_. open_lock)" "tp boot_kmem = 0"
  "freelist boot_kmem = 0" "end_sym boot_kmem = 0x80023000" "mem boot_kmem = (\<lambda>_. 0)"
  by (simp_all add: boot_kmem_def cons_state.defs kmem_state.defs idle_console_def)

theorem kinit_frees_all_ram_witness:
  "\<exists>t xs. kinit boot_kmem = Ret () t \<and> kmem_avail t xs \<and> set xs = {pa. phys_page boot_kmem pa} \<and>
    total_mem_bytes t = of_nat (length xs) * PGSIZE"
  by (rule kinit_frees_all_ram)
    (simp_all add: cpu_ok_def cpu_defs idle_cpu_def PHYSTOP_def KERNBASE_def)

text \<open>
  C9: in every run of a client that frees only pages it holds, the pages it holds and the free
  list stay disjoint and together are the pages there were at the start: \<^verbatim>\<open>kalloc\<close> never
  hands out a page twice and no page is lost.
\<close>

theorem kalloc_kfree_conserve:
  assumes "kmem_avail s xs" "(client_step kalloc kfree)\<^sup>*\<^sup>* (s, {}) (t, held)"
  shows "\<exists>ys. kmem_avail t ys \<and> set ys \<inter> held = {} \<and> set ys \<union> held = set xs"
proof -
  have "kmem.split_ok (set xs) (s, {})" using assms(1) by (auto simp: kmem.split_ok_def)
  then have "kmem.split_ok (set xs) (t, held)" by (rule kmem.client_run_split [OF assms(2)])
  then show ?thesis by (auto simp: kmem.split_ok_def)
qed

definition one_page_kmem :: kmem_state where
  "one_page_kmem = boot_kmem\<lparr>freelist := 0x80100000\<rparr>"

lemma one_page_avail: "kmem_avail one_page_kmem [0x80100000]"
proof -
  have "load64 (\<lambda>_. 0) 0x80100000 = 0" by (simp add: load64_def numeral_eq_Suc)
  moreover have "page_aligned 0x80100000" by (simp add: page_aligned_unat)
  ultimately show ?thesis
    by (simp add: one_page_kmem_def kmem_avail_def kmem_ok_def phys_page_def PHYSTOP_def KERNBASE_def)
qed

theorem kalloc_kfree_conserve_witness:
  "\<exists>t. kalloc one_page_kmem = Ret 0x80100000 t \<and>
    (\<exists>ys. kmem_avail t ys \<and> set ys \<inter> {0x80100000} = {} \<and> set ys \<union> {0x80100000} = {0x80100000})"
proof -
  obtain t where t: "kalloc one_page_kmem = Ret 0x80100000 t"
    using kalloc_avail [OF one_page_avail] by auto
  then have "(client_step kalloc kfree)\<^sup>*\<^sup>* (one_page_kmem, {}) (t, {0x80100000})"
    using client_step.alloc [of kalloc one_page_kmem "0x80100000" t kfree "{}"] by auto
  then show ?thesis using t kalloc_kfree_conserve [OF one_page_avail] by fastforce
qed

text \<open>
  C12: freeing a page of RAM and allocating again returns that page, filled with the junk byte 5,
  with every byte outside it and the free list as they were.
\<close>

theorem kfree_then_kalloc:
  assumes "phys_page s pa" "0 < end_sym s" "may_lock L_kmem s"
  shows "\<exists>m. kbind (kfree pa s) (\<lambda>_ s. kalloc s) = Ret pa (settle (s\<lparr>mem := m\<rparr>)) \<and>
    (\<forall>x. m x = (if unat (x - pa) < 4096 then 5 else mem s x))"
proof -
  have "pa \<noteq> 0" using assms(1,2) by (auto simp: phys_page_def)
  then show ?thesis
    using assms(1,3)
    by (auto simp: kfree_eq kalloc_eq memset_apply PGSIZE_def store64_frame)
qed

theorem kfree_then_kalloc_witness:
  "\<exists>m. kbind (kfree 0x80100000 boot_kmem) (\<lambda>_ s. kalloc s) =
      Ret 0x80100000 (settle (boot_kmem\<lparr>mem := m\<rparr>)) \<and>
    (\<forall>x. m x = (if unat (x - 0x80100000) < 4096 then 5 else mem boot_kmem x))"
  by (rule kfree_then_kalloc)
    (simp_all add: phys_page_def page_aligned_unat PHYSTOP_def KERNBASE_def)

end
