(* ===== verification/ProcState.thy ===== *)
theory ProcState
  imports Kalloc
begin

text \<open>
  The process table and the operations on process states (\<^verbatim>\<open>kernel/proc.h\<close> and the part of
  \<^verbatim>\<open>kernel/proc.c\<close> that needs no page table or file: \<^verbatim>\<open>myproc\<close>, \<^verbatim>\<open>allocpid\<close>,
  \<^verbatim>\<open>sched\<close>, \<^verbatim>\<open>yield\<close>, \<^verbatim>\<open>sleep\<close>, \<^verbatim>\<open>wakeup\<close>, \<^verbatim>\<open>kkill\<close> and the scheduler), with
  the scheduling statistics this kernel keeps.  A process is its index in \<^verbatim>\<open>proc[]\<close>.  Control
  that moves to the scheduler in \<^verbatim>\<open>swtch\<close> is the outcome \<open>Wait OnSched\<close>; what the thread
  does when it is resumed is a definition of its own.
\<close>

section \<open>State\<close>

record proc_context =
  ctx_ra :: uint64
  ctx_sp :: uint64
  ctx_s0 :: uint64
  ctx_s1 :: uint64
  ctx_s2 :: uint64
  ctx_s3 :: uint64
  ctx_s4 :: uint64
  ctx_s5 :: uint64
  ctx_s6 :: uint64
  ctx_s7 :: uint64
  ctx_s8 :: uint64
  ctx_s9 :: uint64
  ctx_s10 :: uint64
  ctx_s11 :: uint64

datatype procstate = UNUSED | USED | SLEEPING | RUNNABLE | RUNNING | ZOMBIE

text \<open>
  The process name is the string in \<^verbatim>\<open>name[16]\<close>, the bytes before its NUL.  \<^verbatim>\<open>ofile[]\<close>
  holds indices of the open-file table and \<^verbatim>\<open>cwd\<close> one of the inode table.
\<close>

record proc =
  p_state :: procstate
  p_chan :: "chan option"
  p_killed :: int
  p_xstate :: int
  p_pid :: int
  p_nofile_cur :: int
  p_nofile_max :: int
  p_parent :: "nat option"
  p_kstack :: uint64
  p_sz :: uint64
  p_pagetable :: uint64
  p_trapframe :: uint64
  p_context :: proc_context
  p_ofile :: "nat \<Rightarrow> nat option"
  p_cwd :: "nat option"
  p_name :: "uchar list"
  p_cpu_ticks :: uint64
  p_cpu_ticks_max :: uint64
  p_start_time :: uint64
  p_sleep_ticks :: uint64
  p_wait_ticks :: uint64
  p_wait_start :: uint64
  p_sleep_start :: uint64
  p_context_switches :: int

text \<open>Addresses the linker fixes; no operation writes them.\<close>

record symbols =
  sym_trampoline :: uint64
  sym_uservec :: uint64
  sym_userret :: uint64
  sym_etext :: uint64
  sym_forkret :: uint64
  sym_usertrap :: uint64

record proc_state = kmem_state +
  procs :: "nat \<Rightarrow> proc"
  initproc :: "nat option"
  nextpid :: int
  ticks :: uint32
  syms :: symbols

definition upd_proc :: "nat \<Rightarrow> (proc \<Rightarrow> proc) \<Rightarrow> 'a proc_state_scheme \<Rightarrow> 'a proc_state_scheme" where
  "upd_proc p f s = s\<lparr>procs := (procs s)(p := f (procs s p))\<rparr>"

definition all_procs :: "nat list" where
  "all_procs = [0..<NPROC]"

abbreviation ticks64 :: "'a proc_state_scheme \<Rightarrow> uint64" where
  "ticks64 s \<equiv> ucast (ticks s)"

section \<open>Operations\<close>

definition procinit :: "'a proc_state_scheme \<Rightarrow> 'a proc_state_scheme" where
  "procinit s =
     (let s = initlock L_pid ''nextpid'' s;
          s = initlock L_wait ''wait_lock'' s
      in fold (\<lambda>p s.
           let s = initlock (L_proc p) ''proc'' s
           in upd_proc p (\<lambda>pr. pr\<lparr>p_state := UNUSED, p_kstack := KSTACK p\<rparr>) s) all_procs s)"

definition myproc :: "'a lock_state_scheme \<Rightarrow> (nat option, 'a lock_state_scheme) kres" where
  "myproc s =
     (let s = push_off s;
          c = mycpu s;
          p = cpu_proc c in
      kbind (pop_off s) (\<lambda>_ s. Ret p s))"

text \<open>\<^verbatim>\<open>myproc()\<close> in code that reads through the result at once.\<close>

definition with_myproc ::
  "(nat \<Rightarrow> 'a lock_state_scheme \<Rightarrow> ('r, 'a lock_state_scheme) kres) \<Rightarrow>
    'a lock_state_scheme \<Rightarrow> ('r, 'a lock_state_scheme) kres" where
  "with_myproc f s =
     kbind (myproc s) (\<lambda>p s. case p of None \<Rightarrow> Undef | Some p \<Rightarrow> f p s)"

definition allocpid :: "'a proc_state_scheme \<Rightarrow> (int, 'a proc_state_scheme) kres" where
  "allocpid s =
     kbind (acquire L_pid s) (\<lambda>_ s.
     let pid = nextpid s;
         s = s\<lparr>nextpid := nextpid s + 1\<rparr> in
     kbind (release L_pid s) (\<lambda>_ s.
     Ret pid s))"

text \<open>
  \<^verbatim>\<open>sched\<close> up to \<^verbatim>\<open>swtch\<close>, and what it does when the scheduler switches back:
  \<open>ie\<close> is the flag it kept on its stack.
\<close>

definition sched :: "'a proc_state_scheme \<Rightarrow> (unit, 'a proc_state_scheme) kres" where
  "sched s =
     with_myproc (\<lambda>p s.
       if \<not> holding (L_proc p) s then Panic ''sched p->lock''
       else if noff (mycpu s) \<noteq> 1 then Panic ''sched locks''
       else if p_state (procs s p) = RUNNING then Panic ''sched RUNNING''
       else if intr_get s then Panic ''sched interruptible''
       else Wait OnSched s) s"

definition sched_resume :: "bool \<Rightarrow> 'a proc_state_scheme \<Rightarrow> 'a proc_state_scheme" where
  "sched_resume ie s = upd_mycpu (intena_update (\<lambda>_. ie)) s"

definition yield :: "'a proc_state_scheme \<Rightarrow> (unit, 'a proc_state_scheme) kres" where
  "yield s =
     with_myproc (\<lambda>p s.
       kbind (acquire (L_proc p) s) (\<lambda>_ s.
       let s = upd_proc p (\<lambda>pr. pr\<lparr>p_state := RUNNABLE\<rparr>) s;
           s = upd_proc p (\<lambda>pr. pr\<lparr>p_wait_start := ticks64 s\<rparr>) s in
       sched s)) s"

definition yield_resume :: "nat \<Rightarrow> bool \<Rightarrow> 'a proc_state_scheme \<Rightarrow> (unit, 'a proc_state_scheme) kres" where
  "yield_resume p ie s = release (L_proc p) (sched_resume ie s)"

definition sleep :: "chan \<Rightarrow> lock_id \<Rightarrow> 'a proc_state_scheme \<Rightarrow> ('r, 'a proc_state_scheme) kres" where
  "sleep ch lk s =
     with_myproc (\<lambda>p s.
       kbind (acquire (L_proc p) s) (\<lambda>_ s.
       kbind (release lk s) (\<lambda>_ s.
       let s = upd_proc p (\<lambda>pr. pr\<lparr>p_chan := Some ch\<rparr>) s;
           s = upd_proc p (\<lambda>pr. pr\<lparr>p_state := SLEEPING\<rparr>) s;
           s = upd_proc p (\<lambda>pr. pr\<lparr>p_sleep_start := ticks64 s\<rparr>) s in
       kbind (sched s) (\<lambda>_ s. Undef)))) s"

definition sleep_resume ::
  "nat \<Rightarrow> lock_id \<Rightarrow> bool \<Rightarrow> 'a proc_state_scheme \<Rightarrow> (unit, 'a proc_state_scheme) kres" where
  "sleep_resume p lk ie s =
     (let s = sched_resume ie s;
          s = upd_proc p (\<lambda>pr. pr\<lparr>p_chan := None\<rparr>) s in
      kbind (release (L_proc p) s) (\<lambda>_ s.
      acquire lk s))"

definition wakeup_one :: "chan \<Rightarrow> nat \<Rightarrow> 'a proc_state_scheme \<Rightarrow> (unit, 'a proc_state_scheme) kres" where
  "wakeup_one ch p s =
     kbind (myproc s) (\<lambda>me s.
     if me \<noteq> Some p then
       kbind (acquire (L_proc p) s) (\<lambda>_ s.
       let s = (if p_state (procs s p) = SLEEPING \<and> p_chan (procs s p) = Some ch then
                  let s = upd_proc p (\<lambda>pr. pr\<lparr>p_state := RUNNABLE\<rparr>) s;
                      s = upd_proc p (\<lambda>pr. pr\<lparr>p_sleep_ticks :=
                            p_sleep_ticks pr + (ticks64 s - p_sleep_start pr)\<rparr>) s
                  in upd_proc p (\<lambda>pr. pr\<lparr>p_wait_start := ticks64 s\<rparr>) s
                else s) in
       release (L_proc p) s)
     else Ret () s)"

definition wakeup :: "chan \<Rightarrow> 'a proc_state_scheme \<Rightarrow> (unit, 'a proc_state_scheme) kres" where
  "wakeup ch s = kfor all_procs (wakeup_one ch) s"

definition kkill_one :: "int \<Rightarrow> nat \<Rightarrow> 'a proc_state_scheme \<Rightarrow> (int option, 'a proc_state_scheme) kres" where
  "kkill_one pid p s =
     kbind (acquire (L_proc p) s) (\<lambda>_ s.
     if p_pid (procs s p) = pid then
       let s = upd_proc p (\<lambda>pr. pr\<lparr>p_killed := 1\<rparr>) s;
           s = (if p_state (procs s p) = SLEEPING then
                  let s = upd_proc p (\<lambda>pr. pr\<lparr>p_state := RUNNABLE\<rparr>) s;
                      s = upd_proc p (\<lambda>pr. pr\<lparr>p_sleep_ticks :=
                            p_sleep_ticks pr + (ticks64 s - p_sleep_start pr)\<rparr>) s
                  in upd_proc p (\<lambda>pr. pr\<lparr>p_wait_start := ticks64 s\<rparr>) s
                else s) in
       kbind (release (L_proc p) s) (\<lambda>_ s. Ret (Some 0) s)
     else kbind (release (L_proc p) s) (\<lambda>_ s. Ret None s))"

definition kkill :: "int \<Rightarrow> 'a proc_state_scheme \<Rightarrow> (int, 'a proc_state_scheme) kres" where
  "kkill pid s =
     kbind (kfind all_procs (kkill_one pid) s) (\<lambda>r s.
     case r of Some v \<Rightarrow> Ret v s | None \<Rightarrow> Ret (- 1) s)"

definition setkilled :: "nat \<Rightarrow> 'a proc_state_scheme \<Rightarrow> (unit, 'a proc_state_scheme) kres" where
  "setkilled p s =
     kbind (acquire (L_proc p) s) (\<lambda>_ s.
     let s = upd_proc p (\<lambda>pr. pr\<lparr>p_killed := 1\<rparr>) s in
     release (L_proc p) s)"

definition killed :: "nat \<Rightarrow> 'a proc_state_scheme \<Rightarrow> (int, 'a proc_state_scheme) kres" where
  "killed p s =
     kbind (acquire (L_proc p) s) (\<lambda>_ s.
     let k = p_killed (procs s p) in
     kbind (release (L_proc p) s) (\<lambda>_ s.
     Ret k s))"

text \<open>
  One visit of the scheduler's inner loop to slot \<open>p\<close>, up to \<^verbatim>\<open>swtch\<close> into the process
  (\<open>True\<close>: the process now runs on this CPU), and what the scheduler does when the process
  has switched back.
\<close>

definition scheduler_visit :: "nat \<Rightarrow> 'a proc_state_scheme \<Rightarrow> (bool, 'a proc_state_scheme) kres" where
  "scheduler_visit p s =
     kbind (acquire (L_proc p) s) (\<lambda>_ s.
     if p_state (procs s p) = RUNNABLE then
       let s = upd_proc p (\<lambda>pr. pr\<lparr>p_state := RUNNING\<rparr>) s;
           s = upd_mycpu (cpu_proc_update (\<lambda>_. Some p)) s;
           s = upd_proc p (\<lambda>pr. pr\<lparr>p_context_switches := p_context_switches pr + 1\<rparr>) s;
           s = upd_proc p (\<lambda>pr. pr\<lparr>p_wait_ticks :=
                 p_wait_ticks pr + (ticks64 s - p_wait_start pr)\<rparr>) s
       in Ret True s
     else kbind (release (L_proc p) s) (\<lambda>_ s. Ret False s))"

definition scheduler_back :: "nat \<Rightarrow> 'a proc_state_scheme \<Rightarrow> (unit, 'a proc_state_scheme) kres" where
  "scheduler_back p s =
     (let s = upd_mycpu (cpu_proc_update (\<lambda>_. None)) s in
      release (L_proc p) s)"

section \<open>Reading through critical sections\<close>

lemma proc_hold [simp]:
  "procs (hold lk s) = procs s" "initproc (hold lk s) = initproc s" "nextpid (hold lk s) = nextpid s"
  "ticks (hold lk s) = ticks s" "syms (hold lk s) = syms s"
  "upd_proc p f (hold lk s) = hold lk (upd_proc p f s)"
  "nextpid_update g (hold lk s) = hold lk (nextpid_update g s)"
  "ticks_update t (hold lk s) = hold lk (ticks_update t s)"
  "procs_update u (hold lk s) = hold lk (procs_update u s)"
  by (simp_all add: lock_defs upd_proc_def)

lemma proc_settle [simp]:
  "procs (settle s) = procs s" "initproc (settle s) = initproc s" "nextpid (settle s) = nextpid s"
  "ticks (settle s) = ticks s" "syms (settle s) = syms s"
  "upd_proc p f (settle s) = settle (upd_proc p f s)"
  "nextpid_update g (settle s) = settle (nextpid_update g s)"
  "ticks_update t (settle s) = settle (ticks_update t s)"
  "procs_update u (settle s) = settle (procs_update u s)"
  by (simp_all add: lock_defs upd_proc_def)

lemma proc_frame [simp]:
  "may_lock lk (upd_proc p f s) = may_lock lk s" "may_lock lk (nextpid_update g s) = may_lock lk s"
  "may_lock lk (ticks_update t s) = may_lock lk s" "may_lock lk (procs_update u s) = may_lock lk s"
  "free_but A (upd_proc p f s) = free_but A s" "free_but A (nextpid_update g s) = free_but A s"
  "free_but A (ticks_update t s) = free_but A s" "free_but A (procs_update u s) = free_but A s"
  "cpu_ok (upd_proc p f s) = cpu_ok s" "cpu_ok (procs_update u s) = cpu_ok s"
  "mycpu (upd_proc p f s) = mycpu s" "mycpu (procs_update u s) = mycpu s"
  "mycpu (nextpid_update g s) = mycpu s" "mycpu (ticks_update t s) = mycpu s"
  by (simp_all add: may_lock_def lock_free_def cpu_ok_def free_but_def cpu_defs upd_proc_def)

lemma proc_upd [simp]:
  "procs (upd_proc p f s) = (procs s)(p := f (procs s p))" "ticks (upd_proc p f s) = ticks s"
  "nextpid (upd_proc p f s) = nextpid s" "initproc (upd_proc p f s) = initproc s"
  "syms (upd_proc p f s) = syms s" "mem (upd_proc p f s) = mem s"
  "freelist (upd_proc p f s) = freelist s" "end_sym (upd_proc p f s) = end_sym s"
  "total_mem_bytes (upd_proc p f s) = total_mem_bytes s" "uart_out (upd_proc p f s) = uart_out s"
  "upd_proc p f (upd_proc p g s) = upd_proc p (\<lambda>pr. f (g pr)) s"
  "locks (upd_proc p f s) = locks s" "cpus (upd_proc p f s) = cpus s" "tp (upd_proc p f s) = tp s"
  by (simp_all add: upd_proc_def)

lemma kmem_upd_proc [simp]:
  "kmem_ok (upd_proc p f s) = kmem_ok s" "kmem_avail (upd_proc p f s) = kmem_avail s"
  "phys_page (upd_proc p f s) = phys_page s"
  by (simp_all add: fun_eq_iff kmem_ok_def kmem_avail_def phys_page_def)

text \<open>The process running on this CPU.\<close>

abbreviation current :: "'a lock_state_scheme \<Rightarrow> nat option" where
  "current s \<equiv> cpu_proc (mycpu s)"

lemma myproc_eq: "cpu_ok s \<Longrightarrow> myproc s = Ret (current s) (settle s)"
  by (simp add: myproc_def Let_def pop_push_off mycpu_push_off)

lemma myproc_may: "may_lock lk s \<Longrightarrow> myproc s = Ret (current s) (settle s)"
  by (simp add: may_lock_def myproc_eq)

lemma with_myproc_eq: "cpu_ok s \<Longrightarrow> current s = Some p \<Longrightarrow> with_myproc f s = f p (settle s)"
  by (simp add: with_myproc_def myproc_eq)

section \<open>wakeup, kill, sleep\<close>

text \<open>What a wakeup on \<open>ch\<close> at time \<open>t\<close> makes of a process.\<close>

definition woken :: "uint64 \<Rightarrow> proc \<Rightarrow> proc" where
  "woken t pr = pr\<lparr>p_state := RUNNABLE, p_sleep_ticks := p_sleep_ticks pr + (t - p_sleep_start pr),
     p_wait_start := t\<rparr>"

definition sleeps_on :: "chan \<Rightarrow> proc \<Rightarrow> bool" where
  "sleeps_on ch pr \<longleftrightarrow> p_state pr = SLEEPING \<and> p_chan pr = Some ch"

lemma wakeup_one_eq:
  assumes "cpu_ok s" "current s \<noteq> Some p \<Longrightarrow> may_lock (L_proc p) s"
  shows "wakeup_one ch p s = Ret () (settle
    (if current s \<noteq> Some p \<and> sleeps_on ch (procs s p) then upd_proc p (woken (ticks64 s)) s else s))"
proof (cases "current s = Some p")
  case True
  then show ?thesis using assms by (simp add: wakeup_one_def myproc_eq)
next
  case False
  moreover have "upd_proc p (woken (ticks64 s)) s =
      upd_proc p (\<lambda>pr. pr\<lparr>p_state := RUNNABLE, p_sleep_ticks := p_sleep_ticks pr + (ticks64 s - p_sleep_start pr),
        p_wait_start := ticks64 s\<rparr>) s" by (simp add: woken_def upd_proc_def)
  ultimately show ?thesis
    using assms by (simp add: wakeup_one_def myproc_eq Let_def sleeps_on_def)
qed

definition wake_set :: "chan \<Rightarrow> nat set \<Rightarrow> 'a proc_state_scheme \<Rightarrow> 'a proc_state_scheme" where
  "wake_set ch A s = s\<lparr>procs := \<lambda>p.
     if p \<in> A \<and> current s \<noteq> Some p \<and> sleeps_on ch (procs s p) then woken (ticks64 s) (procs s p)
     else procs s p\<rparr>"

lemma wake_set_frame [simp]:
  "cpu_ok (wake_set ch A s) = cpu_ok s" "may_lock lk (wake_set ch A s) = may_lock lk s"
  "free_but B (wake_set ch A s) = free_but B s" "mycpu (wake_set ch A s) = mycpu s"
  "ticks (wake_set ch A s) = ticks s" "wake_set ch A (settle s) = settle (wake_set ch A s)"
  "wake_set ch A (hold lk s) = hold lk (wake_set ch A s)"
  by (simp_all add: wake_set_def cong: if_cong)

lemma wake_set_insert:
  assumes "p \<notin> A"
  shows "wake_set ch A (if current s \<noteq> Some p \<and> sleeps_on ch (procs s p)
      then upd_proc p (woken (ticks64 s)) s else s) = wake_set ch (insert p A) s"
  using assms by (auto simp: wake_set_def upd_proc_def fun_eq_iff mycpu_def cpuid_def
      intro!: proc_state.equality)

lemma wakeup_loop:
  assumes "cpu_ok s" "\<And>p. p \<in> set ps \<Longrightarrow> current s \<noteq> Some p \<Longrightarrow> may_lock (L_proc p) s" "distinct ps"
  shows "kfor ps (wakeup_one ch) s =
    Ret () (if ps = [] then s else settle (wake_set ch (set ps) s))"
  using assms
proof (induction ps arbitrary: s)
  case (Cons p ps)
  let ?t = "if current s \<noteq> Some p \<and> sleeps_on ch (procs s p)
    then upd_proc p (woken (ticks64 s)) s else s"
  have t: "cpu_ok ?t" "current ?t = current s" "\<And>q. may_lock (L_proc q) ?t = may_lock (L_proc q) s"
    using Cons.prems(1) by simp_all
  have "kfor ps (wakeup_one ch) (settle ?t) =
      Ret () (if ps = [] then settle ?t else settle (wake_set ch (set ps) (settle ?t)))"
    by (rule Cons.IH) (use Cons.prems t in simp_all)
  moreover have "wake_set ch (set ps) ?t = wake_set ch (set (p # ps)) s"
    using Cons.prems(3) wake_set_insert [of p "set ps" ch s] by simp
  moreover have "wake_set ch {} ?t = ?t" by (simp add: wake_set_def)
  ultimately show ?case
    using Cons.prems wakeup_one_eq [of s p ch] by (cases "ps = []") simp_all
qed simp

lemma wakeup_eq:
  assumes "cpu_ok s" "\<And>p. p < NPROC \<Longrightarrow> current s \<noteq> Some p \<Longrightarrow> may_lock (L_proc p) s"
  shows "wakeup ch s = Ret () (settle (wake_set ch {..<NPROC} s))"
proof -
  have "set all_procs = {..<NPROC}" "all_procs \<noteq> []" "distinct all_procs"
    by (auto simp: all_procs_def NPROC_def)
  then show ?thesis using assms wakeup_loop [of s all_procs ch] by (simp add: wakeup_def)
qed

definition kill_mark :: "uint64 \<Rightarrow> proc \<Rightarrow> proc" where
  "kill_mark t pr =
     (if p_state pr = SLEEPING then woken t (pr\<lparr>p_killed := 1\<rparr>) else pr\<lparr>p_killed := 1\<rparr>)"

lemma kkill_one_eq:
  assumes "may_lock (L_proc p) s"
  shows "kkill_one pid p s =
    (if p_pid (procs s p) = pid then Ret (Some 0) (settle (upd_proc p (kill_mark (ticks64 s)) s))
     else Ret None (settle s))"
  using assms by (auto simp: kkill_one_def Let_def kill_mark_def woken_def upd_proc_def)

lemma kkill_loop:
  assumes "cpu_ok s" "\<And>p. p \<in> set ps \<Longrightarrow> may_lock (L_proc p) s"
  shows "kfind ps (kkill_one pid) s =
    (case find (\<lambda>p. p_pid (procs s p) = pid) ps of
       None \<Rightarrow> Ret None (if ps = [] then s else settle s)
     | Some p \<Rightarrow> Ret (Some 0) (settle (upd_proc p (kill_mark (ticks64 s)) s)))"
  using assms
proof (induction ps arbitrary: s)
  case (Cons p ps)
  then show ?case
    using Cons.IH [of "settle s"] by (auto simp: kkill_one_eq split: option.splits)
qed simp

lemma kkill_eq:
  assumes "cpu_ok s" "\<And>p. p < NPROC \<Longrightarrow> may_lock (L_proc p) s"
  shows "kkill pid s =
    (case find (\<lambda>p. p_pid (procs s p) = pid) all_procs of
       None \<Rightarrow> Ret (- 1) (settle s)
     | Some p \<Rightarrow> Ret 0 (settle (upd_proc p (kill_mark (ticks64 s)) s)))"
proof -
  have "set all_procs = {..<NPROC}" "all_procs \<noteq> []" by (auto simp: all_procs_def NPROC_def)
  then show ?thesis
    using assms kkill_loop [of s all_procs pid] by (simp add: kkill_def split: option.splits)
qed

lemma killed_eq: "may_lock (L_proc p) s \<Longrightarrow> killed p s = Ret (p_killed (procs s p)) (settle s)"
  by (simp add: killed_def)

lemma setkilled_eq:
  "may_lock (L_proc p) s \<Longrightarrow>
    setkilled p s = Ret () (settle (upd_proc p (\<lambda>pr. pr\<lparr>p_killed := 1\<rparr>) s))"
  by (simp add: setkilled_def)

lemma sched_hold:
  assumes "cpu_ok s" "noff (mycpu s) = 0" "current s = Some p" "p_state (procs s p) \<noteq> RUNNING"
  shows "sched (hold (L_proc p) s) = Wait OnSched (hold (L_proc p) s)"
  using assms by (simp add: sched_def with_myproc_eq)

definition asleep :: "chan \<Rightarrow> uint64 \<Rightarrow> proc \<Rightarrow> proc" where
  "asleep ch t pr = pr\<lparr>p_chan := Some ch, p_state := SLEEPING, p_sleep_start := t\<rparr>"

lemma sleep_eq:
  assumes "noff (mycpu s) = 0" "current s = Some p" "may_lock lk s" "may_lock (L_proc p) s"
    "lk \<noteq> L_proc p"
  shows "sleep ch lk (hold lk s) = Wait OnSched (hold (L_proc p) (upd_proc p (asleep ch (ticks64 s)) s))"
proof -
  have ok: "cpu_ok s" using assms(3) by (simp add: may_lock_def)
  have "upd_proc p (\<lambda>pr. pr\<lparr>p_chan := Some ch, p_state := SLEEPING, p_sleep_start := ticks64 s\<rparr>) s =
      upd_proc p (asleep ch (ticks64 s)) s" by (simp add: asleep_def upd_proc_def)
  moreover have "sched (hold (L_proc p) (upd_proc p (asleep ch (ticks64 s)) s)) =
      Wait OnSched (hold (L_proc p) (upd_proc p (asleep ch (ticks64 s)) s))"
    using assms ok by (intro sched_hold) (simp_all add: asleep_def)
  ultimately show ?thesis
    using assms ok by (simp add: sleep_def with_myproc_eq Let_def)
qed

lemma yield_eq:
  assumes "noff (mycpu s) = 0" "current s = Some p" "may_lock (L_proc p) s"
  shows "yield s = Wait OnSched (hold (L_proc p)
    (upd_proc p (\<lambda>pr. pr\<lparr>p_state := RUNNABLE, p_wait_start := ticks64 s\<rparr>) s))"
proof -
  have ok: "cpu_ok s" using assms(3) by (simp add: may_lock_def)
  let ?t = "upd_proc p (\<lambda>pr. pr\<lparr>p_state := RUNNABLE, p_wait_start := ticks64 s\<rparr>) s"
  have "sched (hold (L_proc p) ?t) = Wait OnSched (hold (L_proc p) ?t)"
    using assms ok by (intro sched_hold) simp_all
  then show ?thesis using assms ok by (simp add: yield_def with_myproc_eq Let_def)
qed

lemma allocpid_eq:
  "may_lock L_pid s \<Longrightarrow> allocpid s = Ret (nextpid s) (settle (s\<lparr>nextpid := nextpid s + 1\<rparr>))"
  by (simp add: allocpid_def)

section \<open>A process table at boot\<close>

definition blank_context :: proc_context where
  "blank_context = \<lparr>ctx_ra = 0, ctx_sp = 0, ctx_s0 = 0, ctx_s1 = 0, ctx_s2 = 0, ctx_s3 = 0, ctx_s4 = 0,
     ctx_s5 = 0, ctx_s6 = 0, ctx_s7 = 0, ctx_s8 = 0, ctx_s9 = 0, ctx_s10 = 0, ctx_s11 = 0\<rparr>"

definition blank_proc :: proc where
  "blank_proc = \<lparr>p_state = UNUSED, p_chan = None, p_killed = 0, p_xstate = 0, p_pid = 0,
     p_nofile_cur = 0, p_nofile_max = 0, p_parent = None, p_kstack = 0, p_sz = 0, p_pagetable = 0,
     p_trapframe = 0, p_context = blank_context, p_ofile = (\<lambda>_. None), p_cwd = None, p_name = [],
     p_cpu_ticks = 0, p_cpu_ticks_max = 0, p_start_time = 0, p_sleep_ticks = 0, p_wait_ticks = 0,
     p_wait_start = 0, p_sleep_start = 0, p_context_switches = 0\<rparr>"

definition boot_symbols :: symbols where
  "boot_symbols = \<lparr>sym_trampoline = 0x80007000, sym_uservec = 0x80007000, sym_userret = 0x8000709c,
     sym_etext = 0x80008000, sym_forkret = 0x80001a00, sym_usertrap = 0x80002500\<rparr>"

definition boot_procs :: proc_state where
  "boot_procs = kmem_state.extend (kmem_state.truncate boot_kmem)
     (proc_state.fields (\<lambda>_. blank_proc) None 1 0 boot_symbols)"

lemma boot_procs_simps [simp]:
  "cpus boot_procs = (\<lambda>_. idle_cpu)" "locks boot_procs = (\<lambda>_. open_lock)" "tp boot_procs = 0"
  "procs boot_procs = (\<lambda>_. blank_proc)" "ticks boot_procs = 0" "nextpid boot_procs = 1"
  "freelist boot_procs = 0" "end_sym boot_procs = 0x80023000" "mem boot_procs = (\<lambda>_. 0)"
  by (simp_all add: boot_procs_def boot_kmem_def kmem_state.defs proc_state.defs cons_state.defs
      idle_console_def)

section \<open>Properties\<close>

text \<open>
  C7: \<^verbatim>\<open>wakeup\<close> returns with every process of the table that slept on the channel runnable, its
  sleep accounted for, and every other process, including the caller, exactly as it was.
\<close>

theorem wakeup_wakes_sleepers:
  assumes "cpu_ok s" "\<forall>p < NPROC. current s \<noteq> Some p \<longrightarrow> may_lock (L_proc p) s"
  shows "\<exists>t. wakeup ch s = Ret () t \<and> locks t = locks s \<and>
    (\<forall>p. procs t p =
       (if p < NPROC \<and> current s \<noteq> Some p \<and> p_state (procs s p) = SLEEPING \<and> p_chan (procs s p) = Some ch
        then (procs s p)\<lparr>p_state := RUNNABLE,
               p_sleep_ticks := p_sleep_ticks (procs s p) + (ticks64 s - p_sleep_start (procs s p)),
               p_wait_start := ticks64 s\<rparr>
        else procs s p))"
  using assms wakeup_eq [of s ch] by (auto simp: wake_set_def sleeps_on_def woken_def)

definition one_sleeper :: proc_state where
  "one_sleeper = upd_proc 3 (\<lambda>pr. pr\<lparr>p_state := SLEEPING, p_chan := Some Chan_ticks, p_pid := 7\<rparr>) boot_procs"

lemma one_sleeper_locks: "cpu_ok one_sleeper" "may_lock lk one_sleeper"
  by (simp_all add: one_sleeper_def may_lock_def lock_free_def cpu_ok_def cpu_defs idle_cpu_def open_lock_def)

theorem wakeup_wakes_sleepers_witness:
  "\<exists>t. wakeup Chan_ticks one_sleeper = Ret () t \<and> p_state (procs t 3) = RUNNABLE \<and> p_state (procs t 2) = UNUSED"
proof -
  have "current one_sleeper = None" by (simp add: one_sleeper_def cpu_defs idle_cpu_def)
  then show ?thesis
    using wakeup_wakes_sleepers [of one_sleeper Chan_ticks] one_sleeper_locks
    by (auto simp: one_sleeper_def upd_proc_def NPROC_def blank_proc_def)
qed

text \<open>
  C8: \<^verbatim>\<open>kkill\<close> marks the first process of the table that has the pid, and makes it runnable if it was
  asleep so that it reaches the check in \<^verbatim>\<open>usertrap\<close>; if no process has the pid it returns -1 and
  changes no process.
\<close>

theorem kkill_marks_or_fails:
  assumes "cpu_ok s" "\<forall>p < NPROC. may_lock (L_proc p) s"
  shows "\<exists>r t. kkill pid s = Ret r t \<and> locks t = locks s \<and>
    (r = 0 \<and> (\<exists>p < NPROC. p_pid (procs s p) = pid \<and> (\<forall>q < p. p_pid (procs s q) \<noteq> pid) \<and>
        p_killed (procs t p) = 1 \<and> p_state (procs t p) =
          (if p_state (procs s p) = SLEEPING then RUNNABLE else p_state (procs s p)) \<and>
        (\<forall>q. q \<noteq> p \<longrightarrow> procs t q = procs s q)) \<or>
     r = - 1 \<and> (\<forall>p < NPROC. p_pid (procs s p) \<noteq> pid) \<and> procs t = procs s)"
proof (cases "find (\<lambda>p. p_pid (procs s p) = pid) all_procs")
  case None
  then have "\<forall>p < NPROC. p_pid (procs s p) \<noteq> pid" by (auto simp: find_None_iff all_procs_def)
  then show ?thesis using None assms kkill_eq [of s pid] by auto
next
  case (Some p)
  then obtain i where "i < length all_procs" "p_pid (procs s (all_procs ! i)) = pid" "p = all_procs ! i"
      "\<forall>j < i. p_pid (procs s (all_procs ! j)) \<noteq> pid" by (auto simp: find_Some_iff)
  then have p: "p < NPROC" "p_pid (procs s p) = pid" "\<forall>q < p. p_pid (procs s q) \<noteq> pid"
    by (simp_all add: all_procs_def)
  then show ?thesis
    using Some assms kkill_eq [of s pid] by (fastforce simp: upd_proc_def kill_mark_def woken_def)
qed

theorem kkill_marks_or_fails_witness:
  "\<exists>t. kkill 7 one_sleeper = Ret 0 t \<and> p_killed (procs t 3) = 1 \<and> p_state (procs t 3) = RUNNABLE"
proof -
  obtain r t where t: "kkill 7 one_sleeper = Ret r t"
      "(r = 0 \<and> (\<exists>p < NPROC. p_pid (procs one_sleeper p) = 7 \<and> (\<forall>q < p. p_pid (procs one_sleeper q) \<noteq> 7) \<and>
        p_killed (procs t p) = 1 \<and> p_state (procs t p) =
          (if p_state (procs one_sleeper p) = SLEEPING then RUNNABLE else p_state (procs one_sleeper p)) \<and>
        (\<forall>q. q \<noteq> p \<longrightarrow> procs t q = procs one_sleeper q)) \<or>
      r = - 1 \<and> (\<forall>p < NPROC. p_pid (procs one_sleeper p) \<noteq> 7) \<and> procs t = procs one_sleeper)"
    using kkill_marks_or_fails [of one_sleeper 7] one_sleeper_locks by blast
  have pid: "p_pid (procs one_sleeper p) = (if p = 3 then 7 else 0)" for p
    by (simp add: one_sleeper_def upd_proc_def blank_proc_def)
  then show ?thesis using t by (auto simp: one_sleeper_def upd_proc_def NPROC_def split: if_splits)
qed

end
