(* ===== verification/Scheduling.thy ===== *)
theory Scheduling
  imports ProcState
begin

text \<open>
  CPUs running the scheduler side by side (\<^verbatim>\<open>scheduler\<close>, \<^verbatim>\<open>sched\<close>, \<^verbatim>\<open>yield\<close>,
  \<^verbatim>\<open>sleep\<close>, \<^verbatim>\<open>wakeup\<close>, \<^verbatim>\<open>kkill\<close> of \<^verbatim>\<open>kernel/proc.c\<close>): the process lock is
  passed across \<^verbatim>\<open>swtch\<close> from the scheduler to the process and back, and a process runs on
  one CPU at a time.
\<close>

section \<open>The machine\<close>

text \<open>
  Where a CPU is: in the scheduler loop; past \<^verbatim>\<open>swtch\<close> into process \<open>p\<close>, whose lock it
  still holds; running \<open>p\<close>; or past the \<^verbatim>\<open>swtch\<close> out of \<open>p\<close>, again with the lock held.
\<close>

datatype phase = Idle | Entering nat | Running nat | Switching nat

type_synonym 'a machine = "'a proc_state_scheme \<times> (nat \<Rightarrow> phase)"

inductive sched_step :: "'a machine \<Rightarrow> 'a machine \<Rightarrow> bool" where
  skip: "ph h = Idle \<Longrightarrow> scheduler_visit p (on_hart h s) = Ret False t \<Longrightarrow>
    sched_step (s, ph) (t, ph)"
| pick: "ph h = Idle \<Longrightarrow> scheduler_visit p (on_hart h s) = Ret True t \<Longrightarrow>
    sched_step (s, ph) (t, ph(h := Entering p))"
| enter: "ph h = Entering p \<Longrightarrow> yield_resume p ie (on_hart h s) = Ret () t \<Longrightarrow>
    sched_step (s, ph) (t, ph(h := Running p))"
| yields: "ph h = Running p \<Longrightarrow> yield (on_hart h s) = Wait OnSched t \<Longrightarrow>
    sched_step (s, ph) (t, ph(h := Switching p))"
| sleeps: "ph h = Running p \<Longrightarrow> (\<forall>q. lk \<noteq> L_proc q) \<Longrightarrow> may_lock lk (on_hart h s) \<Longrightarrow>
    kbind (acquire lk (on_hart h s)) (\<lambda>_ s. sleep ch lk s) = (Wait OnSched t :: (unit, _) kres) \<Longrightarrow>
    sched_step (s, ph) (t, ph(h := Switching p))"
| wakes: "ph h = Running p \<Longrightarrow> wakeup_one ch q (on_hart h s) = Ret () t \<Longrightarrow>
    sched_step (s, ph) (t, ph)"
| kills: "ph h = Running p \<Longrightarrow> kkill_one pid q (on_hart h s) = Ret r t \<Longrightarrow>
    sched_step (s, ph) (t, ph)"
| returns: "ph h = Switching p \<Longrightarrow> scheduler_back p (on_hart h s) = Ret () t \<Longrightarrow>
    sched_step (s, ph) (t, ph(h := Idle))"

definition sched_init :: "'a machine \<Rightarrow> bool" where
  "sched_init = (\<lambda>(s, ph).
     (\<forall>h. ph h = Idle \<and> noff (cpus s h) = 0 \<and> cpu_proc (cpus s h) = None) \<and>
     (\<forall>p. p_state (procs s p) \<noteq> RUNNING \<and> lock_free (L_proc p) s))"

inductive sched_reach :: "'a machine \<Rightarrow> bool" where
  init: "sched_init x \<Longrightarrow> sched_reach x"
| step: "sched_reach x \<Longrightarrow> sched_step x y \<Longrightarrow> sched_reach y"

section \<open>The invariant\<close>

definition lock_open :: "spinlock \<Rightarrow> bool" where
  "lock_open l \<longleftrightarrow> locked l = 0 \<and> lk_cpu l = None"

definition lock_by :: "nat \<Rightarrow> spinlock \<Rightarrow> bool" where
  "lock_by h l \<longleftrightarrow> locked l \<noteq> 0 \<and> lk_cpu l = Some h"

text \<open>\<open>own p\<close> is the CPU that process \<open>p\<close> is on, if any.\<close>

definition hart_ok :: "(nat \<Rightarrow> nat option) \<Rightarrow> nat \<Rightarrow> cpu \<Rightarrow> phase \<Rightarrow> bool" where
  "hart_ok own h c f =
     (case f of
        Idle \<Rightarrow> noff c = 0 \<and> cpu_proc c = None \<and> (\<forall>q. own q \<noteq> Some h)
      | Entering p \<Rightarrow> noff c = 1 \<and> \<not> sie c \<and> cpu_proc c = Some p \<and> (\<forall>q. own q = Some h \<longleftrightarrow> q = p)
      | Running p \<Rightarrow> noff c = 0 \<and> cpu_proc c = Some p \<and> (\<forall>q. own q = Some h \<longleftrightarrow> q = p)
      | Switching p \<Rightarrow> noff c = 1 \<and> \<not> sie c \<and> cpu_proc c = Some p \<and> (\<forall>q. own q = Some h \<longleftrightarrow> q = p))"

definition proc_ok :: "nat option \<Rightarrow> (nat \<Rightarrow> phase) \<Rightarrow> bool \<Rightarrow> spinlock \<Rightarrow> bool" where
  "proc_ok ow ph running l =
     (case ow of
        None \<Rightarrow> \<not> running \<and> lock_open l
      | Some h \<Rightarrow>
          (case ph h of
             Idle \<Rightarrow> False
           | Entering _ \<Rightarrow> running \<and> lock_by h l
           | Running _ \<Rightarrow> running \<and> lock_open l
           | Switching _ \<Rightarrow> \<not> running \<and> lock_by h l))"

abbreviation runs :: "'a proc_state_scheme \<Rightarrow> nat \<Rightarrow> bool" where
  "runs s p \<equiv> p_state (procs s p) = RUNNING"

definition own_inv :: "(nat \<Rightarrow> nat option) \<Rightarrow> 'a machine \<Rightarrow> bool" where
  "own_inv own = (\<lambda>(s, ph).
     (\<forall>h. hart_ok own h (cpus s h) (ph h)) \<and>
     (\<forall>p. proc_ok (own p) ph (runs s p) (locks s (L_proc p))))"

lemma own_invD:
  assumes "own_inv own (s, ph)"
  shows "hart_ok own h (cpus s h) (ph h)" "proc_ok (own p) ph (runs s p) (locks s (L_proc p))"
  using assms by (simp_all add: own_inv_def)

definition sched_inv :: "'a machine \<Rightarrow> bool" where
  "sched_inv x \<longleftrightarrow> (\<exists>own. own_inv own x)"

lemma sched_init_inv: "sched_init x \<Longrightarrow> sched_inv x"
  by (auto simp: sched_init_def sched_inv_def own_inv_def hart_ok_def proc_ok_def lock_open_def
      lock_free_def intro!: exI [of _ "\<lambda>_. None"])

text \<open>
  A step need be checked only where it changes something: a step that keeps every phase, and one
  of CPU \<open>h\<close> on process \<open>p\<close>.
\<close>

definition same_run :: "'a proc_state_scheme \<Rightarrow> 'a proc_state_scheme \<Rightarrow> nat \<Rightarrow> bool" where
  "same_run s t q \<longleftrightarrow> runs t q = runs s q \<and> locks t (L_proc q) = locks s (L_proc q)"

lemma own_inv_stay:
  assumes inv: "own_inv own (s, ph)"
    and "\<And>k. noff (cpus t k) = noff (cpus s k) \<and> sie (cpus t k) = sie (cpus s k) \<and>
      cpu_proc (cpus t k) = cpu_proc (cpus s k)"
    and "\<And>q. same_run s t q"
  shows "own_inv own (t, ph)"
proof -
  have "hart_ok own k (cpus t k) (ph k)" for k
    using own_invD(1) [OF inv, of k] assms(2) [of k]
    by (cases "ph k") (simp_all add: hart_ok_def)
  moreover have "proc_ok (own q) ph (runs t q) (locks t (L_proc q))" for q
    using own_invD(2) [OF inv, of q] assms(3) [of q] by (simp add: same_run_def)
  ultimately show ?thesis by (simp add: own_inv_def)
qed

lemma own_inv_move:
  assumes inv: "own_inv own (s, ph)"
    and frame: "\<And>k. k \<noteq> h \<Longrightarrow> cpus t k = cpus s k" "\<And>q. q \<noteq> p \<Longrightarrow> same_run s t q"
    and own: "ow = None \<or> ow = Some h" "own p = None \<or> own p = Some h"
      "\<And>q. q \<noteq> p \<Longrightarrow> own q \<noteq> Some h"
    and here: "hart_ok (own(p := ow)) h (cpus t h) f"
      "proc_ok ow (ph(h := f)) (runs t p) (locks t (L_proc p))"
  shows "own_inv (own(p := ow)) (t, ph(h := f))"
proof -
  have "hart_ok (own(p := ow)) k (cpus t k) ((ph(h := f)) k)" for k
  proof (cases "k = h")
    case False
    then have "((own(p := ow)) q = Some k) = (own q = Some k)" for q using own by auto
    then show ?thesis
      using False frame(1) [of k] own_invD(1) [OF inv, of k]
      by (cases "ph k") (simp_all add: hart_ok_def fun_upd_other del: fun_upd_apply)
  qed (use here in simp)
  moreover have "proc_ok ((own(p := ow)) q) (ph(h := f)) (runs t q) (locks t (L_proc q))" for q
  proof (cases "q = p")
    case False
    then have "proc_ok (own q) ph (runs t q) (locks t (L_proc q))" "own q \<noteq> Some h"
      using own_invD(2) [OF inv, of q] own frame(2) [of q] by (simp_all add: same_run_def)
    then show ?thesis using False by (auto simp: proc_ok_def split: option.splits)
  qed (use here in simp)
  ultimately show ?thesis by (simp add: own_inv_def)
qed

text \<open>The operations inside a critical section, seen CPU by CPU.\<close>

lemma on_hart_simps [simp]:
  "cpus (on_hart h s) = cpus s" "locks (on_hart h s) = locks s" "tp (on_hart h s) = h"
  "procs (on_hart h s) = procs s" "mycpu (on_hart h s) = cpus s h"
  by (simp_all add: on_hart_def cpu_defs)

lemma cpus_hold:
  "k \<noteq> tp s \<Longrightarrow> cpus (hold lk s) k = cpus s k"
  "noff (cpus (hold lk s) (tp s)) = noff (cpus s (tp s)) + 1" "\<not> sie (cpus (hold lk s) (tp s))"
  "cpu_proc (cpus (hold lk s) (tp s)) = cpu_proc (cpus s (tp s))"
  by (simp_all add: lock_defs)

lemma locks_hold:
  "locks (hold lk s) = (locks s)(lk := (locks s lk)\<lparr>locked := 1, lk_cpu := Some (tp s)\<rparr>)"
  by (simp add: lock_defs)

lemma cpus_settle:
  "noff (cpus (settle s) k) = noff (cpus s k)" "sie (cpus (settle s) k) = sie (cpus s k)"
  "cpu_proc (cpus (settle s) k) = cpu_proc (cpus s k)"
  by (simp_all add: lock_defs)

lemma release_RetD:
  assumes "release lk s = Ret () t"
  shows "locks t = (locks s)(lk := (locks s lk)\<lparr>locked := 0, lk_cpu := None\<rparr>)"
    and "k \<noteq> tp s \<Longrightarrow> cpus t k = cpus s k"
    and "noff (cpus t (tp s)) = noff (cpus s (tp s)) - 1"
    and "cpu_proc (cpus t (tp s)) = cpu_proc (cpus s (tp s))"
    and "lock_state.more t = lock_state.more s"
  using assms by (auto simp: release_def pop_off_def lock_defs split: if_splits)

lemma procs_more: "lock_state.more t = lock_state.more s \<Longrightarrow> procs t = procs s"
  by (cases s, cases t) simp

lemma acquire_settle [simp]: "acquire lk (settle s) = acquire lk s"
  by (simp add: acquire_def lock_defs)

lemma acquire_wait:
  "locked (locks s lk) \<noteq> 0 \<Longrightarrow> lk_cpu (locks s lk) \<noteq> Some (tp s) \<Longrightarrow>
    \<exists>u. acquire lk s = Wait (OnLock lk) u"
  by (simp add: acquire_def lock_defs)

text \<open>In an invariant state a CPU that holds no lock finds each process lock free or must wait.\<close>

definition off_switch :: "nat option \<Rightarrow> (nat \<Rightarrow> phase) \<Rightarrow> bool" where
  "off_switch ow ph \<longleftrightarrow> (\<forall>k. ow = Some k \<longrightarrow> (\<exists>q. ph k = Running q))"

lemma acquire_or_wait:
  assumes inv: "own_inv own (s, ph)" and z: "noff (cpus s h) = 0"
  shows "may_lock (L_proc p) (on_hart h s) \<and> off_switch (own p) ph \<or>
    (\<exists>u. acquire (L_proc p) (on_hart h s) = Wait (OnLock (L_proc p)) u)"
proof (cases "locked (locks s (L_proc p)) = 0")
  case True
  then show ?thesis
    using own_invD(2) [OF inv, of p] z
    by (auto simp: proc_ok_def lock_open_def lock_by_def may_lock_def lock_free_def cpu_ok_def
        off_switch_def split: option.splits phase.splits)
next
  case False
  then obtain k where k: "own p = Some k" "lk_cpu (locks s (L_proc p)) = Some k"
      "(\<exists>q. ph k = Entering q) \<or> (\<exists>q. ph k = Switching q)"
    using own_invD(2) [OF inv, of p]
    by (auto simp: proc_ok_def lock_open_def lock_by_def split: option.splits phase.splits)
  then have "noff (cpus s k) = 1" using own_invD(1) [OF inv, of k] by (auto simp: hart_ok_def)
  then have "k \<noteq> h" using z by auto
  then show ?thesis using False k by (intro disjI2 acquire_wait) simp_all
qed

section \<open>Every step keeps the invariant\<close>

lemma visit_cases:
  assumes inv: "own_inv own (s, ph)" and idle: "ph h = Idle"
    and r: "scheduler_visit p (on_hart h s) = Ret b t"
  obtains "b" "own p = None" "p_state (procs s p) = RUNNABLE"
      "runs t p" "\<And>q. q \<noteq> p \<Longrightarrow> procs t q = procs s q" "locks t = locks (hold (L_proc p) (on_hart h s))"
      "\<And>k. k \<noteq> h \<Longrightarrow> cpus t k = cpus s k" "noff (cpus t h) = 1" "\<not> sie (cpus t h)"
      "cpu_proc (cpus t h) = Some p"
    | "\<not> b" "t = settle (on_hart h s)"
proof -
  have z: "noff (cpus s h) = 0" using own_invD(1) [OF inv, of h] idle by (simp add: hart_ok_def)
  then have may: "may_lock (L_proc p) (on_hart h s)" "off_switch (own p) ph"
    using acquire_or_wait [OF inv z, of p] r by (auto simp: scheduler_visit_def)
  show thesis
  proof (cases "p_state (procs s p) = RUNNABLE")
    case True
    have o: "own p = None"
      using own_invD(2) [OF inv, of p] may(2) True
      by (auto simp: proc_ok_def off_switch_def split: option.splits)
    from may True r have b: b
      and t: "t = upd_proc p (\<lambda>pr. pr\<lparr>p_wait_ticks := p_wait_ticks pr + (ticks64 s - p_wait_start pr)\<rparr>)
        (upd_proc p (\<lambda>pr. pr\<lparr>p_context_switches := p_context_switches pr + 1\<rparr>)
        (upd_mycpu (cpu_proc_update (\<lambda>_. Some p))
        (hold (L_proc p) (upd_proc p (\<lambda>pr. pr\<lparr>p_state := RUNNING\<rparr>) (on_hart h s)))))"
      by (auto simp: scheduler_visit_def Let_def upd_mycpu_def on_hart_def)
    show thesis
      by (rule that(1)) (use b o True z in \<open>simp_all add: t lock_defs upd_proc_def on_hart_def\<close>)
  next
    case False
    then show thesis using that(2) may r by (auto simp: scheduler_visit_def)
  qed
qed

lemma pick_inv:
  assumes inv: "own_inv own (s, ph)" and idle: "ph h = Idle"
    and r: "scheduler_visit p (on_hart h s) = Ret True t"
  shows "own_inv (own(p := Some h)) (t, ph(h := Entering p))"
  using visit_cases [OF inv idle r]
proof cases
  case 1
  have free: "\<And>q. own q \<noteq> Some h" using own_invD(1) [OF inv, of h] idle by (simp add: hart_ok_def)
  show ?thesis
    by (rule own_inv_move [OF inv])
      (use 1 free in \<open>simp_all add: same_run_def locks_hold hart_ok_def proc_ok_def lock_by_def\<close>)
qed simp

lemma skip_inv:
  assumes inv: "own_inv own (s, ph)" and idle: "ph h = Idle"
    and r: "scheduler_visit p (on_hart h s) = Ret False t"
  shows "own_inv own (t, ph)"
  using visit_cases [OF inv idle r]
proof cases
  case 2
  then show ?thesis
    by (intro own_inv_stay [OF inv]) (simp_all add: cpus_settle same_run_def)
qed simp

lemma enter_inv_sched:
  assumes inv: "own_inv own (s, ph)" and ph: "ph h = Entering p"
    and r: "yield_resume p ie (on_hart h s) = Ret () t"
  shows "own_inv (own(p := Some h)) (t, ph(h := Running p))"
proof -
  let ?s = "sched_resume ie (on_hart h s)"
  have r': "release (L_proc p) ?s = Ret () t" using r by (simp add: yield_resume_def)
  have s: "locks ?s = locks s" "tp ?s = h" "procs ?s = procs s" "\<And>k. k \<noteq> h \<Longrightarrow> cpus ?s k = cpus s k"
      "noff (cpus ?s h) = noff (cpus s h)" "cpu_proc (cpus ?s h) = cpu_proc (cpus s h)"
    by (simp_all add: sched_resume_def cpu_defs on_hart_def)
  have h: "noff (cpus s h) = 1" "cpu_proc (cpus s h) = Some p" "\<And>q. own q = Some h \<longleftrightarrow> q = p"
    using own_invD(1) [OF inv, of h] ph by (simp_all add: hart_ok_def)
  have o: "own p = Some h" using h by blast
  have p: "runs s p" "lock_by h (locks s (L_proc p))"
    using own_invD(2) [OF inv, of p] o ph by (simp_all add: proc_ok_def)
  note d = release_RetD [OF r'] and pr = procs_more [OF release_RetD(5) [OF r']]
  show ?thesis
    by (rule own_inv_move [OF inv])
      (use d s h p pr in \<open>simp_all add: same_run_def hart_ok_def proc_ok_def lock_open_def\<close>)
qed

lemma returns_inv:
  assumes inv: "own_inv own (s, ph)" and ph: "ph h = Switching p"
    and r: "scheduler_back p (on_hart h s) = Ret () t"
  shows "own_inv (own(p := None)) (t, ph(h := Idle))"
proof -
  let ?s = "upd_mycpu (cpu_proc_update (\<lambda>_. None)) (on_hart h s)"
  have r': "release (L_proc p) ?s = Ret () t" using r by (simp add: scheduler_back_def)
  have s: "locks ?s = locks s" "tp ?s = h" "procs ?s = procs s" "\<And>k. k \<noteq> h \<Longrightarrow> cpus ?s k = cpus s k"
      "noff (cpus ?s h) = noff (cpus s h)" "cpu_proc (cpus ?s h) = None"
    by (simp_all add: cpu_defs on_hart_def)
  have h: "noff (cpus s h) = 1" "\<And>q. own q = Some h \<longleftrightarrow> q = p"
    using own_invD(1) [OF inv, of h] ph by (simp_all add: hart_ok_def)
  have o: "own p = Some h" using h by blast
  have p: "\<not> runs s p" "lock_by h (locks s (L_proc p))"
    using own_invD(2) [OF inv, of p] o ph by (simp_all add: proc_ok_def)
  note d = release_RetD [OF r'] and pr = procs_more [OF release_RetD(5) [OF r']]
  show ?thesis
    by (rule own_inv_move [OF inv])
      (use d s h p pr in \<open>simp_all add: same_run_def hart_ok_def proc_ok_def lock_open_def\<close>)
qed

lemma running_facts:
  assumes inv: "own_inv own (s, ph)" and ph: "ph h = Running p"
  shows "noff (mycpu (on_hart h s)) = 0" "current (on_hart h s) = Some p" "cpu_ok (on_hart h s)"
    "may_lock (L_proc p) (on_hart h s)" "\<And>q. own q = Some h \<longleftrightarrow> q = p"
proof -
  show h: "noff (mycpu (on_hart h s)) = 0" "current (on_hart h s) = Some p" "\<And>q. own q = Some h \<longleftrightarrow> q = p"
    using own_invD(1) [OF inv, of h] ph by (simp_all add: hart_ok_def)
  then show ok: "cpu_ok (on_hart h s)" by (simp add: cpu_ok_def)
  have "own p = Some h" using h(3) by blast
  then have "lock_open (locks s (L_proc p))"
    using own_invD(2) [OF inv, of p] ph by (simp add: proc_ok_def)
  then show "may_lock (L_proc p) (on_hart h s)"
    using ok by (simp add: may_lock_def lock_free_def lock_open_def)
qed

text \<open>A running process that gives up the CPU in any way: it holds its lock and is not RUNNING.\<close>

lemma leave_inv_sched:
  assumes inv: "own_inv own (s, ph)" and ph: "ph h = Running p" and f: "p_state (f (procs s p)) \<noteq> RUNNING"
  shows "own_inv (own(p := Some h)) (hold (L_proc p) (upd_proc p f (on_hart h s)), ph(h := Switching p))"
proof -
  note h = running_facts [OF inv ph]
  have "tp (upd_proc p f (on_hart h s)) = h" by simp
  note c = cpus_hold [of _ "upd_proc p f (on_hart h s)", unfolded this]
  show ?thesis
    by (rule own_inv_move [OF inv])
      (use h f in \<open>simp_all add: c locks_hold same_run_def hart_ok_def proc_ok_def lock_by_def\<close>)
qed

lemma yields_inv:
  assumes inv: "own_inv own (s, ph)" and ph: "ph h = Running p"
    and r: "yield (on_hart h s) = Wait OnSched t"
  shows "own_inv (own(p := Some h)) (t, ph(h := Switching p))"
  using r yield_eq [OF running_facts(1,2,4) [OF inv ph]] leave_inv_sched [OF inv ph] by auto

lemma sleeps_inv:
  assumes inv: "own_inv own (s, ph)" and ph: "ph h = Running p"
    and lk: "\<forall>q. lk \<noteq> L_proc q" "may_lock lk (on_hart h s)"
    and r: "kbind (acquire lk (on_hart h s)) (\<lambda>_ s. sleep ch lk s) = (Wait OnSched t :: (unit, _) kres)"
  shows "own_inv (own(p := Some h)) (t, ph(h := Switching p))"
proof -
  have "sleep ch lk (hold lk (on_hart h s)) = (Wait OnSched (hold (L_proc p)
      (upd_proc p (asleep ch (ticks64 (on_hart h s))) (on_hart h s))) :: (unit, _) kres)"
    using running_facts [OF inv ph] lk by (intro sleep_eq) simp_all
  then have "t = hold (L_proc p) (upd_proc p (asleep ch (ticks64 (on_hart h s))) (on_hart h s))"
    using r lk by simp
  then show ?thesis using leave_inv_sched [OF inv ph] by (simp add: asleep_def)
qed

lemma wakes_inv:
  assumes inv: "own_inv own (s, ph)" and ph: "ph h = Running p"
    and r: "wakeup_one ch q (on_hart h s) = Ret () t"
  shows "own_inv own (t, ph)"
proof -
  note h = running_facts [OF inv ph]
  have "may_lock (L_proc q) (on_hart h s)" if "current (on_hart h s) \<noteq> Some q"
    using acquire_or_wait [OF inv, of h q] h(1,3) that r
    by (auto simp: wakeup_one_def myproc_eq acquire_settle)
  from wakeup_one_eq [OF h(3) this, of ch] r
  have "t = settle (if current (on_hart h s) \<noteq> Some q \<and> sleeps_on ch (procs s q)
      then upd_proc q (woken (ticks64 (on_hart h s))) (on_hart h s) else on_hart h s)" by simp
  then show ?thesis
    by (intro own_inv_stay [OF inv])
      (auto simp: cpus_settle same_run_def sleeps_on_def woken_def)
qed

lemma kills_inv:
  assumes inv: "own_inv own (s, ph)" and ph: "ph h = Running p"
    and r: "kkill_one pid q (on_hart h s) = Ret v t"
  shows "own_inv own (t, ph)"
proof -
  note h = running_facts [OF inv ph]
  have "may_lock (L_proc q) (on_hart h s)"
    using acquire_or_wait [OF inv, of h q] h(1) r by (auto simp: kkill_one_def)
  from kkill_one_eq [OF this, of pid] r
  have "t = settle (upd_proc q (kill_mark (ticks64 (on_hart h s))) (on_hart h s)) \<or>
      t = settle (on_hart h s)" by (auto split: if_splits)
  then show ?thesis
    by (intro own_inv_stay [OF inv])
      (auto simp: cpus_settle same_run_def kill_mark_def woken_def split: if_splits)
qed

lemma sched_step_inv: "sched_step x y \<Longrightarrow> sched_inv x \<Longrightarrow> sched_inv y"
  unfolding sched_inv_def
  by (induction rule: sched_step.induct)
    (blast intro: skip_inv pick_inv enter_inv_sched yields_inv sleeps_inv wakes_inv kills_inv returns_inv)+

lemma sched_reach_inv: "sched_reach x \<Longrightarrow> sched_inv x"
  by (induction rule: sched_reach.induct) (auto intro: sched_init_inv sched_step_inv)

section \<open>Properties\<close>

text \<open>
  C4: however the CPUs interleave scheduling, yielding, sleeping, waking and killing, no process
  is the current process of two CPUs, every process marked RUNNING is on a CPU, and
  \<^verbatim>\<open>yield\<close> from a running process reaches the scheduler without a panic in \<^verbatim>\<open>sched\<close>.
\<close>

theorem one_cpu_per_process:
  assumes "sched_reach (s, ph)"
  shows "(\<forall>h k p. cpu_proc (cpus s h) = Some p \<and> cpu_proc (cpus s k) = Some p \<longrightarrow> h = k) \<and>
    (\<forall>p. p_state (procs s p) = RUNNING \<longrightarrow> (\<exists>h. cpu_proc (cpus s h) = Some p)) \<and>
    (\<forall>h p. ph h = Running p \<longrightarrow> (\<exists>t. yield (on_hart h s) = Wait OnSched t))"
proof -
  obtain own where inv: "own_inv own (s, ph)"
    using sched_reach_inv [OF assms] by (auto simp: sched_inv_def)
  have o: "own p = Some h" if "cpu_proc (cpus s h) = Some p" for h p
    using own_invD(1) [OF inv, of h] that by (auto simp: hart_ok_def split: phase.splits)
  have "\<exists>h. cpu_proc (cpus s h) = Some p" if run: "p_state (procs s p) = RUNNING" for p
  proof -
    obtain h where h: "own p = Some h" "ph h \<noteq> Idle"
      using own_invD(2) [OF inv, of p] run
      by (auto simp: proc_ok_def split: option.splits phase.splits)
    then have "cpu_proc (cpus s h) = Some p"
      using own_invD(1) [OF inv, of h] by (auto simp: hart_ok_def split: phase.splits)
    then show ?thesis ..
  qed
  moreover have "h = k" if "cpu_proc (cpus s h) = Some p" "cpu_proc (cpus s k) = Some p" for h k p
    using o [OF that(1)] o [OF that(2)] by simp
  moreover have "\<exists>t. yield (on_hart h s) = Wait OnSched t" if "ph h = Running p" for h p
    using yield_eq [OF running_facts(1,2,4) [OF inv that]] by simp
  ultimately show ?thesis by blast
qed

definition one_runnable :: proc_state where
  "one_runnable = boot_procs\<lparr>procs := (\<lambda>_. blank_proc)(3 := blank_proc\<lparr>p_state := RUNNABLE\<rparr>)\<rparr>"

theorem one_cpu_per_process_witness:
  "\<exists>(s :: proc_state) ph. sched_reach (s, ph) \<and> ph 1 = Entering 3 \<and>
    (\<forall>h. cpu_proc (cpus s h) = Some 3 \<longrightarrow> h = 1)"
proof -
  have i: "sched_reach (one_runnable, \<lambda>_. Idle)"
    by (rule sched_reach.init) (simp add: sched_init_def one_runnable_def lock_free_def open_lock_def
        idle_cpu_def blank_proc_def)
  have "may_lock (L_proc 3) (on_hart 1 one_runnable)" by (simp add: one_runnable_def on_hart_def)
  then obtain t where t: "scheduler_visit 3 (on_hart 1 one_runnable) = Ret True t"
      "cpu_proc (cpus t 1) = Some 3"
    by (simp add: scheduler_visit_def Let_def one_runnable_def blank_proc_def cpu_defs)
  have r: "sched_reach (t, (\<lambda>_. Idle)(1 := Entering 3))"
    using sched_reach.step [OF i sched_step.pick [of _ 1 3]] t by simp
  have o: "\<forall>h. cpu_proc (cpus t h) = Some 3 \<longrightarrow> h = 1"
    using one_cpu_per_process [OF r] t(2) by blast
  show ?thesis by (intro exI conjI, rule r, simp, rule o)
qed

end
