(* ===== verification/Vm.thy ===== *)
theory Vm
  imports ProcState
begin

text \<open>
  Virtual memory (\<^verbatim>\<open>kernel/vm.c\<close>, with \<^verbatim>\<open>proc_mapstacks\<close> of \<^verbatim>\<open>kernel/proc.c\<close>): three-level
  Sv39 page tables kept in byte memory, mapping, unmapping, growing, copying and freeing of
  address spaces, and the copies between kernel and user memory.  A page-table entry is read and
  written through its physical address.  \<^verbatim>\<open>copyout\<close> takes the bytes of its source; \<^verbatim>\<open>copyin\<close>
  and \<^verbatim>\<open>copyinstr\<close> return, with their status, the bytes they stored at the destination.
\<close>

section \<open>State\<close>

record vm_state = proc_state +
  kernel_pagetable :: uint64
  satp :: "nat \<Rightarrow> uint64"

definition load_pte :: "uint64 \<Rightarrow> 'a kmem_state_scheme \<Rightarrow> uint64" where
  "load_pte a s = load64 (mem s) a"

definition store_pte :: "uint64 \<Rightarrow> uint64 \<Rightarrow> 'a kmem_state_scheme \<Rightarrow> 'a kmem_state_scheme" where
  "store_pte a v s = s\<lparr>mem := store64 (mem s) a v\<rparr>"

text \<open>The address \<^verbatim>\<open>&pagetable[i]\<close>.\<close>

definition pte_addr :: "uint64 \<Rightarrow> uint64 \<Rightarrow> uint64" where
  "pte_addr pagetable i = pagetable + 8 * i"

definition zero_page :: "uint64 \<Rightarrow> 'a kmem_state_scheme \<Rightarrow> 'a kmem_state_scheme" where
  "zero_page pa s = s\<lparr>mem := memset (mem s) pa 0 (unat PGSIZE)\<rparr>"

section \<open>Walking the table\<close>

primrec walk_loop ::
  "nat \<Rightarrow> uint64 \<Rightarrow> uint64 \<Rightarrow> bool \<Rightarrow> 'a kmem_state_scheme \<Rightarrow> (uint64, 'a kmem_state_scheme) kres" where
  "walk_loop 0 pagetable va alloc s = Ret (pte_addr pagetable (PX 0 va)) s"
| "walk_loop (Suc level) pagetable va alloc s =
     (let pte = pte_addr pagetable (PX (Suc level) va) in
      if load_pte pte s AND PTE_V \<noteq> 0 then walk_loop level (PTE2PA (load_pte pte s)) va alloc s
      else if \<not> alloc then Ret 0 s
      else kbind (kalloc s) (\<lambda>pagetable s.
           if pagetable = 0 then Ret 0 s
           else let s = zero_page pagetable s;
                    s = store_pte pte (PA2PTE pagetable OR PTE_V) s in
                walk_loop level pagetable va alloc s))"

definition walk ::
  "uint64 \<Rightarrow> uint64 \<Rightarrow> bool \<Rightarrow> 'a kmem_state_scheme \<Rightarrow> (uint64, 'a kmem_state_scheme) kres" where
  "walk pagetable va alloc s =
     (if va \<ge> MAXVA then Panic ''walk'' else walk_loop 2 pagetable va alloc s)"

definition walkaddr :: "uint64 \<Rightarrow> uint64 \<Rightarrow> 'a kmem_state_scheme \<Rightarrow> (uint64, 'a kmem_state_scheme) kres" where
  "walkaddr pagetable va s =
     (if va \<ge> MAXVA then Ret 0 s
      else kbind (walk pagetable va False s) (\<lambda>pte s.
        if pte = 0 then Ret 0 s
        else if load_pte pte s AND PTE_V = 0 then Ret 0 s
        else if load_pte pte s AND PTE_U = 0 then Ret 0 s
        else Ret (PTE2PA (load_pte pte s)) s))"

definition ismapped :: "uint64 \<Rightarrow> uint64 \<Rightarrow> 'a kmem_state_scheme \<Rightarrow> (bool, 'a kmem_state_scheme) kres" where
  "ismapped pagetable va s =
     kbind (walk pagetable va False s) (\<lambda>pte s.
     if pte = 0 then Ret False s
     else Ret (load_pte pte s AND PTE_V \<noteq> 0) s)"

section \<open>Mapping and unmapping\<close>

partial_function (option) mappages_loop ::
  "uint64 \<Rightarrow> uint64 \<Rightarrow> uint64 \<Rightarrow> uint64 \<Rightarrow> uint64 \<Rightarrow> 'a kmem_state_scheme \<Rightarrow>
    (int, 'a kmem_state_scheme) kres option" where
  "mappages_loop pagetable a last_va pa perm s =
     (case walk pagetable a True s of
        Ret pte s \<Rightarrow>
          if pte = 0 then Some (Ret (- 1) s)
          else if load_pte pte s AND PTE_V \<noteq> 0 then Some (Panic ''mappages: remap'')
          else let s = store_pte pte (PA2PTE pa OR perm OR PTE_V) s in
               if a = last_va then Some (Ret 0 s)
               else mappages_loop pagetable (a + PGSIZE) last_va (pa + PGSIZE) perm s
      | Panic msg \<Rightarrow> Some (Panic msg) | Wait w s \<Rightarrow> Some (Wait w s)
      | Diverge \<Rightarrow> Some Diverge | Undef \<Rightarrow> Some Undef)"

definition mappages ::
  "uint64 \<Rightarrow> uint64 \<Rightarrow> uint64 \<Rightarrow> uint64 \<Rightarrow> uint64 \<Rightarrow> 'a kmem_state_scheme \<Rightarrow>
    (int, 'a kmem_state_scheme) kres" where
  "mappages pagetable va sz pa perm s =
     (if va mod PGSIZE \<noteq> 0 then Panic ''mappages: va not aligned''
      else if sz mod PGSIZE \<noteq> 0 then Panic ''mappages: size not aligned''
      else if sz = 0 then Panic ''mappages: size''
      else or_diverge (mappages_loop pagetable va (va + sz - PGSIZE) pa perm s))"

definition uvmcreate :: "'a kmem_state_scheme \<Rightarrow> (uint64, 'a kmem_state_scheme) kres" where
  "uvmcreate s =
     kbind (kalloc s) (\<lambda>pagetable s.
     if pagetable = 0 then Ret 0 s
     else Ret pagetable (zero_page pagetable s))"

text \<open>One turn of the loop of \<^verbatim>\<open>uvmunmap\<close>.\<close>

definition uvmunmap_one ::
  "uint64 \<Rightarrow> uint64 \<Rightarrow> bool \<Rightarrow> 'a kmem_state_scheme \<Rightarrow> (unit, 'a kmem_state_scheme) kres" where
  "uvmunmap_one pagetable a do_free s =
     kbind (walk pagetable a False s) (\<lambda>pte s.
     if pte = 0 then Ret () s
     else if load_pte pte s AND PTE_V = 0 then Ret () s
     else kbind (if do_free then kfree (PTE2PA (load_pte pte s)) s else Ret () s) (\<lambda>_ s.
          Ret () (store_pte pte 0 s)))"

partial_function (option) uvmunmap_loop ::
  "uint64 \<Rightarrow> uint64 \<Rightarrow> uint64 \<Rightarrow> bool \<Rightarrow> 'a kmem_state_scheme \<Rightarrow>
    (unit, 'a kmem_state_scheme) kres option" where
  "uvmunmap_loop pagetable a end_va do_free s =
     (if a < end_va then
        (case uvmunmap_one pagetable a do_free s of
           Ret _ s \<Rightarrow> uvmunmap_loop pagetable (a + PGSIZE) end_va do_free s
         | Panic msg \<Rightarrow> Some (Panic msg) | Wait w s \<Rightarrow> Some (Wait w s)
         | Diverge \<Rightarrow> Some Diverge | Undef \<Rightarrow> Some Undef)
      else Some (Ret () s))"

definition uvmunmap ::
  "uint64 \<Rightarrow> uint64 \<Rightarrow> uint64 \<Rightarrow> bool \<Rightarrow> 'a kmem_state_scheme \<Rightarrow> (unit, 'a kmem_state_scheme) kres" where
  "uvmunmap pagetable va npages do_free s =
     (if va mod PGSIZE \<noteq> 0 then Panic ''uvmunmap: not aligned''
      else or_diverge (uvmunmap_loop pagetable va (va + npages * PGSIZE) do_free s))"

section \<open>Growing, shrinking and freeing\<close>

text \<open>\<^verbatim>\<open>npages\<close> is an \<^verbatim>\<open>int\<close>: the page count is cut to 32 bits and sign-extended.\<close>

definition uvmdealloc ::
  "uint64 \<Rightarrow> uint64 \<Rightarrow> uint64 \<Rightarrow> 'a kmem_state_scheme \<Rightarrow> (uint64, 'a kmem_state_scheme) kres" where
  "uvmdealloc pagetable oldsz newsz s =
     (if newsz \<ge> oldsz then Ret oldsz s
      else if PGROUNDUP newsz < PGROUNDUP oldsz then
        let npages = to_int ((PGROUNDUP oldsz - PGROUNDUP newsz) div PGSIZE) in
        kbind (uvmunmap pagetable (PGROUNDUP newsz) (of_cint npages) True s) (\<lambda>_ s. Ret newsz s)
      else Ret newsz s)"

partial_function (option) uvmalloc_loop ::
  "uint64 \<Rightarrow> uint64 \<Rightarrow> uint64 \<Rightarrow> uint64 \<Rightarrow> uint64 \<Rightarrow> 'a kmem_state_scheme \<Rightarrow>
    (uint64, 'a kmem_state_scheme) kres option" where
  "uvmalloc_loop pagetable a oldsz newsz xperm s =
     (if a < newsz then
        (case kbind (kalloc s) (\<lambda>pg s.
           if pg = 0 then kbind (uvmdealloc pagetable a oldsz s) (\<lambda>_ s. Ret False s)
           else let s = zero_page pg s in
                kbind (mappages pagetable a PGSIZE pg (PTE_R OR PTE_U OR xperm) s) (\<lambda>r s.
                if r \<noteq> 0 then
                  kbind (kfree pg s) (\<lambda>_ s.
                  kbind (uvmdealloc pagetable a oldsz s) (\<lambda>_ s. Ret False s))
                else Ret True s)) of
           Ret go s \<Rightarrow>
             if go then uvmalloc_loop pagetable (a + PGSIZE) oldsz newsz xperm s else Some (Ret 0 s)
         | Panic msg \<Rightarrow> Some (Panic msg) | Wait w s \<Rightarrow> Some (Wait w s)
         | Diverge \<Rightarrow> Some Diverge | Undef \<Rightarrow> Some Undef)
      else Some (Ret newsz s))"

definition uvmalloc ::
  "uint64 \<Rightarrow> uint64 \<Rightarrow> uint64 \<Rightarrow> uint64 \<Rightarrow> 'a kmem_state_scheme \<Rightarrow> (uint64, 'a kmem_state_scheme) kres" where
  "uvmalloc pagetable oldsz newsz xperm s =
     (if newsz < oldsz then Ret oldsz s
      else let oldsz = PGROUNDUP oldsz in
           or_diverge (uvmalloc_loop pagetable oldsz oldsz newsz xperm s))"

text \<open>
  \<^verbatim>\<open>freewalk\<close> recurses along the table's levels.  The first argument bounds the depth; no
  entry of a level-0 page points to a further page in a table that \<^verbatim>\<open>walk\<close> built, so three
  levels suffice, and a deeper recursion counts as one that does not end.
\<close>

primrec freewalk_depth ::
  "nat \<Rightarrow> uint64 \<Rightarrow> 'a kmem_state_scheme \<Rightarrow> (unit, 'a kmem_state_scheme) kres" where
  "freewalk_depth 0 pagetable s = Diverge"
| "freewalk_depth (Suc n) pagetable s =
     kbind (kfor [0..<512] (\<lambda>i s.
       let pte = load_pte (pte_addr pagetable (of_nat i)) s in
       if pte AND PTE_V \<noteq> 0 \<and> pte AND (PTE_R OR PTE_W OR PTE_X) = 0 then
         kbind (freewalk_depth n (PTE2PA pte) s) (\<lambda>_ s.
         Ret () (store_pte (pte_addr pagetable (of_nat i)) 0 s))
       else if pte AND PTE_V \<noteq> 0 then Panic ''freewalk: leaf''
       else Ret () s) s) (\<lambda>_ s.
     kfree pagetable s)"

definition freewalk :: "uint64 \<Rightarrow> 'a kmem_state_scheme \<Rightarrow> (unit, 'a kmem_state_scheme) kres" where
  "freewalk pagetable s = freewalk_depth 3 pagetable s"

definition uvmfree :: "uint64 \<Rightarrow> uint64 \<Rightarrow> 'a kmem_state_scheme \<Rightarrow> (unit, 'a kmem_state_scheme) kres" where
  "uvmfree pagetable sz s =
     kbind (if sz > 0 then uvmunmap pagetable 0 (PGROUNDUP sz div PGSIZE) True s else Ret () s) (\<lambda>_ s.
     freewalk pagetable s)"

section \<open>Copying an address space\<close>

partial_function (option) uvmcopy_loop ::
  "uint64 \<Rightarrow> uint64 \<Rightarrow> uint64 \<Rightarrow> uint64 \<Rightarrow> 'a kmem_state_scheme \<Rightarrow>
    (int, 'a kmem_state_scheme) kres option" where
  "uvmcopy_loop old new sz i s =
     (if i < sz then
        (case kbind (walk old i False s) (\<lambda>pte s.
           if pte = 0 then Ret True s
           else if load_pte pte s AND PTE_V = 0 then Ret True s
           else let pa = PTE2PA (load_pte pte s); flags = PTE_FLAGS (load_pte pte s) in
                kbind (kalloc s) (\<lambda>pg s.
                if pg = 0 then Ret False s
                else let s = s\<lparr>mem := memmove (mem s) pg pa (unat PGSIZE)\<rparr> in
                     kbind (mappages new i PGSIZE pg flags s) (\<lambda>r s.
                     if r \<noteq> 0 then kbind (kfree pg s) (\<lambda>_ s. Ret False s)
                     else Ret True s))) of
           Ret go s \<Rightarrow>
             if go then uvmcopy_loop old new sz (i + PGSIZE) s
             else Some (kbind (uvmunmap new 0 (i div PGSIZE) True s) (\<lambda>_ s. Ret (- 1) s))
         | Panic msg \<Rightarrow> Some (Panic msg) | Wait w s \<Rightarrow> Some (Wait w s)
         | Diverge \<Rightarrow> Some Diverge | Undef \<Rightarrow> Some Undef)
      else Some (Ret 0 s))"

definition uvmcopy :: "uint64 \<Rightarrow> uint64 \<Rightarrow> uint64 \<Rightarrow> 'a kmem_state_scheme \<Rightarrow> (int, 'a kmem_state_scheme) kres" where
  "uvmcopy old new sz s = or_diverge (uvmcopy_loop old new sz 0 s)"

definition uvmclear :: "uint64 \<Rightarrow> uint64 \<Rightarrow> 'a kmem_state_scheme \<Rightarrow> (unit, 'a kmem_state_scheme) kres" where
  "uvmclear pagetable va s =
     kbind (walk pagetable va False s) (\<lambda>pte s.
     if pte = 0 then Panic ''uvmclear''
     else Ret () (store_pte pte (load_pte pte s AND NOT PTE_U) s))"

section \<open>Copies between kernel and user memory\<close>

definition vmfault :: "uint64 \<Rightarrow> uint64 \<Rightarrow> bool \<Rightarrow> 'a proc_state_scheme \<Rightarrow> (uint64, 'a proc_state_scheme) kres" where
  "vmfault pagetable va read s =
     with_myproc (\<lambda>p s.
       if va \<ge> p_sz (procs s p) then Ret 0 s
       else let va = PGROUNDDOWN va in
         kbind (ismapped pagetable va s) (\<lambda>mapped s.
         if mapped then Ret 0 s
         else kbind (kalloc s) (\<lambda>pg s.
           if pg = 0 then Ret 0 s
           else let s = zero_page pg s in
             kbind (mappages (p_pagetable (procs s p)) va PGSIZE pg (PTE_W OR PTE_U OR PTE_R) s) (\<lambda>r s.
             if r \<noteq> 0 then kbind (kfree pg s) (\<lambda>_ s. Ret 0 s)
             else Ret pg s)))) s"

text \<open>The number of bytes from \<open>va\<close> to the end of its page, at most \<open>len\<close>.\<close>

definition chunk :: "uint64 \<Rightarrow> nat \<Rightarrow> nat" where
  "chunk va len = (let n = unat (PGSIZE - (va - PGROUNDDOWN va)) in if n > len then len else n)"

lemma chunk_pos: "0 < len \<Longrightarrow> 0 < chunk va len"
proof -
  have "unat (va - PGROUNDDOWN va) < 4096"
  proof -
    have le: "PGROUNDDOWN va \<le> va"
      by (simp add: word_le_nat_alt unat_PGROUNDDOWN)
    then have "unat (va - PGROUNDDOWN va) = unat va - unat (PGROUNDDOWN va)"
      by (simp add: unat_sub)
    then show ?thesis by (simp add: unat_PGROUNDDOWN)
  qed
  then have "unat (PGSIZE - (va - PGROUNDDOWN va)) = 4096 - unat (va - PGROUNDDOWN va)"
    by (simp add: unat_sub PGSIZE_def word_le_nat_alt)
  then show "0 < len \<Longrightarrow> 0 < chunk va len"
    using \<open>unat (va - PGROUNDDOWN va) < 4096\<close> by (simp add: chunk_def Let_def)
qed

text \<open>The page a copy uses: the mapped one, or one \<^verbatim>\<open>vmfault\<close> allocates; 0 if neither.\<close>

definition copy_page :: "uint64 \<Rightarrow> uint64 \<Rightarrow> 'a proc_state_scheme \<Rightarrow> (uint64, 'a proc_state_scheme) kres" where
  "copy_page pagetable va0 s =
     kbind (walkaddr pagetable va0 s) (\<lambda>pa0 s.
     if pa0 = 0 then vmfault pagetable va0 False s else Ret pa0 s)"

function copyout ::
  "uint64 \<Rightarrow> uint64 \<Rightarrow> uchar list \<Rightarrow> 'a proc_state_scheme \<Rightarrow> (int, 'a proc_state_scheme) kres" where
  "copyout pagetable dstva src s =
     (if src = [] then Ret 0 s
      else let va0 = PGROUNDDOWN dstva in
        if va0 \<ge> MAXVA then Ret (- 1) s
        else kbind (copy_page pagetable va0 s) (\<lambda>pa0 s.
          if pa0 = 0 then Ret (- 1) s
          else kbind (walk pagetable va0 False s) (\<lambda>pte s.
            if pte = 0 then Undef
            else if load_pte pte s AND PTE_W = 0 then Ret (- 1) s
            else let n = chunk dstva (length src);
                     s = s\<lparr>mem := write_bytes (mem s) (pa0 + (dstva - va0)) (take n src)\<rparr> in
                 copyout pagetable (va0 + PGSIZE) (drop n src) s)))"
  by pat_completeness auto
termination
  by (relation "measure (\<lambda>(pagetable, dstva, src, s). length src)") (auto simp: chunk_pos)

function copyin ::
  "uint64 \<Rightarrow> uint64 \<Rightarrow> nat \<Rightarrow> 'a proc_state_scheme \<Rightarrow> (int \<times> uchar list, 'a proc_state_scheme) kres" where
  "copyin pagetable srcva len s =
     (if len = 0 then Ret (0, []) s
      else let va0 = PGROUNDDOWN srcva in
        kbind (copy_page pagetable va0 s) (\<lambda>pa0 s.
        if pa0 = 0 then Ret (- 1, []) s
        else let n = chunk srcva len;
                 bs = read_bytes (mem s) (pa0 + (srcva - va0)) n in
             kbind (copyin pagetable (va0 + PGSIZE) (len - n) s) (\<lambda>(r, cs) s.
             Ret (r, bs @ cs) s)))"
  by pat_completeness auto
termination
  by (relation "measure (\<lambda>(pagetable, srcva, len, s). len)") (auto simp: chunk_pos)

declare copyout.simps [simp del] copyin.simps [simp del]

text \<open>The inner loop of \<^verbatim>\<open>copyinstr\<close>: the bytes it stores and whether it met the NUL.\<close>

primrec copy_str :: "memory \<Rightarrow> uint64 \<Rightarrow> nat \<Rightarrow> uchar list \<times> bool" where
  "copy_str m p 0 = ([], False)"
| "copy_str m p (Suc n) =
     (if m p = 0 then ([0], True)
      else let (bs, got_null) = copy_str m (p + 1) n in (m p # bs, got_null))"

function copyinstr ::
  "uint64 \<Rightarrow> uint64 \<Rightarrow> nat \<Rightarrow> 'a kmem_state_scheme \<Rightarrow> (int \<times> uchar list, 'a kmem_state_scheme) kres" where
  "copyinstr pagetable srcva len s =
     (if len = 0 then Ret (- 1, []) s
      else let va0 = PGROUNDDOWN srcva in
        kbind (walkaddr pagetable va0 s) (\<lambda>pa0 s.
        if pa0 = 0 then Ret (- 1, []) s
        else let n = chunk srcva len;
                 (bs, got_null) = copy_str (mem s) (pa0 + (srcva - va0)) n in
             if got_null then Ret (0, bs) s
             else kbind (copyinstr pagetable (va0 + PGSIZE) (len - n) s) (\<lambda>(r, cs) s.
                  Ret (r, bs @ cs) s)))"
  by pat_completeness auto
termination
  by (relation "measure (\<lambda>(pagetable, srcva, len, s). len)") (auto simp: chunk_pos)

declare copyinstr.simps [simp del]

section \<open>The kernel's page table\<close>

definition kvmmap ::
  "uint64 \<Rightarrow> uint64 \<Rightarrow> uint64 \<Rightarrow> uint64 \<Rightarrow> uint64 \<Rightarrow> 'a kmem_state_scheme \<Rightarrow> (unit, 'a kmem_state_scheme) kres" where
  "kvmmap kpgtbl va pa sz perm s =
     kbind (mappages kpgtbl va sz pa perm s) (\<lambda>r s.
     if r \<noteq> 0 then Panic ''kvmmap'' else Ret () s)"

definition proc_mapstacks :: "uint64 \<Rightarrow> 'a kmem_state_scheme \<Rightarrow> (unit, 'a kmem_state_scheme) kres" where
  "proc_mapstacks kpgtbl s =
     kfor all_procs (\<lambda>p s.
       kbind (kalloc s) (\<lambda>pa s.
       if pa = 0 then Panic ''kalloc''
       else kvmmap kpgtbl (KSTACK p) pa PGSIZE (PTE_R OR PTE_W) s)) s"

definition kvmmake :: "'a proc_state_scheme \<Rightarrow> (uint64, 'a proc_state_scheme) kres" where
  "kvmmake s =
     kbind (kalloc s) (\<lambda>kpgtbl s.
     let s = zero_page kpgtbl s;
         etext = sym_etext (syms s) in
     kbind (kvmmap kpgtbl UART0 UART0 PGSIZE (PTE_R OR PTE_W) s) (\<lambda>_ s.
     kbind (kvmmap kpgtbl VIRTIO0 VIRTIO0 PGSIZE (PTE_R OR PTE_W) s) (\<lambda>_ s.
     kbind (kvmmap kpgtbl PLIC PLIC 0x4000000 (PTE_R OR PTE_W) s) (\<lambda>_ s.
     kbind (kvmmap kpgtbl KERNBASE KERNBASE (etext - KERNBASE) (PTE_R OR PTE_X) s) (\<lambda>_ s.
     kbind (kvmmap kpgtbl etext etext (PHYSTOP - etext) (PTE_R OR PTE_W) s) (\<lambda>_ s.
     kbind (kvmmap kpgtbl TRAMPOLINE (sym_trampoline (syms s)) PGSIZE (PTE_R OR PTE_X) s) (\<lambda>_ s.
     kbind (proc_mapstacks kpgtbl s) (\<lambda>_ s.
     Ret kpgtbl s))))))))"

definition kvminit :: "'a vm_state_scheme \<Rightarrow> (unit, 'a vm_state_scheme) kres" where
  "kvminit s = kbind (kvmmake s) (\<lambda>pt s. Ret () (s\<lparr>kernel_pagetable := pt\<rparr>))"

definition kvminithart :: "'a vm_state_scheme \<Rightarrow> 'a vm_state_scheme" where
  "kvminithart s = s\<lparr>satp := (satp s)(cpuid s := MAKE_SATP (kernel_pagetable s))\<rparr>"

section \<open>Copies to and from either side\<close>

text \<open>
  The place a copy goes to or comes from: a user address of the current process
  (\<^verbatim>\<open>user_dst\<close> is 1), an address of kernel memory, or a local variable of the caller, whose
  bytes are passed along with the result instead.
\<close>

datatype place = User uint64 | Kernel uint64 | Local "uchar list"

primrec place_add :: "place \<Rightarrow> nat \<Rightarrow> place" where
  "place_add (User a) m = User (a + of_nat m)"
| "place_add (Kernel a) m = Kernel (a + of_nat m)"
| "place_add (Local bs) m = Local (drop m bs)"

definition either_copyout ::
  "place \<Rightarrow> uchar list \<Rightarrow> 'a proc_state_scheme \<Rightarrow> (int, 'a proc_state_scheme) kres" where
  "either_copyout dst src s =
     kbind (myproc s) (\<lambda>p s.
     case dst of
       User va \<Rightarrow> (case p of None \<Rightarrow> Undef | Some p \<Rightarrow> copyout (p_pagetable (procs s p)) va src s)
     | Kernel a \<Rightarrow> Ret 0 (s\<lparr>mem := write_bytes (mem s) a src\<rparr>)
     | Local bs \<Rightarrow> Ret 0 s)"

definition either_copyin ::
  "place \<Rightarrow> nat \<Rightarrow> 'a proc_state_scheme \<Rightarrow> (int \<times> uchar list, 'a proc_state_scheme) kres" where
  "either_copyin src len s =
     kbind (myproc s) (\<lambda>p s.
     case src of
       User va \<Rightarrow> (case p of None \<Rightarrow> Undef | Some p \<Rightarrow> copyin (p_pagetable (procs s p)) va len s)
     | Kernel a \<Rightarrow> Ret (0, read_bytes (mem s) a len) s
     | Local bs \<Rightarrow> Ret (0, take len bs) s)"

end
