(* ===== verification/PageTable.thy ===== *)
theory PageTable
  imports Vm
begin

text \<open>
  What the page-table code of \<^verbatim>\<open>kernel/vm.c\<close> does, at the level of the map from virtual pages
  to page-table entries.  A table is a tree of distinct pages (\<open>tree\<close>), \<open>pte_at\<close> reads the
  entry of an address, and \<^verbatim>\<open>walk\<close>, \<^verbatim>\<open>mappages\<close>, \<^verbatim>\<open>uvmunmap\<close> refine lookup and update of
  that map.
\<close>

unbundle bit_operations_syntax

section \<open>Indices and entries\<close>

lemma PX_take_bit: "PX l va = take_bit 9 (drop_bit (12 + 9 * l) va)"
  by (simp add: PX_def PXSHIFT_def take_bit_eq_mask mask_eq_exp_minus_1)

lemma unat_PX: "unat (PX l va) = unat va div 2 ^ (12 + 9 * l) mod 512"
  unfolding PX_take_bit unsigned_take_bit_eq unat_drop_bit_eq
  unfolding take_bit_eq_mod drop_bit_eq_div by simp

lemma PX_less: "PX l va < 512"
  by (simp add: word_less_nat_alt unat_PX)

lemma same_vpn:
  assumes "va < MAXVA" "va' < MAXVA"
  shows "(PX 0 va = PX 0 va' \<and> PX 1 va = PX 1 va' \<and> PX 2 va = PX 2 va') =
    (PGROUNDDOWN va = PGROUNDDOWN va')"
proof -
  let ?f = "\<lambda>v. unat v div 4096"
  have b: "?f v < 2 ^ 26" if "v < MAXVA" for v
    using that by (simp add: MAXVA_def word_less_nat_alt div_less_iff_less_mult)
  have px: "unat (PX 0 v) = ?f v mod 512" "unat (PX 1 v) = ?f v div 512 mod 512"
      "unat (PX 2 v) = ?f v div 512 div 512 mod 512" for v
    by (simp_all add: unat_PX div_mult2_eq [symmetric])
  have dec: "n = (n div 512 div 512 mod 512) * (512 * 512) + (n div 512 mod 512) * 512 + n mod 512"
    if "n < 2 ^ 26" for n :: nat
  proof -
    have "n div 512 div 512 mod 512 = n div 512 div 512"
      using that by (simp add: div_less_iff_less_mult)
    then show ?thesis using mult_div_mod_eq [of 512 n] mult_div_mod_eq [of 512 "n div 512"] by linarith
  qed
  have "PX 0 va = PX 0 va' \<and> PX 1 va = PX 1 va' \<and> PX 2 va = PX 2 va' \<longleftrightarrow> ?f va = ?f va'"
    unfolding word_unat_eq_iff px using dec [OF b [OF assms(1)]] dec [OF b [OF assms(2)]] by metis
  moreover have "unat (PGROUNDDOWN v) = 4096 * ?f v" for v
    by (simp add: unat_PGROUNDDOWN minus_mod_eq_mult_div)
  ultimately show ?thesis by (simp add: word_unat_eq_iff)
qed

lemma page_aligned_bit: "page_aligned p \<Longrightarrow> bit p n \<Longrightarrow> 12 \<le> n"
proof -
  assume a: "page_aligned p" "bit p n"
  have "p = p AND NOT (mask 12)"
    using PGROUNDDOWN_id [OF a(1)] by (simp add: PGROUNDDOWN_def PGSIZE_mask)
  then show "12 \<le> n" using a(2) by (metis bit_and_iff bit_not_iff bit_mask_iff not_le)
qed

lemma PTE2PA_PA2PTE:
  assumes "take_bit 10 f = f" "page_aligned p"
  shows "PTE2PA (PA2PTE p OR f) = p"
proof -
  have f: "\<not> bit f n" if "10 \<le> n" for n using assms(1) that by (metis bit_take_bit_iff not_le)
  show ?thesis
    by (rule bit_eqI) (use page_aligned_bit [OF assms(2)] f in \<open>auto simp: PTE2PA_def PA2PTE_def bit_simps\<close>)
qed

lemma PTE_FLAGS_PA2PTE:
  assumes "take_bit 10 f = f"
  shows "PTE_FLAGS (PA2PTE p OR f) = f"
proof -
  have m: "(0x3FF :: uint64) = mask 10" by (simp add: mask_eq_exp_minus_1)
  have "take_bit 10 (PA2PTE p) = 0" by (simp add: PA2PTE_def take_bit_push_bit)
  then have "take_bit 10 (PA2PTE p OR f) = f" using assms by simp
  then show ?thesis by (simp add: PTE_FLAGS_def m flip: take_bit_eq_mask)
qed

lemma PTE2PA_aligned [simp]: "page_aligned (PTE2PA e)"
  unfolding page_aligned_unat PTE2PA_def unsigned_push_bit_eq take_bit_push_bit
  unfolding push_bit_eq_mult by simp

abbreviation valid :: "uint64 \<Rightarrow> bool" where
  "valid e \<equiv> e AND PTE_V \<noteq> 0"

lemma valid_iff: "valid e \<longleftrightarrow> bit e 0"
  by (simp add: PTE_V_def and_one_eq odd_iff_mod_2_eq_one bit_0)

lemma valid_or [simp]: "valid (e OR PTE_V)" "valid (e OR f OR PTE_V)"
  unfolding valid_iff by (simp_all add: PTE_V_def bit_simps)

lemma PTE_V_nonzero [simp]: "PTE_V \<noteq> 0"
  by (simp add: PTE_V_def)

lemma not_valid_0 [simp]: "\<not> valid 0"
  by simp

section \<open>Pages of memory\<close>

abbreviation in_page :: "uint64 \<Rightarrow> uint64 \<Rightarrow> bool" where
  "in_page x p \<equiv> in_range x p 4096"

text \<open>\<open>only m m' S\<close>: the memories agree outside the pages in \<open>S\<close>.\<close>

definition only :: "memory \<Rightarrow> memory \<Rightarrow> uint64 set \<Rightarrow> bool" where
  "only m m' S \<longleftrightarrow> (\<forall>x. (\<forall>p \<in> S. \<not> in_page x p) \<longrightarrow> m' x = m x)"

lemma only_refl [simp]: "only m m S"
  by (simp add: only_def)

lemma only_trans: "only m m' S \<Longrightarrow> only m' m'' S' \<Longrightarrow> S \<subseteq> U \<Longrightarrow> S' \<subseteq> U \<Longrightarrow> only m m'' U"
  by (force simp: only_def)

lemma only_mono: "only m m' S \<Longrightarrow> S \<subseteq> S' \<Longrightarrow> only m m' S'"
  by (auto simp: only_def)

lemma page_aligned_aligned: "page_aligned p = aligned 4096 p"
  by (simp add: page_aligned_unat aligned_def dvd_eq_mod_eq_0)

lemma in_page_unique: "page_aligned p \<Longrightarrow> page_aligned q \<Longrightarrow> in_page x p \<Longrightarrow> in_page x q \<Longrightarrow> p = q"
proof (rule ccontr)
  assume a: "page_aligned p" "page_aligned q" "in_page x p" "in_page x q" "p \<noteq> q"
  then have "\<not> in_range (p + of_nat (unat (x - p))) q 4096"
    by (intro aligned_disjoint) (simp_all add: page_aligned_aligned)
  then show False using a by simp
qed

lemma only_page:
  assumes "only m m' S" "page_aligned p" "\<forall>q \<in> S. page_aligned q" "p \<notin> S" "in_page x p"
  shows "m' x = m x"
  using assms by (metis in_page_unique only_def)

lemma in_page_slot: "i < 512 \<Longrightarrow> j < 8 \<Longrightarrow> in_page (pte_addr p i + of_nat j) p"
proof -
  assume a: "i < 512" "j < 8"
  have "pte_addr p i + of_nat j - p = of_nat (8 * unat i + j)"
    by (simp add: pte_addr_def)
  moreover have lt: "8 * unat i + j < 4096" using a by (simp add: word_less_nat_alt)
  moreover have "unat (of_nat (8 * unat i + j) :: uint64) = 8 * unat i + j"
    using lt by (intro unat_of_nat64) simp
  ultimately show ?thesis by metis
qed

lemma aligned_slot: "page_aligned p \<Longrightarrow> aligned 8 (pte_addr p i)"
proof -
  assume "page_aligned p"
  then have "8 dvd unat p" using dvd_trans [of 8 4096 "unat p"]
    by (simp add: page_aligned_aligned aligned_def dvd_eq_mod_eq_0 [of 8 4096])
  moreover have "8 dvd unat (8 * i)" by (simp add: unat_word_ariths dvd_mod_iff)
  ultimately show ?thesis unfolding aligned_def pte_addr_def unat_word_ariths
    by (intro dvd_mod) (simp_all add: dvd_add)
qed

lemma slot_inject: "i < 512 \<Longrightarrow> j < 512 \<Longrightarrow> pte_addr p i = pte_addr p j \<longleftrightarrow> i = j"
proof
  assume a: "i < 512" "j < 512" "pte_addr p i = pte_addr p j"
  then have "8 * i = 8 * j" by (simp add: pte_addr_def)
  moreover have "unat (8 * k) = 8 * unat k" if "k < 512" for k :: uint64
    using that by (simp add: unat_word_ariths word_less_nat_alt)
  ultimately have "8 * unat i = 8 * unat j" using a by metis
  then show "i = j" by (simp add: word_unat_eq_iff)
qed simp

lemma slot_nonzero: "page_aligned p \<Longrightarrow> p \<noteq> 0 \<Longrightarrow> i < 512 \<Longrightarrow> pte_addr p i \<noteq> 0"
proof
  assume a: "page_aligned p" "p \<noteq> 0" "i < 512" "pte_addr p i = 0"
  have "in_page 0 p" using in_page_slot [OF a(3), of 0 p] a(4) by simp
  moreover have "in_page 0 0" "page_aligned 0" by (simp_all add: page_aligned_def)
  ultimately show False using in_page_unique [OF a(1), of 0 0] a(2) by simp
qed

lemma load64_only:
  assumes "only m m' S" "page_aligned p" "\<forall>q \<in> S. page_aligned q" "p \<notin> S" "i < 512"
  shows "load64 m' (pte_addr p i) = load64 m (pte_addr p i)"
  using assms by (intro load64_cong only_page [of m m' S p]) (auto intro: in_page_slot)

lemma only_store64: "i < 512 \<Longrightarrow> only m (store64 m (pte_addr p i) v) {p}"
proof (unfold only_def, intro allI impI)
  fix x assume a: "i < 512" "\<forall>p \<in> {p}. \<not> in_page x p"
  have "\<not> in_range x (pte_addr p i) 8"
  proof
    assume "in_range x (pte_addr p i) 8"
    then have "in_page (pte_addr p i + of_nat (unat (x - pte_addr p i))) p"
      by (rule in_page_slot [OF a(1)])
    then show False using a(2) by simp
  qed
  then show "store64 m (pte_addr p i) v x = m x" by (rule store64_frame)
qed

lemma load64_store_slot:
  assumes "page_aligned p" "i < 512" "j < 512"
  shows "load64 (store64 m (pte_addr p i) v) (pte_addr p j) =
    (if j = i then v else load64 m (pte_addr p j))"
  using assms by (simp add: load64_store64_other aligned_slot slot_inject)

lemma only_memset: "only m (memset m p c (unat PGSIZE)) {p}"
  by (simp add: only_def memset_apply PGSIZE_def)

lemma load64_memset_0: "i < 512 \<Longrightarrow> load64 (memset m p 0 (unat PGSIZE)) (pte_addr p i) = 0"
proof -
  assume i: "i < 512"
  have "load64 (memset m p 0 (unat PGSIZE)) (pte_addr p i) = load64 (\<lambda>_. 0) (pte_addr p i)"
    using in_page_slot [OF i] by (intro load64_cong) (simp add: memset_apply PGSIZE_def)
  then show ?thesis by (simp add: load64_def numeral_eq_Suc)
qed

section \<open>Page tables as trees\<close>

text \<open>The address of the level-0 entry for \<open>va\<close>, 0 if a table on the way is missing, and the entry.\<close>

primrec leaf_slot :: "memory \<Rightarrow> nat \<Rightarrow> uint64 \<Rightarrow> uint64 \<Rightarrow> uint64" where
  "leaf_slot m 0 pt va = pte_addr pt (PX 0 va)"
| "leaf_slot m (Suc n) pt va =
     (let e = load64 m (pte_addr pt (PX (Suc n) va)) in
      if valid e then leaf_slot m n (PTE2PA e) va else 0)"

primrec pte_at :: "memory \<Rightarrow> nat \<Rightarrow> uint64 \<Rightarrow> uint64 \<Rightarrow> uint64" where
  "pte_at m 0 pt va = load64 m (pte_addr pt (PX 0 va))"
| "pte_at m (Suc n) pt va =
     (let e = load64 m (pte_addr pt (PX (Suc n) va)) in
      if valid e then pte_at m n (PTE2PA e) va else 0)"

text \<open>
  \<open>tree m n pt P\<close>: the table pages below \<open>pt\<close>, which has \<open>n\<close> levels under it, are exactly
  \<open>P\<close>, and no page is reached in two ways.
\<close>

primrec tree :: "memory \<Rightarrow> nat \<Rightarrow> uint64 \<Rightarrow> uint64 set \<Rightarrow> bool" where
  "tree m 0 pt P \<longleftrightarrow> page_aligned pt \<and> pt \<noteq> 0 \<and> P = {pt}"
| "tree m (Suc n) pt P \<longleftrightarrow> page_aligned pt \<and> pt \<noteq> 0 \<and>
     (\<exists>C. P = insert pt (\<Union>i \<in> {i. i < 512}. C i) \<and>
        (\<forall>i < 512. pt \<notin> C i) \<and> (\<forall>i < 512. \<forall>j < 512. i \<noteq> j \<longrightarrow> C i \<inter> C j = {}) \<and>
        (\<forall>i < 512. if valid (load64 m (pte_addr pt i)) then tree m n (PTE2PA (load64 m (pte_addr pt i))) (C i)
                   else C i = {}))"

lemma tree_root: "tree m n pt P \<Longrightarrow> page_aligned pt \<and> pt \<noteq> 0 \<and> pt \<in> P"
  by (cases n) auto

lemma tree_aligned: "tree m n pt P \<Longrightarrow> p \<in> P \<Longrightarrow> page_aligned p"
proof (induction n arbitrary: pt P)
  case (Suc n)
  then obtain C where C: "P = insert pt (\<Union>i \<in> {i. i < 512}. C i)"
      "\<And>i. i < 512 \<Longrightarrow> if valid (load64 m (pte_addr pt i))
        then tree m n (PTE2PA (load64 m (pte_addr pt i))) (C i) else C i = {}"
    by auto
  show ?case
  proof (cases "p = pt")
    case False
    then obtain i where "i < 512" "p \<in> C i" using Suc.prems C(1) by auto
    then show ?thesis using C(2) [of i] Suc.IH by (auto split: if_splits)
  qed (use Suc.prems in simp)
qed simp

lemma tree_frame:
  assumes "tree m n pt P" "only m m' S" "\<forall>q \<in> S. page_aligned q" "P \<inter> S = {}"
  shows "tree m' n pt P \<and> leaf_slot m' n pt va = leaf_slot m n pt va \<and>
    pte_at m' n pt va = pte_at m n pt va"
  using assms(1,4)
proof (induction n arbitrary: pt P)
  case 0
  then have "load64 m' (pte_addr pt (PX 0 va)) = load64 m (pte_addr pt (PX 0 va))"
    using assms(2,3) by (intro load64_only [where S = S]) (auto simp: PX_less)
  then show ?case using 0 by simp
next
  case (Suc n)
  obtain C where C: "P = insert pt (\<Union>i \<in> {i. i < 512}. C i)" "\<forall>i < 512. pt \<notin> C i"
      "(\<forall>i < 512. \<forall>j < 512. i \<noteq> j \<longrightarrow> C i \<inter> C j = {})"
      "\<And>i. i < 512 \<Longrightarrow> if valid (load64 m (pte_addr pt i))
        then tree m n (PTE2PA (load64 m (pte_addr pt i))) (C i) else C i = {}"
    using Suc.prems(1) by auto
  have root: "page_aligned pt" "pt \<noteq> 0" "pt \<notin> S" using Suc.prems tree_root by auto
  have e: "load64 m' (pte_addr pt i) = load64 m (pte_addr pt i)" if "i < 512" for i
    using assms(2,3) root that by (intro load64_only [where S = S]) auto
  have sub: "tree m' n (PTE2PA (load64 m (pte_addr pt i))) (C i) \<and>
      leaf_slot m' n (PTE2PA (load64 m (pte_addr pt i))) va = leaf_slot m n (PTE2PA (load64 m (pte_addr pt i))) va \<and>
      pte_at m' n (PTE2PA (load64 m (pte_addr pt i))) va = pte_at m n (PTE2PA (load64 m (pte_addr pt i))) va"
    if "i < 512" "valid (load64 m (pte_addr pt i))" for i
    using that C(4) [of i] Suc.prems(2) C(1) by (intro Suc.IH) auto
  have "tree m' (Suc n) pt P"
    using root C e sub by (auto intro!: exI [of _ C])
  then show ?case
    using e [OF PX_less] sub [OF PX_less] by (simp add: Let_def)
qed

text \<open>The children of an inner node.\<close>

definition kids :: "memory \<Rightarrow> nat \<Rightarrow> uint64 \<Rightarrow> uint64 set \<Rightarrow> (uint64 \<Rightarrow> uint64 set) \<Rightarrow> bool" where
  "kids m n pt P C \<longleftrightarrow> page_aligned pt \<and> pt \<noteq> 0 \<and> P = insert pt (\<Union>i \<in> {i. i < 512}. C i) \<and>
     (\<forall>i < 512. pt \<notin> C i) \<and> (\<forall>i < 512. \<forall>j < 512. i \<noteq> j \<longrightarrow> C i \<inter> C j = {}) \<and>
     (\<forall>i < 512. if valid (load64 m (pte_addr pt i)) then tree m n (PTE2PA (load64 m (pte_addr pt i))) (C i)
                else C i = {})"

lemma tree_kids: "tree m (Suc n) pt P \<longleftrightarrow> (\<exists>C. kids m n pt P C)"
  by (auto simp: kids_def)

lemma kidsD:
  assumes "kids m n pt P C"
  shows "page_aligned pt" "pt \<noteq> 0" "P = insert pt (\<Union>i \<in> {i. i < 512}. C i)"
    "i < 512 \<Longrightarrow> pt \<notin> C i" "i < 512 \<Longrightarrow> j < 512 \<Longrightarrow> i \<noteq> j \<Longrightarrow> C i \<inter> C j = {}"
    "i < 512 \<Longrightarrow> valid (load64 m (pte_addr pt i)) \<Longrightarrow>
      tree m n (PTE2PA (load64 m (pte_addr pt i))) (C i)"
    "i < 512 \<Longrightarrow> \<not> valid (load64 m (pte_addr pt i)) \<Longrightarrow> C i = {}"
    "i < 512 \<Longrightarrow> C i \<subseteq> P"
  using assms by (auto simp: kids_def)

lemma leaf_slot_in:
  assumes "tree m n pt P" "leaf_slot m n pt va \<noteq> 0"
  shows "\<exists>p \<in> P. leaf_slot m n pt va = pte_addr p (PX 0 va)"
  using assms
proof (induction n arbitrary: pt P)
  case (Suc n)
  obtain C where C: "kids m n pt P C" using Suc.prems(1) unfolding tree_kids by blast
  let ?i = "PX (Suc n) va"
  have v: "valid (load64 m (pte_addr pt ?i))" using Suc.prems(2) by (auto simp: Let_def split: if_splits)
  have "\<exists>p \<in> C ?i. leaf_slot m n (PTE2PA (load64 m (pte_addr pt ?i))) va = pte_addr p (PX 0 va)"
    using Suc.IH [OF kidsD(6) [OF C PX_less v]] Suc.prems(2) v by (simp add: Let_def)
  then show ?case using v kidsD(8) [OF C PX_less] by (auto simp: Let_def)
qed simp

lemma pte_at_leaf:
  "tree m n pt P \<Longrightarrow>
    pte_at m n pt va = (if leaf_slot m n pt va = 0 then 0 else load64 m (leaf_slot m n pt va))"
proof (induction n arbitrary: pt P)
  case 0
  then show ?case using slot_nonzero PX_less by auto
next
  case (Suc n)
  obtain C where C: "kids m n pt P C" using Suc.prems(1) unfolding tree_kids by blast
  show ?case using Suc.IH [OF kidsD(6) [OF C PX_less]] by (simp add: Let_def)
qed

lemma store_leaf:
  assumes "tree m n pt P" "leaf_slot m n pt va \<noteq> 0"
  shows "tree (store64 m (leaf_slot m n pt va) v) n pt P \<and>
    leaf_slot (store64 m (leaf_slot m n pt va) v) n pt va' = leaf_slot m n pt va' \<and>
    pte_at (store64 m (leaf_slot m n pt va) v) n pt va' =
      (if \<forall>l \<le> n. PX l va' = PX l va then v else pte_at m n pt va')"
  using assms
proof (induction n arbitrary: pt P)
  case 0
  then show ?case using load64_store_slot [of pt "PX 0 va" "PX 0 va'" m v] PX_less by simp
next
  case (Suc n)
  obtain C where C: "kids m n pt P C" using Suc.prems(1) unfolding tree_kids by blast
  let ?i = "PX (Suc n) va" and ?j = "PX (Suc n) va'"
  define a where "a = leaf_slot m (Suc n) pt va"
  define m' where "m' = store64 m a v"
  have v: "valid (load64 m (pte_addr pt ?i))" using Suc.prems(2) by (auto simp: Let_def split: if_splits)
  then have a: "a = leaf_slot m n (PTE2PA (load64 m (pte_addr pt ?i))) va" by (simp add: a_def Let_def)
  have sub: "tree m n (PTE2PA (load64 m (pte_addr pt ?i))) (C ?i)" by (rule kidsD(6) [OF C PX_less v])
  obtain p where p: "p \<in> C ?i" "a = pte_addr p (PX 0 va)"
    using leaf_slot_in [OF sub] Suc.prems(2) a a_def by metis
  have on: "only m m' {p}" unfolding m'_def p(2) by (rule only_store64 [OF PX_less])
  have pa: "\<forall>q \<in> {p}. page_aligned q" using tree_aligned [OF sub p(1)] by simp
  have e: "load64 m' (pte_addr pt i) = load64 m (pte_addr pt i)" if "i < 512" for i
    using kidsD(4) [OF C PX_less, of "Suc n" va] p(1)
    by (intro load64_only [OF on kidsD(1) [OF C] pa _ that]) auto
  have "a \<noteq> 0" using Suc.prems(2) by (simp only: a_def not_False_eq_True)
  note here = Suc.IH [OF sub, folded a, OF this, folded m'_def]
  have other: "tree m' n (PTE2PA (load64 m (pte_addr pt i))) (C i) \<and>
      leaf_slot m' n (PTE2PA (load64 m (pte_addr pt i))) va' = leaf_slot m n (PTE2PA (load64 m (pte_addr pt i))) va' \<and>
      pte_at m' n (PTE2PA (load64 m (pte_addr pt i))) va' = pte_at m n (PTE2PA (load64 m (pte_addr pt i))) va'"
    if "i < 512" "i \<noteq> ?i" "valid (load64 m (pte_addr pt i))" for i
    using kidsD(5) [OF C that(1) PX_less that(2)] p(1)
    by (intro tree_frame [OF kidsD(6) [OF C that(1,3)] on pa]) auto
  have "kids m' n pt P C"
  proof -
    have "if valid (load64 m' (pte_addr pt i)) then tree m' n (PTE2PA (load64 m' (pte_addr pt i))) (C i)
        else C i = {}" if "i < 512" for i
      using e [OF that] here other [OF that] kidsD(7) [OF C that] by (cases "i = ?i") simp_all
    then show ?thesis using C by (simp add: kids_def)
  qed
  then have "tree m' (Suc n) pt P" unfolding tree_kids by blast
  moreover have "leaf_slot m' (Suc n) pt va' = leaf_slot m (Suc n) pt va' \<and>
      pte_at m' (Suc n) pt va' = (if \<forall>l \<le> Suc n. PX l va' = PX l va then v else pte_at m (Suc n) pt va')"
  proof (cases "?j = ?i")
    case True
    then show ?thesis using e [OF PX_less] here v by (auto simp: Let_def le_Suc_eq)
  next
    case False
    then show ?thesis using e [OF PX_less] other [OF PX_less False] by (auto simp: Let_def)
  qed
  ultimately show ?case unfolding m'_def a_def by blast
qed

text \<open>Replacing the subtree at index \<open>i\<close> by one over the pages \<open>Q\<close>.\<close>

lemma graft:
  assumes C: "kids m n pt P C" and i: "i < 512"
    and Q: "C i \<subseteq> Q" "Q \<inter> (P - C i) = {}" "\<forall>q \<in> Q. page_aligned q"
    and on: "only m m' (insert pt Q)"
    and same: "\<And>j. j < 512 \<Longrightarrow> j \<noteq> i \<Longrightarrow> load64 m' (pte_addr pt j) = load64 m (pte_addr pt j)"
    and e: "valid (load64 m' (pte_addr pt i))" "tree m' n (PTE2PA (load64 m' (pte_addr pt i))) Q"
  shows "tree m' (Suc n) pt (P \<union> Q) \<and>
    (PX (Suc n) va \<noteq> i \<longrightarrow> pte_at m' (Suc n) pt va = pte_at m (Suc n) pt va)"
proof -
  have al: "\<forall>q \<in> insert pt Q. page_aligned q" using Q(3) kidsD(1) [OF C] by simp
  have dis: "C j \<inter> insert pt Q = {}" if "j < 512" "j \<noteq> i" for j
    using kidsD(4) [OF C that(1)] kidsD(5) [OF C that(1) i that(2)] kidsD(8) [OF C that(1)] Q(2) by auto
  have sub: "tree m' n (PTE2PA (load64 m (pte_addr pt j))) (C j) \<and>
      pte_at m' n (PTE2PA (load64 m (pte_addr pt j))) va = pte_at m n (PTE2PA (load64 m (pte_addr pt j))) va"
    if "j < 512" "j \<noteq> i" "valid (load64 m (pte_addr pt j))" for j
    using tree_frame [OF kidsD(6) [OF C that(1,3)] on al dis [OF that(1,2)], of va] by simp
  let ?C = "C(i := Q)"
  have "kids m' n pt (P \<union> Q) ?C"
    unfolding kids_def
  proof (intro conjI)
    have "(\<Union>j \<in> {j. j < 512}. ?C j) = (\<Union>j \<in> {j. j < 512}. C j) \<union> Q"
      using Q(1) i by (auto split: if_splits)
    then show "P \<union> Q = insert pt (\<Union>j \<in> {j. j < 512}. ?C j)" using kidsD(3) [OF C] by auto
    have "pt \<notin> Q" using Q(2) kidsD(3,4) [OF C] i by auto
    then show "\<forall>j < 512. pt \<notin> ?C j" using kidsD(4) [OF C] by simp
    show "\<forall>j < 512. \<forall>k < 512. j \<noteq> k \<longrightarrow> ?C j \<inter> ?C k = {}"
    proof (intro allI impI)
      fix j k :: uint64 assume jk: "j < 512" "k < 512" "j \<noteq> k"
      then show "?C j \<inter> ?C k = {}"
        using kidsD(5) [OF C jk] dis [OF jk(1)] dis [OF jk(2)] by (cases "j = i"; cases "k = i") auto
    qed
    show "\<forall>j < 512. if valid (load64 m' (pte_addr pt j))
        then tree m' n (PTE2PA (load64 m' (pte_addr pt j))) (?C j) else ?C j = {}"
      using e same sub kidsD(7) [OF C] by auto
  qed (use kidsD [OF C] in simp_all)
  then have "tree m' (Suc n) pt (P \<union> Q)" unfolding tree_kids by blast
  moreover have "pte_at m' (Suc n) pt va = pte_at m (Suc n) pt va" if "PX (Suc n) va \<noteq> i"
    using same [OF PX_less that] sub [OF PX_less that] by (simp add: Let_def)
  ultimately show ?thesis by blast
qed

lemma tree_zero:
  assumes "page_aligned x" "x \<noteq> 0" "\<And>i. i < 512 \<Longrightarrow> load64 m (pte_addr x i) = 0"
  shows "tree m n x {x} \<and> pte_at m n x va = 0"
proof (cases n)
  case (Suc k)
  have "kids m k x {x} (\<lambda>_. {})" using assms by (simp add: kids_def)
  then have "tree m n x {x}" unfolding Suc tree_kids by blast
  then show ?thesis using assms(3) [OF PX_less] Suc by simp
qed (use assms PX_less in simp)

section \<open>walk\<close>

lemma walk_loop_lookup: "walk_loop n pt va False s = Ret (leaf_slot (mem s) n pt va) s"
  by (induction n arbitrary: pt) (simp_all add: load_pte_def Let_def)

text \<open>Nothing but memory and the free list differs.\<close>

definition mem_only :: "'a kmem_state_scheme \<Rightarrow> 'a kmem_state_scheme \<Rightarrow> bool" where
  "mem_only s t \<longleftrightarrow> settle t = settle (s\<lparr>mem := mem t, freelist := freelist t\<rparr>)"

lemma freelist_mem: "s\<lparr>freelist := f, mem := m\<rparr> = s\<lparr>mem := m, freelist := f\<rparr>"
  by simp

lemma mem_only_refl [simp]: "mem_only s s"
  by (simp add: mem_only_def)

lemma mem_only_trans: "mem_only s t \<Longrightarrow> mem_only t u \<Longrightarrow> mem_only s u"
proof -
  assume a: "mem_only s t" "mem_only t u"
  have "settle (t\<lparr>mem := mem u, freelist := freelist u\<rparr>) =
      (settle t)\<lparr>mem := mem u, freelist := freelist u\<rparr>" by simp
  also have "\<dots> = settle (s\<lparr>mem := mem u, freelist := freelist u\<rparr>)"
    using a(1) by (simp add: mem_only_def)
  finally show ?thesis using a(2) by (simp add: mem_only_def)
qed

lemma mem_only_upd [simp]:
  "mem_only s (s\<lparr>mem := m\<rparr>)" "mem_only s (settle t) = mem_only s t" "mem_only (settle s) t = mem_only s t"
  by (simp_all add: mem_only_def)

lemma kmem_avail_only:
  assumes "kmem_avail s xs" "only (mem s) m S" "S \<inter> set xs = {}" "\<forall>q \<in> S. page_aligned q"
  shows "kmem_avail (s\<lparr>mem := m\<rparr>) xs"
proof -
  have pg: "\<And>x. x \<in> set xs \<Longrightarrow> page_aligned x"
    using assms(1) by (simp add: kmem_avail_def kmem_ok_def phys_page_def)
  have "load64 m x = load64 (mem s) x" if "x \<in> set xs" for x
    using load64_only [OF assms(2) pg [OF that] assms(4), of 0] that assms(3)
    by (auto simp: pte_addr_def)
  then have "linked (load64 m) (freelist s) xs = linked (load64 (mem s)) (freelist s) xs"
    by (intro linked_cong) simp
  then show ?thesis using assms(1) by (simp add: kmem_avail_def kmem_ok_def)
qed

text \<open>
  The outcome of a walk that may allocate: the table has grown from the pages \<open>P\<close> to
  \<open>P'\<close> by free pages, and no entry has changed.
\<close>

definition grown ::
  "nat \<Rightarrow> uint64 \<Rightarrow> uint64 set \<Rightarrow> uint64 list \<Rightarrow> 'a kmem_state_scheme \<Rightarrow>
    uint64 set \<Rightarrow> uint64 list \<Rightarrow> 'a kmem_state_scheme \<Rightarrow> bool" where
  "grown n pt P xs s P' ys t \<longleftrightarrow> mem_only s t \<and> kmem_avail t ys \<and> tree (mem t) n pt P' \<and> P \<subseteq> P' \<and>
     P' \<union> set ys = P \<union> set xs \<and> P' \<inter> set ys = {} \<and> only (mem s) (mem t) P' \<and>
     (\<forall>va. pte_at (mem t) n pt va = pte_at (mem s) n pt va)"

lemma walk_alloc_page:
  assumes "kmem_avail s (x # xs)" "page_aligned pt" "pt \<notin> set (x # xs)" "i < 512"
  shows "\<exists>t. kbind (kalloc s) (\<lambda>pg s. if pg = 0 then Ret 0 s
           else f pg (store_pte (pte_addr pt i) (PA2PTE pg OR PTE_V) (zero_page pg s))) = f x t \<and>
    mem_only s t \<and> kmem_avail t xs \<and> only (mem s) (mem t) {pt, x} \<and> page_aligned x \<and> x \<noteq> 0 \<and>
    (\<forall>j < 512. load64 (mem t) (pte_addr x j) = 0) \<and>
    (\<forall>j < 512. load64 (mem t) (pte_addr pt j) =
      (if j = i then PA2PTE x OR PTE_V else load64 (mem s) (pte_addr pt j)))"
proof -
  have x: "page_aligned x" "x \<noteq> 0" "x \<notin> set xs" "freelist s = x" "may_lock L_kmem s"
    using assms(1) by (auto simp: kmem_avail_def kmem_ok_def phys_page_def)
  have ptx: "pt \<noteq> x" using assms(3) by auto
  let ?m0 = "memset (mem s) x 5 (unat PGSIZE)"
  let ?m1 = "memset ?m0 x 0 (unat PGSIZE)"
  let ?m2 = "store64 ?m1 (pte_addr pt i) (PA2PTE x OR PTE_V)"
  let ?s1 = "settle (s\<lparr>freelist := load64 (mem s) x, mem := ?m0\<rparr>)"
  let ?t = "store_pte (pte_addr pt i) (PA2PTE x OR PTE_V) (zero_page x ?s1)"
  have k: "kalloc s = Ret x ?s1" using kalloc_eq [OF x(5)] x by simp
  then have av: "kmem_avail ?s1 xs" using kalloc_avail [OF assms(1)] by auto
  have mt: "mem ?t = ?m2" by (simp add: store_pte_def zero_page_def)
  have on1: "only (mem s) ?m1 {x}"
    by (rule only_trans [OF only_memset [of "mem s" x 5] only_memset]) simp_all
  have on2: "only ?m1 ?m2 {pt}" by (rule only_store64 [OF assms(4)])
  have on: "only (mem s) ?m2 {pt, x}" by (rule only_trans [OF on1 on2]) simp_all
  have "only (mem ?s1) ?m2 {pt, x}"
    using on2 by (auto intro!: only_trans [OF only_memset [of ?m0 x 0] on2])
  then have av2: "kmem_avail (?s1\<lparr>mem := ?m2\<rparr>) xs"
    using av x(1,3) assms(2,3) by (intro kmem_avail_only) auto
  have "?t = ?s1\<lparr>mem := ?m2\<rparr>" by (simp add: store_pte_def zero_page_def)
  moreover have "load64 ?m2 (pte_addr x j) = 0" if "j < 512" for j
    using load64_only [OF on2 x(1), of j] assms(2) ptx that load64_memset_0 [OF that] by auto
  moreover have "load64 ?m2 (pte_addr pt j) =
      (if j = i then PA2PTE x OR PTE_V else load64 (mem s) (pte_addr pt j))" if "j < 512" for j
    using load64_store_slot [OF assms(2,4) that] load64_only [OF on1 assms(2), of j] x(1) ptx that by auto
  moreover have "mem_only s ?t"
    by (simp add: mem_only_def store_pte_def zero_page_def freelist_mem)
  ultimately show ?thesis
    using k x on av2 mt by (intro exI [of _ ?t]) auto
qed

lemma grownD:
  assumes "grown n pt P xs s P' ys t"
  shows "mem_only s t" "kmem_avail t ys" "tree (mem t) n pt P'" "P \<subseteq> P'"
    "P' \<union> set ys = P \<union> set xs" "P' \<inter> set ys = {}" "only (mem s) (mem t) P'"
    "pte_at (mem t) n pt va = pte_at (mem s) n pt va"
  using assms by (simp_all add: grown_def)

lemma avail_aligned: "kmem_avail s xs \<Longrightarrow> x \<in> set xs \<Longrightarrow> page_aligned x"
  by (simp add: kmem_avail_def kmem_ok_def phys_page_def)

text \<open>
  A walk below entry \<open>i\<close> of \<open>pt\<close>, seen from \<open>pt\<close>: the entry points to \<open>c\<close>, whose pages
  \<open>D\<close> are the old ones or one new page.
\<close>

lemma grown_up:
  assumes C: "kids (mem s) n pt P C" and i: "i < 512" and av: "kmem_avail s xs" "P \<inter> set xs = {}"
    and su: "mem_only s u" "only (mem s) (mem u) (insert pt D)"
    and ents: "\<And>j. j < 512 \<Longrightarrow> j \<noteq> i \<Longrightarrow> load64 (mem u) (pte_addr pt j) = load64 (mem s) (pte_addr pt j)"
      "valid (load64 (mem u) (pte_addr pt i))" "PTE2PA (load64 (mem u) (pte_addr pt i)) = c"
    and D: "C i \<subseteq> D" "D \<union> set xs' = C i \<union> set xs" 
    and pe: "\<And>va. PX (Suc n) va = i \<Longrightarrow> pte_at (mem u) n c va = pte_at (mem s) (Suc n) pt va"
    and gr: "grown n c D xs' u Q ys t"
  shows "grown (Suc n) pt P xs s (P \<union> Q) ys t \<and>
    (PX (Suc n) va = i \<longrightarrow> leaf_slot (mem t) (Suc n) pt va = leaf_slot (mem t) n c va)"
proof -
  note g = grownD [OF gr]
  have sub: "C i \<subseteq> P" by (rule kidsD(8) [OF C i])
  have qs: "Q \<subseteq> C i \<union> set xs" "C i \<subseteq> Q" using g(4,5) D by blast+
  have pt: "pt \<in> P" "pt \<notin> C i" "pt \<notin> set xs" using kidsD(3,4) [OF C] i av(2) by auto
  then have ptq: "pt \<notin> Q" using qs by blast
  have qa: "\<forall>q \<in> Q. page_aligned q"
    using qs(1) sub tree_aligned [of "mem s" "Suc n" pt P] C avail_aligned [OF av(1)]
    unfolding tree_kids by blast
  have same: "load64 (mem t) (pte_addr pt j) = load64 (mem u) (pte_addr pt j)" if "j < 512" for j
    by (rule load64_only [OF g(7) kidsD(1) [OF C] qa ptq that])
  have on: "only (mem s) (mem t) (insert pt Q)"
    by (rule only_trans [OF su(2) g(7)]) (use g(4) in blast)+
  have tr: "tree (mem t) (Suc n) pt (P \<union> Q) \<and> (PX (Suc n) va' \<noteq> i \<longrightarrow>
      pte_at (mem t) (Suc n) pt va' = pte_at (mem s) (Suc n) pt va')" for va'
  proof (rule graft [OF C i qs(2) _ qa on])
    show "Q \<inter> (P - C i) = {}" using qs(1) av(2) by blast
  qed (use same ents i g(3) in simp_all)
  have "pte_at (mem t) (Suc n) pt va' = pte_at (mem s) (Suc n) pt va'" for va'
    using tr [of va'] pe [of va'] g(8) same [OF i] ents
    by (cases "PX (Suc n) va' = i") (simp_all add: Let_def)
  moreover have "P \<union> Q \<union> set ys = P \<union> set xs" using g(4,5) D sub by blast
  moreover have "(P \<union> Q) \<inter> set ys = {}" using g(5,6) D sub av(2) qs by blast
  moreover have "mem_only s t" by (rule mem_only_trans [OF su(1) g(1)])
  moreover have "only (mem s) (mem t) (P \<union> Q)" by (rule only_mono [OF on]) (use pt in blast)
  ultimately have "grown (Suc n) pt P xs s (P \<union> Q) ys t"
    using g(2) tr by (simp add: grown_def)
  then show ?thesis using same [OF i] ents by (auto simp: Let_def)
qed

lemma walk_full:
  assumes "tree (mem s) (Suc n) pt P" "kmem_avail s []"
    "\<not> valid (load64 (mem s) (pte_addr pt (PX (Suc n) va)))"
  shows "walk_loop (Suc n) pt va True s = Ret (leaf_slot (mem (settle s)) (Suc n) pt va) (settle s) \<and>
    grown (Suc n) pt P [] s P [] (settle s)"
proof -
  have "freelist s = 0" "may_lock L_kmem s"
    using assms(2) by (auto simp: kmem_avail_def kmem_ok_def)
  then have "walk_loop (Suc n) pt va True s = Ret 0 (settle s)"
    using assms(3) by (simp add: load_pte_def kalloc_eq)
  moreover have "leaf_slot (mem s) (Suc n) pt va = 0" using assms(3) by simp
  moreover have "kmem_avail (settle s) []" using assms(2) by (simp add: kmem_avail_def)
  ultimately show ?thesis using assms(1) by (simp add: grown_def)
qed

lemma walk_grows:
  assumes "tree (mem s) n pt P" "kmem_avail s xs" "P \<inter> set xs = {}"
  shows "\<exists>t P' ys. walk_loop n pt va True s = Ret (leaf_slot (mem t) n pt va) t \<and>
    grown n pt P xs s P' ys t \<and> (leaf_slot (mem t) n pt va = 0 \<longrightarrow> ys = [])"
  using assms
proof (induction n arbitrary: pt P s xs)
  case 0
  then have "pte_addr pt (PX 0 va) \<noteq> 0" using slot_nonzero PX_less by auto
  then show ?case using 0 by (auto simp: grown_def intro!: exI [of _ s] exI [of _ P] exI [of _ xs])
next
  case (Suc n)
  obtain C where C: "kids (mem s) n pt P C" using Suc.prems(1) unfolding tree_kids by blast
  let ?i = "PX (Suc n) va"
  let ?e = "load64 (mem s) (pte_addr pt ?i)"
  have root: "pt \<notin> set xs" using kidsD(3) [OF C] Suc.prems(3) by auto
  consider "valid ?e" | "\<not> valid ?e" "xs = []" | x xs' where "\<not> valid ?e" "xs = x # xs'"
    by (cases xs) auto
  then show ?case
  proof cases
    case 1
    have ci: "C ?i \<inter> set xs = {}" using kidsD(8) [OF C PX_less] Suc.prems(3) by blast
    obtain t Q ys where t: "walk_loop n (PTE2PA ?e) va True s = Ret (leaf_slot (mem t) n (PTE2PA ?e) va) t"
        "grown n (PTE2PA ?e) (C ?i) xs s Q ys t" "leaf_slot (mem t) n (PTE2PA ?e) va = 0 \<longrightarrow> ys = []"
      using Suc.IH [OF kidsD(6) [OF C PX_less 1] Suc.prems(2) ci] by blast
    have up: "grown (Suc n) pt P xs s (P \<union> Q) ys t \<and>
        (?i = ?i \<longrightarrow> leaf_slot (mem t) (Suc n) pt va = leaf_slot (mem t) n (PTE2PA ?e) va)"
      by (rule grown_up [OF C PX_less Suc.prems(2,3) _ _ _ _ _ _ _ _ t(2)]) (use 1 in simp_all)
    have "walk_loop (Suc n) pt va True s = walk_loop n (PTE2PA ?e) va True s"
      using 1 by (simp add: load_pte_def)
    then show ?thesis using up t(1,3) by metis
  next
    case 2
    then show ?thesis using walk_full [OF Suc.prems(1)] Suc.prems(2) by blast
  next
    case 3
    let ?f = "\<lambda>pg s. walk_loop n pg va True s"
    obtain u where u: "kbind (kalloc s) (\<lambda>pg s. if pg = 0 then Ret 0 s
           else ?f pg (store_pte (pte_addr pt ?i) (PA2PTE pg OR PTE_V) (zero_page pg s))) = ?f x u"
        "mem_only s u" "kmem_avail u xs'" "only (mem s) (mem u) {pt, x}" "page_aligned x" "x \<noteq> 0"
        "\<forall>j < 512. load64 (mem u) (pte_addr x j) = 0"
        "\<forall>j < 512. load64 (mem u) (pte_addr pt j) =
          (if j = ?i then PA2PTE x OR PTE_V else load64 (mem s) (pte_addr pt j))"
      using walk_alloc_page [of s x xs' pt ?i ?f] Suc.prems(2) kidsD(1) [OF C] root PX_less 3(2) by blast
    have z: "tree (mem u) n x {x}" "\<And>va. pte_at (mem u) n x va = 0" using tree_zero [OF u(5,6)] u(7) by blast+
    have x: "x \<notin> set xs'" using Suc.prems(2) 3(2) by (auto simp: kmem_avail_def kmem_ok_def)
    obtain t Q ys where t: "walk_loop n x va True u = Ret (leaf_slot (mem t) n x va) t"
        "grown n x {x} xs' u Q ys t" "leaf_slot (mem t) n x va = 0 \<longrightarrow> ys = []"
      using Suc.IH [OF z(1) u(3)] x by auto
    have px: "PTE2PA (PA2PTE x OR PTE_V) = x" by (rule PTE2PA_PA2PTE [OF _ u(5)]) (simp add: PTE_V_def)
    have up: "grown (Suc n) pt P xs s (P \<union> Q) ys t \<and>
        (?i = ?i \<longrightarrow> leaf_slot (mem t) (Suc n) pt va = leaf_slot (mem t) n x va)"
      by (rule grown_up [OF C PX_less Suc.prems(2,3) u(2,4) _ _ _ _ _ _ t(2)])
        (use u(8) px PX_less kidsD(7) [OF C PX_less 3(1)] 3 z(2) in auto)
    have "walk_loop (Suc n) pt va True s = walk_loop n x va True u"
      using u(1) 3(1) by (simp add: load_pte_def Let_def cong: if_cong)
    then show ?thesis using up t(1,3) by metis
  qed
qed

section \<open>The map of a whole table\<close>

text \<open>
  \<open>pt_ok s pt P xs\<close>: \<open>pt\<close> is a three-level table over the pages \<open>P\<close>, apart from the free pages
  \<open>xs\<close>.  \<open>ptes s pt\<close> is the abstract content: the entry of every virtual address.
\<close>

definition pt_ok :: "'a kmem_state_scheme \<Rightarrow> uint64 \<Rightarrow> uint64 set \<Rightarrow> uint64 list \<Rightarrow> bool" where
  "pt_ok s pt P xs \<longleftrightarrow> tree (mem s) 2 pt P \<and> kmem_avail s xs \<and> P \<inter> set xs = {}"

definition ptes :: "'a kmem_state_scheme \<Rightarrow> uint64 \<Rightarrow> uint64 \<Rightarrow> uint64" where
  "ptes s pt va = (if va < MAXVA then pte_at (mem s) 2 pt va else 0)"

definition upd_page :: "uint64 \<Rightarrow> uint64 \<Rightarrow> (uint64 \<Rightarrow> uint64) \<Rightarrow> uint64 \<Rightarrow> uint64" where
  "upd_page va v f va' = (if PGROUNDDOWN va' = PGROUNDDOWN va then v else f va')"

lemma PGROUNDDOWN_MAXVA:
  assumes "PGROUNDDOWN va' = PGROUNDDOWN va" "va < MAXVA"
  shows "va' < MAXVA"
proof -
  have m: "unat MAXVA = 4096 * 2 ^ 26" by (simp add: MAXVA_def)
  have d: "unat (PGROUNDDOWN v) = 4096 * (unat v div 4096)" for v
    by (simp add: unat_PGROUNDDOWN minus_mod_eq_mult_div)
  have "unat va div 4096 < 2 ^ 26" using assms(2) m by (simp add: word_less_nat_alt div_less_iff_less_mult)
  moreover have "unat va' div 4096 = unat va div 4096" using assms(1) d by (metis mult_cancel1 zero_neq_numeral)
  ultimately have "unat va' div 4096 < 2 ^ 26" by (simp only:)
  then show ?thesis
    using m div_less_iff_less_mult [of 4096 "unat va'" "2 ^ 26"] by (simp add: word_less_nat_alt)
qed

lemma walk_lookup:
  "va < MAXVA \<Longrightarrow> walk pt va False s = Ret (leaf_slot (mem s) 2 pt va) s"
  by (simp add: walk_def walk_loop_lookup not_le)

lemma load_slot:
  assumes "pt_ok s pt P xs" "va < MAXVA"
  shows "ptes s pt va = (if leaf_slot (mem s) 2 pt va = 0 then 0 else load_pte (leaf_slot (mem s) 2 pt va) s)"
  using assms pte_at_leaf [of "mem s" 2 pt P va] by (simp add: ptes_def load_pte_def pt_ok_def)

text \<open>The table and its map after a store through a slot that \<^verbatim>\<open>walk\<close> returned.\<close>

lemma store_slot:
  assumes ok: "pt_ok s pt P xs" and a: "leaf_slot (mem s) 2 pt va \<noteq> 0" and va: "va < MAXVA"
  shows "pt_ok (store_pte (leaf_slot (mem s) 2 pt va) v s) pt P xs"
    and "ptes (store_pte (leaf_slot (mem s) 2 pt va) v s) pt = upd_page va v (ptes s pt)"
    and "only (mem s) (mem (store_pte (leaf_slot (mem s) 2 pt va) v s)) P"
proof -
  let ?a = "leaf_slot (mem s) 2 pt va"
  let ?t = "store_pte ?a v s"
  have tr: "tree (mem s) 2 pt P" using ok by (simp add: pt_ok_def)
  obtain p where p: "p \<in> P" "?a = pte_addr p (PX 0 va)" using leaf_slot_in [OF tr a] by blast
  have "only (mem s) (store64 (mem s) ?a v) {p}" unfolding p(2) by (rule only_store64 [OF PX_less])
  then show on: "only (mem s) (mem ?t) P" using p(1) by (auto simp: store_pte_def intro: only_mono)
  note st = store_leaf [OF tr a, of v]
  have "kmem_avail (s\<lparr>mem := store64 (mem s) ?a v\<rparr>) xs"
    using ok on tree_aligned [OF tr] by (intro kmem_avail_only [of s xs _ P]) (auto simp: pt_ok_def store_pte_def)
  then show "pt_ok ?t pt P xs" using ok st by (simp add: pt_ok_def store_pte_def)
  show "ptes ?t pt = upd_page va v (ptes s pt)"
  proof
    fix va'
    have three: "(\<forall>l \<le> (2::nat). PX l va' = PX l va) \<longleftrightarrow>
        PX 0 va' = PX 0 va \<and> PX 1 va' = PX 1 va \<and> PX 2 va' = PX 2 va"
      by (auto simp: le_Suc_eq numeral_2_eq_2)
    show "ptes ?t pt va' = upd_page va v (ptes s pt) va'"
    proof (cases "va' < MAXVA")
      case True
      then show ?thesis
        using st [of va'] three same_vpn [OF True va] by (simp add: ptes_def store_pte_def upd_page_def)
    next
      case False
      then show ?thesis using PGROUNDDOWN_MAXVA [OF _ va, of va'] by (auto simp: ptes_def upd_page_def)
    qed
  qed
qed

text \<open>\<^verbatim>\<open>walk\<close> with \<^verbatim>\<open>alloc\<close> set leaves the map alone.\<close>

definition extends ::
  "uint64 set \<Rightarrow> uint64 list \<Rightarrow> 'a kmem_state_scheme \<Rightarrow> uint64 \<Rightarrow> uint64 set \<Rightarrow> uint64 list \<Rightarrow> 'a kmem_state_scheme \<Rightarrow> bool" where
  "extends P xs s pt P' ys t \<longleftrightarrow> mem_only s t \<and> pt_ok t pt P' ys \<and> P \<subseteq> P' \<and> P' \<union> set ys = P \<union> set xs \<and>
     only (mem s) (mem t) P'"

lemma extends_refl: "pt_ok s pt P xs \<Longrightarrow> extends P xs s pt P xs s"
  by (simp add: extends_def)

lemma extends_trans:
  assumes "extends P xs s pt P' ys t" "extends P' ys t pt P'' zs u"
  shows "extends P xs s pt P'' zs u"
  using assms by (auto simp: extends_def intro: mem_only_trans only_trans)

lemma walk_alloc:
  assumes "pt_ok s pt P xs" "va < MAXVA"
  shows "\<exists>t P' ys. walk pt va True s = Ret (leaf_slot (mem t) 2 pt va) t \<and>
    extends P xs s pt P' ys t \<and> ptes t pt = ptes s pt \<and> (leaf_slot (mem t) 2 pt va = 0 \<longrightarrow> ys = [])"
proof -
  have "tree (mem s) 2 pt P" "kmem_avail s xs" "P \<inter> set xs = {}" using assms(1) by (simp_all add: pt_ok_def)
  from walk_grows [OF this, of va] obtain t P' ys where
    t: "walk_loop 2 pt va True s = Ret (leaf_slot (mem t) 2 pt va) t" "grown 2 pt P xs s P' ys t"
      "leaf_slot (mem t) 2 pt va = 0 \<longrightarrow> ys = []" by blast
  note g = grownD [OF t(2)]
  have "walk pt va True s = Ret (leaf_slot (mem t) 2 pt va) t"
    using t(1) assms(2) by (simp add: walk_def not_le)
  moreover have "extends P xs s pt P' ys t" using g by (simp add: extends_def pt_ok_def)
  moreover have "ptes t pt = ptes s pt" using g(8) by (auto simp: ptes_def)
  ultimately show ?thesis using t(3) by blast
qed

section \<open>mappages\<close>

text \<open>The map with \<open>j\<close> pages from \<open>a\<close> on sent to the physical pages from \<open>pa\<close> on.\<close>

definition mapped :: "uint64 \<Rightarrow> uint64 \<Rightarrow> uint64 \<Rightarrow> nat \<Rightarrow> (uint64 \<Rightarrow> uint64) \<Rightarrow> uint64 \<Rightarrow> uint64" where
  "mapped a pa perm j f va =
     (if unat a \<le> unat va \<and> unat va < unat a + 4096 * j
      then PA2PTE (pa + (PGROUNDDOWN va - a)) OR perm OR PTE_V else f va)"

lemma mapped_0 [simp]: "mapped a pa perm 0 f = f"
  by (auto simp: fun_eq_iff mapped_def)

lemma page_of_iff:
  assumes "page_aligned a" "unat a + 4096 \<le> 2 ^ 64"
  shows "PGROUNDDOWN va = a \<longleftrightarrow> unat a \<le> unat va \<and> unat va < unat a + 4096"
proof -
  obtain q where q: "unat a = 4096 * q" using assms(1) by (auto simp: page_aligned_unat mod_eq_0_iff_dvd)
  have "unat (PGROUNDDOWN va) = 4096 * (unat va div 4096)"
    by (simp add: unat_PGROUNDDOWN minus_mod_eq_mult_div)
  then have "PGROUNDDOWN va = a \<longleftrightarrow> unat va div 4096 = q" by (simp add: word_unat_eq_iff q)
  also have "\<dots> \<longleftrightarrow> 4096 * q \<le> unat va \<and> unat va < 4096 * q + 4096"
    using div_nat_eqI [of 4096 q "unat va"] by (metis Suc_eq_plus1 dividend_less_times_div mult.commute
      mult_Suc_right add.commute times_div_less_eq_dividend zero_less_numeral)
  finally show ?thesis by (simp add: q)
qed

lemma mapped_Suc:
  assumes "page_aligned a" "unat a + 4096 * (j + 1) \<le> 2 ^ 64"
  shows "mapped (a + PGSIZE) (pa + PGSIZE) perm j (upd_page a (PA2PTE pa OR perm OR PTE_V) f) =
    mapped a pa perm (Suc j) f"
proof
  fix va
  have pg: "PGROUNDDOWN va = a \<longleftrightarrow> unat a \<le> unat va \<and> unat va < unat a + 4096"
    using assms by (intro page_of_iff) auto
  show "mapped (a + PGSIZE) (pa + PGSIZE) perm j (upd_page a (PA2PTE pa OR perm OR PTE_V) f) va =
    mapped a pa perm (Suc j) f va"
  proof (cases "j = 0")
    case True
    then show ?thesis using pg PGROUNDDOWN_id [OF assms(1)] by (auto simp: mapped_def upd_page_def)
  next
    case False
    then have "unat (a + PGSIZE) = unat a + 4096" using assms(2) by (intro unat_add_PGSIZE) simp
    then show ?thesis using pg PGROUNDDOWN_id [OF assms(1)] by (auto simp: mapped_def upd_page_def)
  qed
qed

lemma mappages_step:
  assumes ok: "pt_ok s pt P xs" and a: "a < MAXVA" and free: "\<not> valid (ptes s pt a)"
  obtains t P' where "walk pt a True s = Ret 0 t" "extends P xs s pt P' [] t" "ptes t pt = ptes s pt"
    | t u P' ys where "walk pt a True s = Ret (leaf_slot (mem t) 2 pt a) t" "leaf_slot (mem t) 2 pt a \<noteq> 0"
      "\<not> valid (load_pte (leaf_slot (mem t) 2 pt a) t)"
      "u = store_pte (leaf_slot (mem t) 2 pt a) v t"
      "extends P xs s pt P' ys u" "ptes u pt = upd_page a v (ptes s pt)"
proof -
  obtain t P' ys where t: "walk pt a True s = Ret (leaf_slot (mem t) 2 pt a) t"
      "extends P xs s pt P' ys t" "ptes t pt = ptes s pt" "leaf_slot (mem t) 2 pt a = 0 \<longrightarrow> ys = []"
    using walk_alloc [OF ok a] by blast
  have okt: "pt_ok t pt P' ys" using t(2) by (simp add: extends_def)
  show thesis
  proof (cases "leaf_slot (mem t) 2 pt a = 0")
    case True
    then show thesis using that(1) t by metis
  next
    case False
    have "\<not> valid (load_pte (leaf_slot (mem t) 2 pt a) t)"
      using load_slot [OF okt a] False t(3) free by simp
    moreover have "extends P' ys t pt P' ys (store_pte (leaf_slot (mem t) 2 pt a) v t)"
      using store_slot [OF okt False a, of v] by (simp add: extends_def store_pte_def)
    ultimately show thesis
      using that(2) t False extends_trans [OF t(2)] store_slot(2) [OF okt False a, of v] by metis
  qed
qed

lemma mappages_next:
  assumes "page_aligned a" "unat a + 4096 * (Suc k + 1) \<le> unat MAXVA" "last_va = a + of_nat (Suc k) * PGSIZE"
  shows "a < MAXVA" "unat (a + PGSIZE) = unat a + 4096" "page_aligned (a + PGSIZE)" "a \<noteq> last_va"
proof -
  show "a < MAXVA" using assms(2) by (simp add: word_less_nat_alt)
  show un: "unat (a + PGSIZE) = unat a + 4096"
    using assms(2) by (intro unat_add_PGSIZE) (simp add: MAXVA_def)
  then show "page_aligned (a + PGSIZE)" using assms(1) by (simp add: page_aligned_unat)
  have "unat (of_nat (Suc k) * PGSIZE) = 4096 * Suc k"
    using assms(2) unat_of_nat64 [of "4096 * Suc k"] by (simp add: MAXVA_def PGSIZE_def mult.commute)
  then show "a \<noteq> last_va" using assms(3) by auto
qed

lemma mappages_loop_spec:
  assumes "pt_ok s pt P xs" "page_aligned a" "unat a + 4096 * (k + 1) \<le> unat MAXVA"
    "last_va = a + of_nat k * PGSIZE"
    "\<And>va. unat a \<le> unat va \<Longrightarrow> unat va < unat a + 4096 * (k + 1) \<Longrightarrow> \<not> valid (ptes s pt va)"
  shows "\<exists>r t P' ys j. mappages_loop pt a last_va pa perm s = Some (Ret r t) \<and>
    extends P xs s pt P' ys t \<and> ptes t pt = mapped a pa perm j (ptes s pt) \<and>
    (r = 0 \<and> j = k + 1 \<or> r = - 1 \<and> j < k + 1 \<and> ys = [])"
  using assms
proof (induction k arbitrary: a pa s P xs)
  case (0 a pa s P xs)
  have m: "a < MAXVA" using "0.prems"(3) by (simp add: word_less_nat_alt)
  have f: "\<not> valid (ptes s pt a)" using "0.prems"(5) [of a] by simp
  show ?case
  proof (rule mappages_step [OF "0.prems"(1) m f, where v = "PA2PTE pa OR perm OR PTE_V"])
    fix t P' assume "walk pt a True s = Ret 0 t" "extends P xs s pt P' [] t" "ptes t pt = ptes s pt"
    then show ?thesis
      by (subst mappages_loop.simps)
        (auto intro!: exI [of _ "- 1"] exI [of _ t] exI [of _ P'] exI [of _ "[]"] exI [of _ 0])
  next
    fix t u P' ys
    assume st: "walk pt a True s = Ret (leaf_slot (mem t) 2 pt a) t" "leaf_slot (mem t) 2 pt a \<noteq> 0"
      "\<not> valid (load_pte (leaf_slot (mem t) 2 pt a) t)"
      "u = store_pte (leaf_slot (mem t) 2 pt a) (PA2PTE pa OR perm OR PTE_V) t"
      "extends P xs s pt P' ys u" "ptes u pt = upd_page a (PA2PTE pa OR perm OR PTE_V) (ptes s pt)"
    have "ptes u pt = mapped a pa perm 1 (ptes s pt)"
      using mapped_Suc [OF "0.prems"(2), of 0 pa perm "ptes s pt"] st(6) "0.prems"(3)
      by (simp add: MAXVA_def)
    then show ?thesis using st "0.prems"(4) by (subst mappages_loop.simps) (auto intro!: exI [of _ 1])
  qed
next
  case (Suc k)
  note nx = mappages_next [OF Suc.prems(2,3,4)] and next_a = mappages_next(2) [OF Suc.prems(2,3,4)]
  have f: "\<not> valid (ptes s pt a)" using Suc.prems(5) [of a] by simp
  show ?case
  proof (rule mappages_step [OF Suc.prems(1) nx(1) f, where v = "PA2PTE pa OR perm OR PTE_V"])
    fix t P' assume "walk pt a True s = Ret 0 t" "extends P xs s pt P' [] t" "ptes t pt = ptes s pt"
    then show ?thesis
      by (subst mappages_loop.simps)
        (auto intro!: exI [of _ "- 1"] exI [of _ t] exI [of _ P'] exI [of _ "[]"] exI [of _ 0])
  next
    fix t u P' ys
    assume st: "walk pt a True s = Ret (leaf_slot (mem t) 2 pt a) t" "leaf_slot (mem t) 2 pt a \<noteq> 0"
      "\<not> valid (load_pte (leaf_slot (mem t) 2 pt a) t)"
      "u = store_pte (leaf_slot (mem t) 2 pt a) (PA2PTE pa OR perm OR PTE_V) t"
      "extends P xs s pt P' ys u" "ptes u pt = upd_page a (PA2PTE pa OR perm OR PTE_V) (ptes s pt)"
    have ok: "pt_ok u pt P' ys" using st(5) by (simp add: extends_def)
    have "\<exists>r v P'' zs j. mappages_loop pt (a + PGSIZE) last_va (pa + PGSIZE) perm u = Some (Ret r v) \<and>
        extends P' ys u pt P'' zs v \<and> ptes v pt = mapped (a + PGSIZE) (pa + PGSIZE) perm j (ptes u pt) \<and>
        (r = 0 \<and> j = k + 1 \<or> r = - 1 \<and> j < k + 1 \<and> zs = [])"
    proof (rule Suc.IH [OF ok nx(3)])
      show "unat (a + PGSIZE) + 4096 * (k + 1) \<le> unat MAXVA" using Suc.prems(3) next_a by simp
      show "last_va = a + PGSIZE + of_nat k * PGSIZE" using Suc.prems(4) by (simp add: algebra_simps)
      fix va :: uint64 assume va: "unat (a + PGSIZE) \<le> unat va" "unat va < unat (a + PGSIZE) + 4096 * (k + 1)"
      have "PGROUNDDOWN va \<noteq> a"
        using page_of_iff [OF Suc.prems(2), of va] va next_a Suc.prems(3) by (simp add: MAXVA_def)
      then show "\<not> valid (ptes u pt va)"
        using Suc.prems(5) [of va] va next_a st(6) PGROUNDDOWN_id [OF Suc.prems(2)] by (simp add: upd_page_def)
    qed
    then obtain r v P'' zs j where v: "mappages_loop pt (a + PGSIZE) last_va (pa + PGSIZE) perm u = Some (Ret r v)"
        "extends P' ys u pt P'' zs v" "ptes v pt = mapped (a + PGSIZE) (pa + PGSIZE) perm j (ptes u pt)"
        "r = 0 \<and> j = k + 1 \<or> r = - 1 \<and> j < k + 1 \<and> zs = []" by blast
    have "ptes v pt = mapped a pa perm (Suc j) (ptes s pt)"
      using mapped_Suc [OF Suc.prems(2), of j pa perm "ptes s pt"] v(3,4) st(6) Suc.prems(3)
      by (auto simp: MAXVA_def)
    moreover have "mappages_loop pt a last_va pa perm s = Some (Ret r v)"
      using st v(1) nx(4) by (subst mappages_loop.simps) simp
    moreover have "extends P xs s pt P'' zs v" by (rule extends_trans [OF st(5) v(2)])
    ultimately show ?thesis
      using v(4) by (intro exI [of _ r] exI [of _ v] exI [of _ P''] exI [of _ zs] exI [of _ "Suc j"]) auto
  qed
qed

lemma mappages_spec:
  assumes "pt_ok s pt P xs" "page_aligned a" "0 < k" "unat a + 4096 * k \<le> unat MAXVA"
    "\<And>va. unat a \<le> unat va \<Longrightarrow> unat va < unat a + 4096 * k \<Longrightarrow> \<not> valid (ptes s pt va)"
  shows "\<exists>r t P' ys j. mappages pt a (of_nat k * PGSIZE) pa perm s = Ret r t \<and>
    extends P xs s pt P' ys t \<and> ptes t pt = mapped a pa perm j (ptes s pt) \<and>
    (r = 0 \<and> j = k \<or> r = - 1 \<and> j < k \<and> ys = [])"
proof -
  obtain k' where k': "k = Suc k'" using assms(3) by (cases k) auto
  let ?sz = "of_nat k * PGSIZE"
  have sz: "unat ?sz = 4096 * k"
    using assms(4) unat_of_nat64 [of "4096 * k"] by (simp add: MAXVA_def PGSIZE_def mult.commute)
  then have "unat ?sz mod unat PGSIZE = 0" by (simp add: PGSIZE_def)
  then have z: "?sz mod PGSIZE = 0" "?sz \<noteq> 0" using sz assms(3)
    by (simp_all add: word_unat_eq_iff unat_mod_distrib)
  have "a mod PGSIZE = 0" using assms(2) by (simp add: page_aligned_def)
  moreover have eq: "a + ?sz - PGSIZE = a + of_nat k' * PGSIZE" by (simp add: k' algebra_simps)
  ultimately have "mappages pt a ?sz pa perm s = or_diverge (mappages_loop pt a (a + of_nat k' * PGSIZE) pa perm s)"
    using z unfolding mappages_def eq by simp
  then show ?thesis
    using mappages_loop_spec [OF assms(1,2), of k' "a + of_nat k' * PGSIZE" pa perm] assms(4,5) k' by fastforce
qed

end
