(* ===== verification/UserSpace.thy ===== *)
theory UserSpace
  imports PageTable
begin

text \<open>
  User address spaces: unmapping, growing and shrinking (\<^verbatim>\<open>uvmunmap\<close>, \<^verbatim>\<open>uvmalloc\<close>,
  \<^verbatim>\<open>uvmdealloc\<close> of \<^verbatim>\<open>kernel/vm.c\<close>), with the pages each of them takes from the free list and
  gives back.
\<close>

unbundle bit_operations_syntax

section \<open>Unmapping\<close>

definition in_span :: "uint64 \<Rightarrow> uint64 \<Rightarrow> nat \<Rightarrow> bool" where
  "in_span va a k \<longleftrightarrow> unat a \<le> unat va \<and> unat va < unat a + 4096 * k"

text \<open>The map after the valid entries of \<open>k\<close> pages from \<open>a\<close> on are cleared.\<close>

definition cleared :: "uint64 \<Rightarrow> nat \<Rightarrow> (uint64 \<Rightarrow> uint64) \<Rightarrow> uint64 \<Rightarrow> uint64" where
  "cleared a k f va = (if in_span va a k \<and> valid (f va) then 0 else f va)"

text \<open>The virtual pages among \<open>k\<close> from \<open>a\<close> on that are mapped, and the physical pages they have.\<close>

definition upages :: "uint64 \<Rightarrow> nat \<Rightarrow> (uint64 \<Rightarrow> uint64) \<Rightarrow> uint64 set" where
  "upages a k f = {va. in_span va a k \<and> page_aligned va \<and> valid (f va)}"

definition leaves :: "uint64 \<Rightarrow> nat \<Rightarrow> (uint64 \<Rightarrow> uint64) \<Rightarrow> uint64 set" where
  "leaves a k f = (\<lambda>va. PTE2PA (f va)) ` upages a k f"

text \<open>
  Those pages are pages of RAM, neither free nor part of the table, and no two virtual pages share
  one.
\<close>

definition leaves_ok :: "'a kmem_state_scheme \<Rightarrow> uint64 set \<Rightarrow> uint64 list \<Rightarrow> uint64 \<Rightarrow> nat \<Rightarrow> (uint64 \<Rightarrow> uint64) \<Rightarrow> bool" where
  "leaves_ok s P xs a k f \<longleftrightarrow>
     (\<forall>va \<in> upages a k f. phys_page s (PTE2PA (f va)) \<and> PTE2PA (f va) \<notin> P \<union> set xs) \<and>
     inj_on (\<lambda>va. PTE2PA (f va)) (upages a k f)"

text \<open>A map that is the same for all addresses of a page.\<close>

definition page_wise :: "(uint64 \<Rightarrow> uint64) \<Rightarrow> bool" where
  "page_wise f \<longleftrightarrow> (\<forall>va. f (PGROUNDDOWN va) = f va)"

lemma page_wise_ptes: "pt_ok s pt P xs \<Longrightarrow> page_wise (ptes s pt)"
proof (unfold page_wise_def, rule allI)
  fix va assume ok: "pt_ok s pt P xs"
  have idem: "PGROUNDDOWN (PGROUNDDOWN va) = PGROUNDDOWN va" by (simp add: PGROUNDDOWN_id)
  show "ptes s pt (PGROUNDDOWN va) = ptes s pt va"
  proof (cases "va < MAXVA")
    case True
    then have lt: "PGROUNDDOWN va < MAXVA" using PGROUNDDOWN_le by (rule order_le_less_trans [rotated])
    have px: "PX 0 (PGROUNDDOWN va) = PX 0 va" "PX (Suc 0) (PGROUNDDOWN va) = PX (Suc 0) va"
        "PX 2 (PGROUNDDOWN va) = PX 2 va" using same_vpn [OF lt True] idem by auto
    then show ?thesis using True lt by (simp add: ptes_def numeral_2_eq_2 Let_def)
  next
    case False
    then have "\<not> PGROUNDDOWN va < MAXVA" using PGROUNDDOWN_MAXVA [of va "PGROUNDDOWN va"] idem by auto
    then show ?thesis using False by (simp add: ptes_def)
  qed
qed

lemma cleared_Suc:
  assumes "page_aligned a" "unat a + 4096 * Suc k \<le> unat MAXVA" "page_wise f"
  shows "cleared (a + PGSIZE) k (if valid (f a) then upd_page a 0 f else f) = cleared a (Suc k) f"
proof
  fix va
  have pg: "PGROUNDDOWN va = a \<longleftrightarrow> unat a \<le> unat va \<and> unat va < unat a + 4096"
    using assms by (intro page_of_iff) (simp_all add: MAXVA_def)
  have un: "unat (a + PGSIZE) = unat a + 4096"
    using assms by (intro unat_add_PGSIZE) (simp add: MAXVA_def)
  have "f va = f a" if "PGROUNDDOWN va = a" using assms(3) that by (metis page_wise_def)
  then show "cleared (a + PGSIZE) k (if valid (f a) then upd_page a 0 f else f) va = cleared a (Suc k) f va"
    using pg un PGROUNDDOWN_id [OF assms(1)] by (auto simp: cleared_def in_span_def upd_page_def)
qed

lemma pt_ok_settle [simp]: "pt_ok (settle s) pt P xs = pt_ok s pt P xs" "ptes (settle s) pt = ptes s pt"
  by (auto simp: pt_ok_def ptes_def kmem_avail_def fun_eq_iff)

text \<open>Returning to the free list a page that is neither free nor in the table.\<close>

lemma kfree_pt:
  assumes ok: "pt_ok s pt P xs" and x: "phys_page s x" "x \<notin> P" "x \<notin> set xs"
  shows "\<exists>t. kfree x s = Ret () t \<and> mem_only s t \<and> pt_ok t pt P (x # xs) \<and> ptes t pt = ptes s pt \<and>
    only (mem s) (mem t) {x} \<and> (\<forall>va. leaf_slot (mem t) 2 pt va = leaf_slot (mem s) 2 pt va)"
proof -
  have tr: "tree (mem s) 2 pt P" "kmem_avail s xs" "P \<inter> set xs = {}" "may_lock L_kmem s" "page_aligned x"
    using ok x(1) by (simp_all add: pt_ok_def kmem_avail_def phys_page_def)
  let ?m = "store64 (memset (mem s) x 1 (unat PGSIZE)) x (freelist s)"
  let ?t = "settle (s\<lparr>mem := ?m, freelist := x\<rparr>)"
  have k: "kfree x s = Ret () ?t" by (rule kfree_eq [OF x(1) tr(4)])
  have "only (memset (mem s) x 1 (unat PGSIZE)) ?m {x}"
    using only_store64 [of 0 _ x] by (simp add: pte_addr_def)
  then have on: "only (mem s) ?m {x}" by (rule only_trans [OF only_memset]) simp_all
  have fr: "tree ?m 2 pt P" "\<And>va. pte_at ?m 2 pt va = pte_at (mem s) 2 pt va"
      "\<And>va. leaf_slot ?m 2 pt va = leaf_slot (mem s) 2 pt va"
    using tree_frame [OF tr(1) on] x(2) tr(5) by auto
  have "kmem_avail ?t (x # xs)" using kmem.free_page [OF tr(2) x(1,3)] k by auto
  then have "pt_ok ?t pt P (x # xs)" using fr(1) tr(3) x(2) by (simp add: pt_ok_def)
  moreover have "ptes ?t pt = ptes s pt" using fr(2) by (auto simp: ptes_def)
  ultimately show ?thesis using k on fr(3) by (intro exI [of _ ?t]) (simp add: mem_only_def)
qed

lemma uvmunmap_one_spec:
  assumes ok: "pt_ok s pt P xs" and a: "a < MAXVA"
    and pg: "do_free \<Longrightarrow> valid (ptes s pt a) \<Longrightarrow>
      phys_page s (PTE2PA (ptes s pt a)) \<and> PTE2PA (ptes s pt a) \<notin> P \<union> set xs"
  defines "F \<equiv> (if do_free \<and> valid (ptes s pt a) then [PTE2PA (ptes s pt a)] else [])"
  shows "\<exists>t. uvmunmap_one pt a do_free s = Ret () t \<and> mem_only s t \<and> pt_ok t pt P (F @ xs) \<and>
    ptes t pt = (if valid (ptes s pt a) then upd_page a 0 (ptes s pt) else ptes s pt) \<and>
    only (mem s) (mem t) (P \<union> set F)"
proof (cases "valid (ptes s pt a)")
  case False
  then show ?thesis
    using ok load_slot [OF ok a] by (auto simp: uvmunmap_one_def walk_lookup [OF a] F_def)
next
  case True
  let ?a = "leaf_slot (mem s) 2 pt a" and ?pa = "PTE2PA (ptes s pt a)"
  have slot: "?a \<noteq> 0" "load_pte ?a s = ptes s pt a" using load_slot [OF ok a] True by (auto split: if_splits)
  show ?thesis
  proof (cases do_free)
    case False
    then show ?thesis
      using True slot store_slot [OF ok slot(1) a, of 0]
      by (auto simp: uvmunmap_one_def walk_lookup [OF a] F_def store_pte_def)
  next
    case free: True
    then obtain u where u: "kfree ?pa s = Ret () u" "mem_only s u" "pt_ok u pt P (?pa # xs)"
        "ptes u pt = ptes s pt" "only (mem s) (mem u) {?pa}" "leaf_slot (mem u) 2 pt a = ?a"
      using kfree_pt [OF ok, of ?pa] pg True by auto
    have run: "uvmunmap_one pt a do_free s = Ret () (store_pte ?a 0 u)"
      using True free slot u(1) by (simp add: uvmunmap_one_def walk_lookup [OF a])
    note st = store_slot [OF u(3) _ a, of 0, unfolded u(4,6), OF slot(1)]
    have "only (mem s) (mem (store_pte ?a 0 u)) (P \<union> {?pa})" by (rule only_trans [OF u(5) st(3)]) auto
    moreover have "mem_only s (store_pte ?a 0 u)"
      by (rule mem_only_trans [OF u(2)]) (simp add: store_pte_def)
    moreover have "F = [?pa]" using True free by (simp add: F_def)
    ultimately show ?thesis
      using st(1,2) True by (intro exI [of _ "store_pte ?a 0 u"]) (simp add: run)
  qed
qed

lemma span_Suc:
  assumes "page_aligned a" "unat a + 4096 * Suc k \<le> unat MAXVA"
  shows "in_span va a (Suc k) \<longleftrightarrow> PGROUNDDOWN va = a \<or> in_span va (a + PGSIZE) k"
    "in_span va (a + PGSIZE) k \<Longrightarrow> PGROUNDDOWN va \<noteq> a"
proof -
  have pg: "PGROUNDDOWN va = a \<longleftrightarrow> unat a \<le> unat va \<and> unat va < unat a + 4096"
    using assms by (intro page_of_iff) (simp_all add: MAXVA_def)
  have un: "unat (a + PGSIZE) = unat a + 4096"
    using assms by (intro unat_add_PGSIZE) (simp add: MAXVA_def)
  show "in_span va a (Suc k) \<longleftrightarrow> PGROUNDDOWN va = a \<or> in_span va (a + PGSIZE) k"
    "in_span va (a + PGSIZE) k \<Longrightarrow> PGROUNDDOWN va \<noteq> a"
    using pg un by (auto simp: in_span_def)
qed

lemma upages_Suc:
  assumes "page_aligned a" "unat a + 4096 * Suc k \<le> unat MAXVA"
    "\<forall>va. PGROUNDDOWN va \<noteq> a \<longrightarrow> g va = f va"
  shows "upages a (Suc k) f = (if valid (f a) then {a} else {}) \<union> upages (a + PGSIZE) k g"
    "a \<notin> upages (a + PGSIZE) k g" "va \<in> upages (a + PGSIZE) k g \<Longrightarrow> g va = f va"
proof -
  have s: "in_span va a (Suc k) \<and> page_aligned va \<longleftrightarrow> va = a \<or> in_span va (a + PGSIZE) k \<and> page_aligned va" for va
    using span_Suc(1) [OF assms(1,2), of va] assms(1) PGROUNDDOWN_id by metis
  have g: "g va = f va" "va \<noteq> a" if "in_span va (a + PGSIZE) k" for va
    using span_Suc(2) [OF assms(1,2) that] assms(3) assms(1) PGROUNDDOWN_id by auto
  show "upages a (Suc k) f = (if valid (f a) then {a} else {}) \<union> upages (a + PGSIZE) k g"
    using s g by (force simp: upages_def)
  show "a \<notin> upages (a + PGSIZE) k g" "va \<in> upages (a + PGSIZE) k g \<Longrightarrow> g va = f va"
    using g by (auto simp: upages_def)
qed

lemma leaves_Suc:
  assumes "page_aligned a" "unat a + 4096 * Suc k \<le> unat MAXVA"
    "\<forall>va. PGROUNDDOWN va \<noteq> a \<longrightarrow> g va = f va"
  shows "leaves a (Suc k) f = (if valid (f a) then {PTE2PA (f a)} else {}) \<union> leaves (a + PGSIZE) k g"
proof -
  have "(\<lambda>va. PTE2PA (f va)) ` upages (a + PGSIZE) k g = (\<lambda>va. PTE2PA (g va)) ` upages (a + PGSIZE) k g"
    using upages_Suc(3) [OF assms] by (intro image_cong) simp_all
  then show ?thesis unfolding leaves_def upages_Suc(1) [OF assms] image_Un by simp
qed

lemma leaves_ok_Suc:
  assumes "page_aligned a" "unat a + 4096 * Suc k \<le> unat MAXVA"
    "\<forall>va. PGROUNDDOWN va \<noteq> a \<longrightarrow> g va = f va"
    and ok: "leaves_ok s P xs a (Suc k) f" and "phys_page t = phys_page s"
  shows "leaves_ok t P ((if valid (f a) then [PTE2PA (f a)] else []) @ xs) (a + PGSIZE) k g"
proof -
  note u = upages_Suc [OF assms(1-3)]
  have "inj_on (\<lambda>va. PTE2PA (f va)) (upages (a + PGSIZE) k g)"
    using ok inj_on_subset unfolding leaves_ok_def u(1) by blast
  then have "inj_on (\<lambda>va. PTE2PA (g va)) (upages (a + PGSIZE) k g)"
    using u(3) by (simp cong: inj_on_cong)
  moreover have "phys_page t (PTE2PA (g va)) \<and>
      PTE2PA (g va) \<notin> P \<union> set ((if valid (f a) then [PTE2PA (f a)] else []) @ xs)"
    if va: "va \<in> upages (a + PGSIZE) k g" for va
  proof -
    have "PTE2PA (f va) \<noteq> PTE2PA (f a)" if "valid (f a)"
      using ok va u(2) that unfolding leaves_ok_def u(1) by (force simp: image_iff)
    then show ?thesis
      using ok va u(3) [OF va] unfolding leaves_ok_def u(1) assms(5) by auto
  qed
  ultimately show ?thesis by (simp add: leaves_ok_def)
qed

lemma mem_only_phys: "mem_only s t \<Longrightarrow> phys_page t = phys_page s"
proof -
  assume "mem_only s t"
  then have "end_sym (settle t) = end_sym (settle (s\<lparr>mem := mem t, freelist := freelist t\<rparr>))"
    by (simp only: mem_only_def)
  then show ?thesis by (simp add: fun_eq_iff phys_page_def)
qed

lemma uvmunmap_loop_spec:
  assumes "pt_ok s pt P xs" "page_aligned a" "unat a + 4096 * k \<le> unat MAXVA"
    "end_va = a + of_nat k * PGSIZE" "do_free \<Longrightarrow> leaves_ok s P xs a k (ptes s pt)"
  shows "\<exists>t F. uvmunmap_loop pt a end_va do_free s = Some (Ret () t) \<and> mem_only s t \<and>
    pt_ok t pt P (F @ xs) \<and> set F = (if do_free then leaves a k (ptes s pt) else {}) \<and>
    ptes t pt = cleared a k (ptes s pt) \<and> only (mem s) (mem t) (P \<union> set F)"
  using assms
proof (induction k arbitrary: a s xs)
  case (0 a s xs)
  have "leaves a 0 f = {}" "cleared a 0 f = f" for f
    by (auto simp: leaves_def upages_def cleared_def in_span_def fun_eq_iff)
  then show ?case using 0 by (subst uvmunmap_loop.simps) (auto intro!: exI [of _ s] exI [of _ "[]"])
next
  case (Suc k a s xs)
  let ?f = "ptes s pt"
  have a: "a < MAXVA" using Suc.prems(3) by (simp add: word_less_nat_alt)
  have un: "unat (a + PGSIZE) = unat a + 4096"
    using Suc.prems(3) by (intro unat_add_PGSIZE) (simp add: MAXVA_def)
  have "unat (of_nat (Suc k) * PGSIZE) = 4096 * Suc k"
    using Suc.prems(3) unat_of_nat64 [of "4096 * Suc k"] by (simp add: MAXVA_def PGSIZE_def mult.commute)
  then have lt: "a < end_va"
    using Suc.prems(3,4) by (simp add: word_less_nat_alt unat_word_ariths MAXVA_def)
  define F1 where "F1 = (if do_free \<and> valid (?f a) then [PTE2PA (?f a)] else [])"
  have "a \<in> upages a (Suc k) ?f" if "valid (?f a)"
    using that Suc.prems(2) by (simp add: upages_def in_span_def)
  then obtain u where u: "uvmunmap_one pt a do_free s = Ret () u" "mem_only s u" "pt_ok u pt P (F1 @ xs)"
      "ptes u pt = (if valid (?f a) then upd_page a 0 ?f else ?f)" "only (mem s) (mem u) (P \<union> set F1)"
    using uvmunmap_one_spec [OF Suc.prems(1) a, of do_free] Suc.prems(5)
    unfolding leaves_ok_def F1_def by blast
  have g: "\<forall>va. PGROUNDDOWN va \<noteq> a \<longrightarrow> ptes u pt va = ?f va"
    using u(4) PGROUNDDOWN_id [OF Suc.prems(2)] by (simp add: upd_page_def)
  have al: "page_aligned (a + PGSIZE)" using Suc.prems(2) by (simp add: page_aligned_unat un)
  have bd: "unat (a + PGSIZE) + 4096 * k \<le> unat MAXVA" using Suc.prems(3) un by simp
  have en: "end_va = a + PGSIZE + of_nat k * PGSIZE" using Suc.prems(4) by (simp add: algebra_simps)
  have lo: "leaves_ok u P (F1 @ xs) (a + PGSIZE) k (ptes u pt)" if do_free
    using leaves_ok_Suc [OF Suc.prems(2,3) g Suc.prems(5) mem_only_phys [OF u(2)]] that by (simp add: F1_def)
  obtain t F2 where t: "uvmunmap_loop pt (a + PGSIZE) end_va do_free u = Some (Ret () t)" "mem_only u t"
      "pt_ok t pt P (F2 @ F1 @ xs)" "set F2 = (if do_free then leaves (a + PGSIZE) k (ptes u pt) else {})"
      "ptes t pt = cleared (a + PGSIZE) k (ptes u pt)" "only (mem u) (mem t) (P \<union> set F2)"
    using Suc.IH [OF u(3) al bd en lo] by blast
  have "set (F2 @ F1) = (if do_free then leaves a (Suc k) ?f else {})"
    using t(4) leaves_Suc [OF Suc.prems(2,3) g] by (auto simp: F1_def)
  moreover have "ptes t pt = cleared a (Suc k) ?f"
    using t(5) u(4) cleared_Suc [OF Suc.prems(2,3) page_wise_ptes [OF Suc.prems(1)]] by simp
  moreover have "only (mem s) (mem t) (P \<union> set (F2 @ F1))" by (rule only_trans [OF u(5) t(6)]) auto
  moreover have "uvmunmap_loop pt a end_va do_free s = Some (Ret () t)"
    using u(1) t(1) lt by (subst uvmunmap_loop.simps) simp
  ultimately show ?case
    using mem_only_trans [OF u(2) t(2)] t(3) by (intro exI [of _ t] exI [of _ "F2 @ F1"]) simp
qed

lemma uvmunmap_spec:
  assumes "pt_ok s pt P xs" "page_aligned a" "unat a + 4096 * k \<le> unat MAXVA"
    "do_free \<Longrightarrow> leaves_ok s P xs a k (ptes s pt)"
  shows "\<exists>t F. uvmunmap pt a (of_nat k) do_free s = Ret () t \<and> mem_only s t \<and>
    pt_ok t pt P (F @ xs) \<and> set F = (if do_free then leaves a k (ptes s pt) else {}) \<and>
    ptes t pt = cleared a k (ptes s pt) \<and> only (mem s) (mem t) (P \<union> set F)"
  using uvmunmap_loop_spec [OF assms(1-3) refl assms(4)] assms(2)
  by (fastforce simp: uvmunmap_def page_aligned_def)

section \<open>Shrinking\<close>

lemma PGROUNDUP_props:
  assumes "unat sz \<le> unat MAXVA"
  shows "page_aligned (PGROUNDUP sz)" "unat (PGROUNDUP sz) = 4096 * ((unat sz + 4095) div 4096)"
    "unat sz \<le> unat (PGROUNDUP sz)" "unat (PGROUNDUP sz) < unat sz + 4096" "unat (PGROUNDUP sz) \<le> unat MAXVA"
proof -
  have m: "unat MAXVA = 4096 * 67108864" by (simp add: MAXVA_def)
  show up: "unat (PGROUNDUP sz) = 4096 * ((unat sz + 4095) div 4096)"
    using unat_PGROUNDUP [of sz] assms m by (simp add: minus_mod_eq_mult_div)
  then show "page_aligned (PGROUNDUP sz)" by (simp add: page_aligned_unat)
  have "4096 * ((unat sz + 4095) div 4096) = (unat sz + 4095) - (unat sz + 4095) mod 4096"
    by (simp add: minus_mod_eq_mult_div)
  moreover have "(unat sz + 4095) mod 4096 < 4096" by simp
  ultimately show "unat sz \<le> unat (PGROUNDUP sz)" "unat (PGROUNDUP sz) < unat sz + 4096"
    using up by linarith+
  have "(unat sz + 4095) div 4096 < 67108865" using assms m by (simp add: div_less_iff_less_mult)
  then show "unat (PGROUNDUP sz) \<le> unat MAXVA" using up m by simp
qed

text \<open>The pages from the end of \<open>newsz\<close> to the end of \<open>oldsz\<close>.\<close>

definition npages :: "uint64 \<Rightarrow> uint64 \<Rightarrow> nat" where
  "npages newsz oldsz = (unat (PGROUNDUP oldsz) - unat (PGROUNDUP newsz)) div 4096"

lemma npages_mult:
  assumes "unat newsz \<le> unat oldsz" "unat oldsz \<le> unat MAXVA"
  shows "unat (PGROUNDUP newsz) + 4096 * npages newsz oldsz = unat (PGROUNDUP oldsz)"
proof -
  have a: "unat (PGROUNDUP oldsz) = 4096 * ((unat oldsz + 4095) div 4096)"
      "unat (PGROUNDUP newsz) = 4096 * ((unat newsz + 4095) div 4096)"
    using PGROUNDUP_props(2) assms by simp_all
  have "(unat newsz + 4095) div 4096 \<le> (unat oldsz + 4095) div 4096" using assms(1) by (simp add: div_le_mono)
  then show ?thesis unfolding npages_def a by (simp flip: diff_mult_distrib2)
qed

lemma uvmdealloc_spec:
  assumes ok: "pt_ok s pt P xs" and sz: "unat newsz \<le> unat oldsz" "unat oldsz \<le> unat MAXVA"
    and lo: "leaves_ok s P xs (PGROUNDUP newsz) (npages newsz oldsz) (ptes s pt)"
  shows "\<exists>t F. uvmdealloc pt oldsz newsz s = Ret newsz t \<and> mem_only s t \<and> pt_ok t pt P (F @ xs) \<and>
    set F = leaves (PGROUNDUP newsz) (npages newsz oldsz) (ptes s pt) \<and>
    ptes t pt = cleared (PGROUNDUP newsz) (npages newsz oldsz) (ptes s pt) \<and>
    only (mem s) (mem t) (P \<union> set F)"
proof (cases "PGROUNDUP newsz < PGROUNDUP oldsz")
  case False
  then have "unat (PGROUNDUP oldsz) \<le> unat (PGROUNDUP newsz)" by (simp add: word_less_nat_alt)
  then have z: "npages newsz oldsz = 0" by (simp add: npages_def)
  have "uvmdealloc pt oldsz newsz s = Ret newsz s"
    using False sz by (auto simp: uvmdealloc_def word_le_nat_alt word_unat_eq_iff)
  moreover have "leaves a 0 f = {}" "cleared a 0 f = f" for a f
    by (auto simp: leaves_def upages_def cleared_def in_span_def fun_eq_iff)
  ultimately show ?thesis using ok z by (intro exI [of _ s] exI [of _ "[]"]) simp
next
  case True
  let ?a = "PGROUNDUP newsz" and ?k = "npages newsz oldsz"
  have m: "unat ?a + 4096 * ?k = unat (PGROUNDUP oldsz)" by (rule npages_mult [OF sz])
  have bd: "unat ?a + 4096 * ?k \<le> unat MAXVA" using m PGROUNDUP_props(5) [OF sz(2)] by simp
  then have k: "?k < 2 ^ 31" by (simp add: MAXVA_def)
  have "unat (PGROUNDUP oldsz - ?a) = 4096 * ?k" using m True by (simp add: unat_sub word_less_nat_alt word_le_nat_alt)
  then have d: "(PGROUNDUP oldsz - ?a) div PGSIZE = of_nat ?k"
    using k by (simp add: word_unat_eq_iff unat_div_distrib PGSIZE_def unat_of_nat64)
  have "to_int (of_nat ?k) = int ?k"
    using k by (rule to_int_of_nat)
  then have c: "of_cint (to_int ((PGROUNDUP oldsz - ?a) div PGSIZE)) = of_nat ?k" by (simp add: d of_cint_def)
  have "\<not> oldsz \<le> newsz" using True sz(1) by (metis word_le_nat_alt antisym less_irrefl word_unat_eq_iff)
  then have "uvmdealloc pt oldsz newsz s = kbind (uvmunmap pt ?a (of_nat ?k) True s) (\<lambda>_ s. Ret newsz s)"
    using True c by (simp add: uvmdealloc_def Let_def)
  then show ?thesis
    using uvmunmap_spec [OF ok PGROUNDUP_props(1) bd, of True] sz lo by auto
qed

section \<open>Growing\<close>

text \<open>Taking a page from the free list and clearing it leaves a table and its map alone.\<close>

lemma kalloc_pt:
  assumes ok: "pt_ok s pt P (x # xs)"
  shows "\<exists>t. kalloc s = Ret x t \<and> mem_only s (zero_page x t) \<and> pt_ok (zero_page x t) pt P xs \<and>
    ptes (zero_page x t) pt = ptes s pt \<and> only (mem s) (mem (zero_page x t)) {x} \<and>
    (\<forall>y. in_page y x \<longrightarrow> mem (zero_page x t) y = 0)"
proof -
  have av: "kmem_avail s (x # xs)" and tr: "tree (mem s) 2 pt P" and dis: "P \<inter> set (x # xs) = {}"
    using ok by (simp_all add: pt_ok_def)
  have x: "page_aligned x" "x \<notin> set xs" "freelist s = x" "x \<noteq> 0" "may_lock L_kmem s"
    using av by (auto simp: kmem_avail_def kmem_ok_def phys_page_def)
  let ?m = "memset (memset (mem s) x 5 (unat PGSIZE)) x 0 (unat PGSIZE)"
  let ?t = "settle (s\<lparr>freelist := load64 (mem s) x, mem := memset (mem s) x 5 (unat PGSIZE)\<rparr>)"
  have k: "kalloc s = Ret x ?t" using kalloc_eq [OF x(5)] x(3,4) by simp
  then have avt: "kmem_avail ?t xs" using kalloc_avail [OF av] by auto
  have on: "only (mem s) ?m {x}" by (rule only_trans [OF only_memset [of "mem s" x 5] only_memset]) simp_all
  have "kmem_avail (?t\<lparr>mem := ?m\<rparr>) xs"
    using x by (intro kmem_avail_only [OF avt, of _ "{x}"]) (simp_all add: only_memset)
  then have av2: "kmem_avail (zero_page x ?t) xs" by (simp add: zero_page_def)
  have fr: "tree ?m 2 pt P" "\<And>va. pte_at ?m 2 pt va = pte_at (mem s) 2 pt va"
    using tree_frame [OF tr on] x(1) dis by auto
  have mz: "mem (zero_page x ?t) = ?m" by (simp add: zero_page_def)
  have "mem_only s (zero_page x ?t)" by (simp add: mem_only_def zero_page_def freelist_mem)
  moreover have "pt_ok (zero_page x ?t) pt P xs" using av2 fr(1) dis mz by (simp add: pt_ok_def)
  moreover have "ptes (zero_page x ?t) pt = ptes s pt" using fr(2) mz by (auto simp: ptes_def)
  moreover have "\<forall>y. in_page y x \<longrightarrow> ?m y = 0" by (simp add: memset_apply PGSIZE_def)
  ultimately show ?thesis using k on mz by (intro exI [of _ ?t]) simp
qed

lemma kalloc_pt_none: "pt_ok s pt P [] \<Longrightarrow> kalloc s = Ret 0 (settle s)"
  by (simp add: pt_ok_def kmem_avail_def kmem_ok_def kalloc_eq)

text \<open>
  \<open>j\<close> pages from \<open>a\<close> on have been mapped to the fresh zeroed pages \<open>D 0\<close>, \dots, \<open>D (j - 1)\<close>;
  pages in the table, free pages and fresh pages together are those there were.
\<close>

definition filled ::
  "'a kmem_state_scheme \<Rightarrow> uint64 set \<Rightarrow> uint64 list \<Rightarrow> uint64 \<Rightarrow> uint64 \<Rightarrow> uint64 \<Rightarrow> nat \<Rightarrow> (nat \<Rightarrow> uint64) \<Rightarrow>
    'a kmem_state_scheme \<Rightarrow> uint64 set \<Rightarrow> uint64 list \<Rightarrow> bool" where
  "filled s P xs pt a flags j D t P' ys \<longleftrightarrow> mem_only s t \<and> pt_ok t pt P' ys \<and> P \<subseteq> P' \<and>
     P' \<union> set ys \<union> D ` {..<j} = P \<union> set xs \<and> D ` {..<j} \<inter> (P' \<union> set ys) = {} \<and> inj_on D {..<j} \<and>
     D ` {..<j} \<subseteq> set xs \<and>
     (\<forall>va. ptes t pt va = (if in_span va a j then PA2PTE (D ((unat va - unat a) div 4096)) OR flags OR PTE_V
                           else ptes s pt va)) \<and>
     (\<forall>i < j. \<forall>y. in_page y (D i) \<longrightarrow> mem t y = 0) \<and> only (mem s) (mem t) (P \<union> set xs)"

lemma filled_0: "pt_ok s pt P xs \<Longrightarrow> filled s P xs pt a flags 0 D s P xs"
  by (auto simp: filled_def in_span_def)

lemma in_span_split:
  assumes "page_aligned a" "unat a + 4096 * Suc j \<le> unat MAXVA"
  shows "in_span va a (Suc j) \<longleftrightarrow> in_span va a j \<or> PGROUNDDOWN va = a + of_nat j * PGSIZE"
    "PGROUNDDOWN va = a + of_nat j * PGSIZE \<Longrightarrow> (unat va - unat a) div 4096 = j \<and> \<not> in_span va a j"
    "in_span va a j \<Longrightarrow> (unat va - unat a) div 4096 < j"
    "unat (a + of_nat j * PGSIZE) = unat a + 4096 * j" "page_aligned (a + of_nat j * PGSIZE)"
proof -
  have "unat (of_nat j * PGSIZE) = 4096 * j"
    using assms(2) unat_of_nat64 [of "4096 * j"] by (simp add: MAXVA_def PGSIZE_def mult.commute)
  then show un: "unat (a + of_nat j * PGSIZE) = unat a + 4096 * j"
    using assms(2) by (simp add: unat_word_ariths MAXVA_def)
  then show al: "page_aligned (a + of_nat j * PGSIZE)" using assms(1) by (simp add: page_aligned_unat)
  have pg: "PGROUNDDOWN va = a + of_nat j * PGSIZE \<longleftrightarrow> unat a + 4096 * j \<le> unat va \<and> unat va < unat a + 4096 * j + 4096"
    using page_of_iff [OF al, of va] assms(2) un by (simp add: MAXVA_def)
  then show "in_span va a (Suc j) \<longleftrightarrow> in_span va a j \<or> PGROUNDDOWN va = a + of_nat j * PGSIZE"
    by (auto simp: in_span_def)
  show "in_span va a j \<Longrightarrow> (unat va - unat a) div 4096 < j"
    by (simp add: in_span_def div_less_iff_less_mult less_diff_conv2 mult.commute)
  assume "PGROUNDDOWN va = a + of_nat j * PGSIZE"
  then have "4096 * j \<le> unat va - unat a" "unat va - unat a < 4096 * Suc j" "unat a + 4096 * j \<le> unat va"
    using pg by auto
  then show "(unat va - unat a) div 4096 = j \<and> \<not> in_span va a j"
    by (auto simp: in_span_def intro: div_nat_eqI)
qed

lemma filledD:
  assumes "filled s P xs pt a flags j D t P' ys"
  shows "mem_only s t" "pt_ok t pt P' ys" "P \<subseteq> P'" "P' \<union> set ys \<union> D ` {..<j} = P \<union> set xs"
    "D ` {..<j} \<inter> (P' \<union> set ys) = {}" "inj_on D {..<j}" "D ` {..<j} \<subseteq> set xs"
    "ptes t pt va = (if in_span va a j then PA2PTE (D ((unat va - unat a) div 4096)) OR flags OR PTE_V
       else ptes s pt va)"
    "\<forall>i < j. \<forall>y. in_page y (D i) \<longrightarrow> mem t y = 0" "only (mem s) (mem t) (P \<union> set xs)"
  using assms unfolding filled_def by blast+

lemma pt_ok_aligned: "pt_ok s pt P xs \<Longrightarrow> p \<in> P \<union> set xs \<Longrightarrow> page_aligned p"
  using tree_aligned avail_aligned by (auto simp: pt_ok_def)

text \<open>
  How the state changes under a filled span: the table may grow by free pages, a free page
  may be cleared, none of the data pages is touched.
\<close>

lemma filled_mono:
  assumes f: "filled s P xs pt a flags j D t P' ys" and ok: "pt_ok s pt P xs"
    and u: "mem_only t u" "pt_ok u pt Q zs" "P' \<subseteq> Q" "Q \<union> set zs = P' \<union> set ys" "ptes u pt = ptes t pt"
      "only (mem t) (mem u) S" "S \<subseteq> Q \<union> set zs"
  shows "filled s P xs pt a flags j D u Q zs"
proof -
  note d = filledD [OF f]
  have al: "page_aligned p" if "p \<in> P \<union> set xs" for p by (rule pt_ok_aligned [OF ok that])
  have sub: "S \<subseteq> P \<union> set xs" using u(4,7) d(4) by blast
  have "mem u y = 0" if i: "i < j" "in_page y (D i)" for i y
  proof -
    have "D i \<in> D ` {..<j}" using i(1) by blast
    then have "D i \<notin> S" "D i \<in> P \<union> set xs" using d(5,7) u(4,7) by blast+
    then have "mem u y = mem t y" using al sub i(2) by (intro only_page [OF u(6)]) auto
    then show ?thesis using d(9) i by simp
  qed
  then have zero: "\<forall>i < j. \<forall>y. in_page y (D i) \<longrightarrow> mem u y = 0" by blast
  have pe: "\<forall>va. ptes u pt va = (if in_span va a j then PA2PTE (D ((unat va - unat a) div 4096)) OR flags OR PTE_V
      else ptes s pt va)" using d(8) u(5) by simp
  have "only (mem s) (mem u) (P \<union> set xs)" by (rule only_trans [OF d(10) u(6)]) (use sub in simp_all)
  then show ?thesis
    unfolding filled_def using d(3-7) u(2-4) mem_only_trans [OF d(1) u(1)] zero pe by blast
qed

lemma map_one_page:
  assumes ok: "pt_ok t pt P (x # ys)" and b: "page_aligned b" "unat b + 4096 \<le> unat MAXVA"
    and z: "\<forall>va. PGROUNDDOWN va = b \<longrightarrow> \<not> valid (ptes t pt va)"
  obtains u v P' zs where "kalloc t = Ret x u" "mappages pt b PGSIZE x flags (zero_page x u) = Ret 0 v"
      "mem_only t v" "pt_ok v pt P' zs" "P \<subseteq> P'" "P' \<union> set zs = P \<union> set ys"
      "ptes v pt = upd_page b (PA2PTE x OR flags OR PTE_V) (ptes t pt)"
      "only (mem t) (mem v) (P' \<union> {x})" "\<forall>y. in_page y x \<longrightarrow> mem v y = 0"
    | u v P' where "kalloc t = Ret x u" "mappages pt b PGSIZE x flags (zero_page x u) = Ret (- 1) v"
      "mem_only t v" "pt_ok v pt P' []" "P \<subseteq> P'" "P' = P \<union> set ys" "ptes v pt = ptes t pt"
      "only (mem t) (mem v) (P' \<union> {x})"
proof -
  obtain u where u: "kalloc t = Ret x u" "mem_only t (zero_page x u)" "pt_ok (zero_page x u) pt P ys"
      "ptes (zero_page x u) pt = ptes t pt" "only (mem t) (mem (zero_page x u)) {x}"
      "\<forall>y. in_page y x \<longrightarrow> mem (zero_page x u) y = 0"
    using kalloc_pt [OF ok] by blast
  have "\<not> valid (ptes (zero_page x u) pt va)" if "unat b \<le> unat va" "unat va < unat b + 4096 * 1" for va
    using page_of_iff [OF b(1), of va] that z u(4) b(2) by (simp add: MAXVA_def)
  from mappages_spec [OF u(3) b(1), of 1 x flags, OF _ _ this] b(2) obtain r v P' zs j where
    v: "mappages pt b PGSIZE x flags (zero_page x u) = Ret r v" "extends P ys (zero_page x u) pt P' zs v"
      "ptes v pt = mapped b x flags j (ptes (zero_page x u) pt)" "r = 0 \<and> j = 1 \<or> r = - 1 \<and> j < 1 \<and> zs = []"
    by auto
  note e = v(2) [unfolded extends_def]
  have mo: "mem_only t v" using mem_only_trans [OF u(2)] e by blast
  have x: "x \<notin> P" "x \<notin> set ys" "page_aligned x"
    using ok by (auto simp: pt_ok_def kmem_avail_def kmem_ok_def phys_page_def)
  then have xP: "x \<notin> P'" using e by blast
  have on: "only (mem t) (mem v) (P' \<union> {x})" by (rule only_trans [OF u(5)]) (use e in auto)
  have "mem v y = 0" if "in_page y x" for y
    using only_page [of "mem (zero_page x u)" "mem v" P' x y] e x(3) xP that u(6) pt_ok_aligned [of v pt P' zs] by auto
  moreover have "mapped b x flags 1 (ptes t pt) = upd_page b (PA2PTE x OR flags OR PTE_V) (ptes t pt)"
    using mapped_Suc [OF b(1), of 0 x flags "ptes t pt"] b(2) by (simp add: MAXVA_def)
  ultimately show thesis
    using that u(1) v e mo on u(4) by (cases "r = 0") auto
qed

lemma filled_Suc:
  assumes f: "filled s P xs pt a flags j D t P' (x # ys)" and ok: "pt_ok s pt P xs"
    and a: "page_aligned a" "unat a + 4096 * Suc j \<le> unat MAXVA"
    and v: "mem_only t v" "pt_ok v pt Q zs" "P' \<subseteq> Q" "Q \<union> set zs = P' \<union> set ys"
      "ptes v pt = upd_page (a + of_nat j * PGSIZE) (PA2PTE x OR flags OR PTE_V) (ptes t pt)"
      "only (mem t) (mem v) (Q \<union> {x})" "\<forall>y. in_page y x \<longrightarrow> mem v y = 0"
  shows "filled s P xs pt a flags (Suc j) (D(j := x)) v Q zs"
proof -
  note d = filledD [OF f] and sp = in_span_split [OF a]
  have x: "x \<notin> P'" "x \<notin> set ys" "x \<in> set xs" "x \<notin> D ` {..<j}"
    using d(2,3,4,5) by (auto simp: pt_ok_def kmem_avail_def kmem_ok_def)
  have im: "(D(j := x)) ` {..<Suc j} = insert x (D ` {..<j})" by (auto simp: lessThan_Suc image_def)
  have al: "page_aligned p" if "p \<in> P \<union> set xs" for p by (rule pt_ok_aligned [OF ok that])
  have sub: "Q \<union> {x} \<subseteq> P \<union> set xs" using v(4) d(4) x(3) by auto
  have "mem v y = 0" if i: "i < Suc j" "in_page y ((D(j := x)) i)" for i y
  proof (cases "i = j")
    case False
    then have "D i \<in> D ` {..<j}" using i(1) by simp
    then have "D i \<notin> Q \<union> {x}" "D i \<in> P \<union> set xs" using d(5,7) v(4) x(4) by auto
    then have "mem v y = mem t y" using al sub i(2) False by (intro only_page [OF v(6)]) auto
    moreover have "i < j" using i(1) False by simp
    ultimately show ?thesis using d(9) i(2) False by simp
  qed (use v(7) i in simp)
  moreover have "ptes v pt va = (if in_span va a (Suc j)
      then PA2PTE ((D(j := x)) ((unat va - unat a) div 4096)) OR flags OR PTE_V else ptes s pt va)" for va
    using v(5) sp(1-3) [of va] d(8) [of va] PGROUNDDOWN_id [OF sp(5)] by (auto simp: upd_page_def)
  moreover have "inj_on (D(j := x)) {..<Suc j}"
    using d(6) x(4) by (auto simp: inj_on_def lessThan_Suc)
  moreover have "only (mem s) (mem v) (P \<union> set xs)" by (rule only_trans [OF d(10) v(6)]) (use sub in simp_all)
  moreover have "Q \<union> set zs \<union> insert x (D ` {..<j}) = P \<union> set xs" using v(4) d(4) by auto
  moreover have "insert x (D ` {..<j}) \<inter> (Q \<union> set zs) = {}" using v(4) d(5) x by auto
  ultimately show ?thesis
    unfolding filled_def im using mem_only_trans [OF d(1) v(1)] v(2,3) d(3,7) x(3) by blast
qed

lemma filled_step:
  assumes f: "filled s P xs pt a flags j D t P' (x # ys)" and ok: "pt_ok s pt P xs"
    and a: "page_aligned a" "unat a + 4096 * Suc j \<le> unat MAXVA"
    and z: "\<forall>va. in_span va a (Suc j) \<longrightarrow> ptes s pt va = 0"
  obtains u v Q zs where "kalloc t = Ret x u"
      "mappages pt (a + of_nat j * PGSIZE) PGSIZE x flags (zero_page x u) = Ret 0 v"
      "filled s P xs pt a flags (Suc j) (D(j := x)) v Q zs"
    | u v w Q where "kalloc t = Ret x u"
      "mappages pt (a + of_nat j * PGSIZE) PGSIZE x flags (zero_page x u) = Ret (- 1) v"
      "kfree x v = Ret () w" "filled s P xs pt a flags j D w Q [x]"
proof -
  note d = filledD [OF f]
  let ?b = "a + of_nat j * PGSIZE"
  note sp = in_span_split [OF a]
  have "\<not> valid (ptes t pt va)" if "PGROUNDDOWN va = ?b" for va
    using sp(1,2) [of va] that d(8) [of va] z by simp
  then have z': "\<forall>va. PGROUNDDOWN va = ?b \<longrightarrow> \<not> valid (ptes t pt va)" by blast
  have x: "x \<notin> P'" "x \<notin> set ys" "x \<in> set xs" "x \<notin> D ` {..<j}"
    using d(2,3,4,5) by (auto simp: pt_ok_def kmem_avail_def kmem_ok_def)
  have al: "page_aligned p" if "p \<in> P \<union> set xs" for p by (rule pt_ok_aligned [OF ok that])
  show thesis
  proof (rule map_one_page [OF d(2) sp(5) _ z', where flags = flags])
    show "unat ?b + 4096 \<le> unat MAXVA" using sp(4) a(2) by simp
  next
    fix u v Q zs
    assume v: "kalloc t = Ret x u" "mappages pt ?b PGSIZE x flags (zero_page x u) = Ret 0 v"
      "mem_only t v" "pt_ok v pt Q zs" "P' \<subseteq> Q" "Q \<union> set zs = P' \<union> set ys"
      "ptes v pt = upd_page ?b (PA2PTE x OR flags OR PTE_V) (ptes t pt)"
      "only (mem t) (mem v) (Q \<union> {x})" "\<forall>y. in_page y x \<longrightarrow> mem v y = 0"
    then show thesis using that(1) filled_Suc [OF f ok a] by blast
  next
    fix u v Q
    assume v: "kalloc t = Ret x u" "mappages pt ?b PGSIZE x flags (zero_page x u) = Ret (- 1) v"
      "mem_only t v" "pt_ok v pt Q []" "P' \<subseteq> Q" "Q = P' \<union> set ys" "ptes v pt = ptes t pt"
      "only (mem t) (mem v) (Q \<union> {x})"
    have "phys_page v x"
      using d(2) mem_only_phys [OF v(3)] by (simp add: pt_ok_def kmem_avail_def kmem_ok_def)
    then obtain w where w: "kfree x v = Ret () w" "mem_only v w" "pt_ok w pt Q [x]" "ptes w pt = ptes v pt"
        "only (mem v) (mem w) {x}"
      using kfree_pt [OF v(4), of x] x v(6) by auto
    have "only (mem t) (mem w) (Q \<union> {x})" by (rule only_trans [OF v(8) w(5)]) auto
    then have "filled s P xs pt a flags j D w Q [x]"
      using v(5,6,7) w(3,4) mem_only_trans [OF v(3) w(2)] by (intro filled_mono [OF f ok]) auto
    then show thesis using that(2) v(1,2) w(1) by blast
  qed
qed

text \<open>Unmapping a filled span gives every data page back and restores the map.\<close>

definition restored ::
  "'a kmem_state_scheme \<Rightarrow> uint64 set \<Rightarrow> uint64 list \<Rightarrow> uint64 \<Rightarrow> 'a kmem_state_scheme \<Rightarrow> uint64 set \<Rightarrow> uint64 list \<Rightarrow> bool" where
  "restored s P xs pt t P' ys \<longleftrightarrow> mem_only s t \<and> pt_ok t pt P' ys \<and> P \<subseteq> P' \<and>
     P' \<union> set ys = P \<union> set xs \<and> ptes t pt = ptes s pt \<and> only (mem s) (mem t) (P \<union> set xs)"

lemma span_pages:
  assumes "page_aligned a" "unat a + 4096 * j \<le> unat MAXVA"
  shows "{va. in_span va a j \<and> page_aligned va} = (\<lambda>i. a + of_nat i * PGSIZE) ` {..<j}"
    "i < j \<Longrightarrow> in_span (a + of_nat i * PGSIZE) a j \<and> (unat (a + of_nat i * PGSIZE) - unat a) div 4096 = i"
proof -
  have un: "unat (a + of_nat i * PGSIZE) = unat a + 4096 * i" if "i < j" for i
    using in_span_split(4) [OF assms(1), of i] assms(2) that by simp
  then show "i < j \<Longrightarrow> in_span (a + of_nat i * PGSIZE) a j \<and> (unat (a + of_nat i * PGSIZE) - unat a) div 4096 = i"
    by (simp add: in_span_def)
  show "{va. in_span va a j \<and> page_aligned va} = (\<lambda>i. a + of_nat i * PGSIZE) ` {..<j}"
  proof (intro set_eqI iffI)
    fix va assume "va \<in> {va. in_span va a j \<and> page_aligned va}"
    then have va: "unat a \<le> unat va" "unat va < unat a + 4096 * j" "unat va mod 4096 = 0" "unat a mod 4096 = 0"
      using assms(1) by (auto simp: in_span_def page_aligned_unat)
    then obtain p q where pq: "unat va = 4096 * p" "unat a = 4096 * q" by (metis mod_eq_0_iff_dvd dvdE)
    then have i: "q \<le> p" "p - q < j" using va by auto
    then have "va = a + of_nat (p - q) * PGSIZE"
      using un [of "p - q"] pq by (simp add: word_unat_eq_iff diff_mult_distrib2)
    then show "va \<in> (\<lambda>i. a + of_nat i * PGSIZE) ` {..<j}" using i(2) by blast
  next
    fix va assume "va \<in> (\<lambda>i. a + of_nat i * PGSIZE) ` {..<j}"
    then show "va \<in> {va. in_span va a j \<and> page_aligned va}"
      using un assms(1) by (auto simp: in_span_def page_aligned_unat)
  qed
qed

lemma filled_leaves:
  assumes f: "filled s P xs pt a flags j D t P' ys" and ok: "pt_ok s pt P xs"
    and a: "page_aligned a" "unat a + 4096 * j \<le> unat MAXVA" and fl: "take_bit 10 flags = flags"
  shows "leaves a j (ptes t pt) = D ` {..<j} \<and> leaves_ok t P' ys a j (ptes t pt)"
proof -
  note d = filledD [OF f]
  have al: "page_aligned (D i)" "phys_page t (D i)" if "i < j" for i
    using d(7) that ok mem_only_phys [OF d(1)]
    by (auto simp: pt_ok_def kmem_avail_def kmem_ok_def phys_page_def subset_iff)
  have "take_bit 10 (flags OR PTE_V) = flags OR PTE_V" using fl by (simp add: PTE_V_def)
  then have pa: "PTE2PA (PA2PTE (D i) OR flags OR PTE_V) = D i" if "i < j" for i
    using PTE2PA_PA2PTE [of "flags OR PTE_V" "D i"] al(1) [OF that] by (simp add: or.assoc)
  have va: "valid (ptes t pt va) \<and> PTE2PA (ptes t pt va) = D ((unat va - unat a) div 4096) \<and>
      (unat va - unat a) div 4096 < j" if "in_span va a j" for va
  proof -
    have "(unat va - unat a) div 4096 < j"
      using that by (simp add: in_span_def div_less_iff_less_mult less_diff_conv2 mult.commute)
    then show ?thesis using d(8) [of va] that pa by simp
  qed
  have up: "upages a j (ptes t pt) = (\<lambda>i. a + of_nat i * PGSIZE) ` {..<j}"
    using span_pages(1) [OF a] va by (auto simp: upages_def)
  have ix: "PTE2PA (ptes t pt (a + of_nat i * PGSIZE)) = D i" if "i < j" for i
    using va [of "a + of_nat i * PGSIZE"] span_pages [OF a] that by auto
  then have "leaves a j (ptes t pt) = D ` {..<j}" unfolding leaves_def up by (auto simp: image_image)
  moreover have "inj_on (\<lambda>va. PTE2PA (ptes t pt va)) (upages a j (ptes t pt))"
    unfolding up by (rule inj_on_imageI) (use d(6) ix in \<open>simp add: inj_on_def\<close>)
  moreover have "\<forall>va \<in> upages a j (ptes t pt). phys_page t (PTE2PA (ptes t pt va)) \<and>
      PTE2PA (ptes t pt va) \<notin> P' \<union> set ys"
    unfolding up using ix al(2) d(5) by auto
  ultimately show ?thesis by (simp add: leaves_ok_def)
qed

lemma restore_filled:
  assumes f: "filled s P xs pt a flags j D t P' ys" and ok: "pt_ok s pt P xs"
    and a: "page_aligned a" "unat a + 4096 * j \<le> unat MAXVA" and fl: "take_bit 10 flags = flags"
    and z: "\<forall>va. in_span va a j \<longrightarrow> ptes s pt va = 0"
  shows "\<exists>u Q zs. uvmdealloc pt (a + of_nat j * PGSIZE) a t = Ret a u \<and> restored s P xs pt u Q zs"
proof -
  note d = filledD [OF f] and lv = filled_leaves [OF f ok a fl]
  have un: "unat (a + of_nat j * PGSIZE) = unat a + 4096 * j"
  proof -
    have "unat (of_nat j * PGSIZE) = 4096 * j"
      using a(2) unat_of_nat64 [of "4096 * j"] by (simp add: MAXVA_def PGSIZE_def mult.commute)
    then show ?thesis using a(2) by (simp add: unat_word_ariths MAXVA_def)
  qed
  have up: "PGROUNDUP v = v" if "page_aligned v" "unat v \<le> unat MAXVA" for v
    using PGROUNDUP_props(2) [OF that(2)] that(1) by (auto simp: word_unat_eq_iff page_aligned_unat)
  have al: "page_aligned (a + of_nat j * PGSIZE)" using a(1) un by (simp add: page_aligned_unat)
  have r: "PGROUNDUP a = a" "PGROUNDUP (a + of_nat j * PGSIZE) = a + of_nat j * PGSIZE"
    using up [OF a(1)] up [OF al] un a(2) by simp_all
  then have n: "npages a (a + of_nat j * PGSIZE) = j" by (simp add: npages_def un)
  obtain u F where u: "uvmdealloc pt (a + of_nat j * PGSIZE) a t = Ret a u" "mem_only t u"
      "pt_ok u pt P' (F @ ys)" "set F = D ` {..<j}" "ptes u pt = cleared a j (ptes t pt)"
      "only (mem t) (mem u) (P' \<union> set F)"
    using uvmdealloc_spec [OF d(2), of a "a + of_nat j * PGSIZE"] un a(2) lv n r by auto
  have "cleared a j (ptes t pt) va = ptes s pt va" for va
    using d(8) [of va] z by (simp add: cleared_def)
  then have "ptes u pt = ptes s pt" using u(5) by auto
  moreover have "P' \<union> set (F @ ys) = P \<union> set xs" using u(4) d(4) by auto
  moreover have "only (mem s) (mem u) (P \<union> set xs)"
    by (rule only_trans [OF d(10) u(6)]) (use u(4) d(4) in auto)
  ultimately have "restored s P xs pt u P' (F @ ys)"
    using u(3) d(3) mem_only_trans [OF d(1) u(2)] by (simp add: restored_def)
  then show ?thesis using u(1) by blast
qed

lemma uvmalloc_loop_spec:
  assumes "filled s P xs pt a (PTE_R OR PTE_U OR xperm) j D t P' ys" "j \<le> n"
    and ok: "pt_ok s pt P xs" and a: "page_aligned a" "unat a + 4096 * n \<le> unat MAXVA"
    and fl: "take_bit 10 (PTE_R OR PTE_U OR xperm) = PTE_R OR PTE_U OR xperm"
    and z: "\<forall>va. in_span va a n \<longrightarrow> ptes s pt va = 0"
    and it: "\<forall>i \<le> n. a + of_nat i * PGSIZE < newsz \<longleftrightarrow> i < n"
  shows "\<exists>r u Q zs. uvmalloc_loop pt (a + of_nat j * PGSIZE) a newsz xperm t = Some (Ret r u) \<and>
    (r = newsz \<and> (\<exists>D. filled s P xs pt a (PTE_R OR PTE_U OR xperm) n D u Q zs) \<or>
     r = 0 \<and> restored s P xs pt u Q zs)"
  using assms(1,2)
proof (induction "n - j" arbitrary: j D t P' ys)
  case 0
  then have "j = n" "\<not> a + of_nat j * PGSIZE < newsz" using it by auto
  then show ?case using "0.prems" by (subst uvmalloc_loop.simps) auto
next
  case (Suc d)
  let ?fl = "PTE_R OR PTE_U OR xperm" and ?b = "a + of_nat j * PGSIZE"
  have lt: "j < n" "?b < newsz" using Suc.hyps(2) it by auto
  then have aj: "unat a + 4096 * Suc j \<le> unat MAXVA" "unat a + 4096 * j \<le> unat MAXVA" using a(2) by auto
  have zj: "\<forall>va. in_span va a (Suc j) \<longrightarrow> ptes s pt va = 0" "\<forall>va. in_span va a j \<longrightarrow> ptes s pt va = 0"
    using z lt(1) by (auto simp: in_span_def)
  show ?case
  proof (cases ys)
    case Nil
    have "kalloc t = Ret 0 (settle t)"
      using kalloc_pt_none [of t pt P'] filledD(2) [OF Suc.prems(1)] Nil by simp
    moreover have "filled s P xs pt a ?fl j D (settle t) P' ys"
      using Suc.prems(1) by (simp add: filled_def)
    moreover from restore_filled [OF this ok a(1) aj(2) fl zj(2)] obtain u Q zs where
      "uvmdealloc pt ?b a (settle t) = Ret a u" "restored s P xs pt u Q zs" by blast
    ultimately show ?thesis using lt(2) by (subst uvmalloc_loop.simps) auto
  next
    case (Cons x ys')
    show ?thesis
    proof (rule filled_step [OF Suc.prems(1) [unfolded Cons] ok a(1) aj(1) zj(1)])
      fix u v Q zs
      assume v: "kalloc t = Ret x u" "mappages pt ?b PGSIZE x ?fl (zero_page x u) = Ret 0 v"
        "filled s P xs pt a ?fl (Suc j) (D(j := x)) v Q zs"
      have x0: "x \<noteq> 0" using filledD(2) [OF Suc.prems(1)] Cons by (simp add: pt_ok_def kmem_avail_def kmem_ok_def)
      have "uvmalloc_loop pt ?b a newsz xperm t = uvmalloc_loop pt (a + of_nat (Suc j) * PGSIZE) a newsz xperm v"
        using v(1,2) lt(2) x0 by (subst uvmalloc_loop.simps) (simp add: algebra_simps)
      then show ?thesis using Suc.hyps(1) [OF _ v(3)] Suc.hyps(2) lt(1) by auto
    next
      fix u v w Q
      assume v: "kalloc t = Ret x u" "mappages pt ?b PGSIZE x ?fl (zero_page x u) = Ret (- 1) v"
        "kfree x v = Ret () w" "filled s P xs pt a ?fl j D w Q [x]"
      have x0: "x \<noteq> 0" using filledD(2) [OF Suc.prems(1)] Cons by (simp add: pt_ok_def kmem_avail_def kmem_ok_def)
      obtain y R zs where "uvmdealloc pt ?b a w = Ret a y" "restored s P xs pt y R zs"
        using restore_filled [OF v(4) ok a(1) aj(2) fl zj(2)] by blast
      then show ?thesis using v x0 lt(2) by (subst uvmalloc_loop.simps) auto
    qed
  qed
qed

lemma uvmalloc_spec:
  assumes ok: "pt_ok s pt P xs" and sz: "unat oldsz \<le> unat newsz" "unat newsz \<le> unat MAXVA"
    and fl: "take_bit 10 (PTE_R OR PTE_U OR xperm) = PTE_R OR PTE_U OR xperm"
    and z: "\<forall>va. in_span va (PGROUNDUP oldsz) (npages oldsz newsz) \<longrightarrow> ptes s pt va = 0"
  shows "\<exists>r t Q ys. uvmalloc pt oldsz newsz xperm s = Ret r t \<and>
    (r = newsz \<and> (\<exists>D. filled s P xs pt (PGROUNDUP oldsz) (PTE_R OR PTE_U OR xperm) (npages oldsz newsz) D t Q ys) \<or>
     r = 0 \<and> restored s P xs pt t Q ys)"
proof -
  let ?a = "PGROUNDUP oldsz" and ?n = "npages oldsz newsz"
  have al: "page_aligned ?a" using PGROUNDUP_props(1) sz by simp
  have m: "unat ?a + 4096 * ?n = unat (PGROUNDUP newsz)" by (rule npages_mult [OF sz])
  have bd: "unat ?a + 4096 * ?n \<le> unat MAXVA" using m PGROUNDUP_props(5) [OF sz(2)] by simp
  have "?a + of_nat i * PGSIZE < newsz \<longleftrightarrow> i < ?n" if "i \<le> ?n" for i
  proof -
    have "unat (of_nat i * PGSIZE) = 4096 * i"
      using bd that unat_of_nat64 [of "4096 * i"] by (simp add: MAXVA_def PGSIZE_def mult.commute)
    then have "unat (?a + of_nat i * PGSIZE) = unat ?a + 4096 * i"
      using bd that by (simp add: unat_word_ariths MAXVA_def)
    then show ?thesis
      using m PGROUNDUP_props(3,4) [OF sz(2)] that by (auto simp: word_less_nat_alt)
  qed
  then have it: "\<forall>i \<le> ?n. ?a + of_nat i * PGSIZE < newsz \<longleftrightarrow> i < ?n" by blast
  have "\<not> newsz < oldsz" using sz(1) by (simp add: word_less_nat_alt)
  then have "uvmalloc pt oldsz newsz xperm s = or_diverge (uvmalloc_loop pt (?a + of_nat 0 * PGSIZE) ?a newsz xperm s)"
    by (simp add: uvmalloc_def Let_def)
  then show ?thesis
    using uvmalloc_loop_spec [OF filled_0 [OF ok] _ ok al bd fl z it] by fastforce
qed

end
