(* ===== verification/UserCopy.thy ===== *)
theory UserCopy
  imports UserSpace
begin

text \<open>
  The copies between kernel and user memory (\<^verbatim>\<open>walkaddr\<close>, \<^verbatim>\<open>copyin\<close>, \<^verbatim>\<open>copyout\<close>,
  \<^verbatim>\<open>copyinstr\<close> of \<^verbatim>\<open>kernel/vm.c\<close>), seen as reads and writes of the user's own memory, in which
  a virtual address holds a byte or is not mapped.
\<close>

unbundle bit_operations_syntax

section \<open>User memory\<close>

abbreviation user_pte :: "uint64 \<Rightarrow> bool" where
  "user_pte e \<equiv> valid e \<and> e AND PTE_U \<noteq> 0"

definition umem :: "'a kmem_state_scheme \<Rightarrow> uint64 \<Rightarrow> uint64 \<Rightarrow> uchar option" where
  "umem s pt va =
     (if user_pte (ptes s pt va) then Some (mem s (PTE2PA (ptes s pt va) + (va - PGROUNDDOWN va)))
      else None)"

text \<open>\<open>uspace_ok s pt P xs K\<close>: a table whose first \<open>K\<close> pages map to distinct pages of RAM.\<close>

definition uspace_ok :: "'a kmem_state_scheme \<Rightarrow> uint64 \<Rightarrow> uint64 set \<Rightarrow> uint64 list \<Rightarrow> nat \<Rightarrow> bool" where
  "uspace_ok s pt P xs K \<longleftrightarrow> pt_ok s pt P xs \<and> leaves_ok s P xs 0 K (ptes s pt) \<and> 4096 * K \<le> unat MAXVA"

lemma uspace_page:
  assumes ok: "uspace_ok s pt P xs K" and va: "unat va < 4096 * K" "valid (ptes s pt va)"
  shows "PGROUNDDOWN va \<in> upages 0 K (ptes s pt)" "phys_page s (PTE2PA (ptes s pt va))"
    "PTE2PA (ptes s pt va) \<notin> P \<union> set xs" "PTE2PA (ptes s pt va) \<noteq> 0"
proof -
  have e: "ptes s pt (PGROUNDDOWN va) = ptes s pt va"
    using ok page_wise_ptes [of s pt P xs] by (simp add: uspace_ok_def page_wise_def)
  have "unat (PGROUNDDOWN va) \<le> unat va" by (simp add: unat_PGROUNDDOWN)
  then show u: "PGROUNDDOWN va \<in> upages 0 K (ptes s pt)" using va e by (simp add: upages_def in_span_def)
  then show p: "phys_page s (PTE2PA (ptes s pt va))" "PTE2PA (ptes s pt va) \<notin> P \<union> set xs"
    using ok e by (auto simp: uspace_ok_def leaves_ok_def)
  have "0 < end_sym s" using ok by (simp add: uspace_ok_def pt_ok_def kmem_avail_def kmem_ok_def)
  then show "PTE2PA (ptes s pt va) \<noteq> 0" using p(1) by (auto simp: phys_page_def)
qed

lemma uspace_inj:
  assumes ok: "uspace_ok s pt P xs K" and va: "unat va < 4096 * K" "valid (ptes s pt va)"
    and vb: "unat vb < 4096 * K" "valid (ptes s pt vb)" and eq: "PTE2PA (ptes s pt va) = PTE2PA (ptes s pt vb)"
  shows "PGROUNDDOWN va = PGROUNDDOWN vb"
proof -
  have e: "ptes s pt (PGROUNDDOWN v) = ptes s pt v" for v
    using ok page_wise_ptes [of s pt P xs] by (simp add: uspace_ok_def page_wise_def)
  have "inj_on (\<lambda>va. PTE2PA (ptes s pt va)) (upages 0 K (ptes s pt))"
    using ok by (simp add: uspace_ok_def leaves_ok_def)
  from inj_onD [OF this, of "PGROUNDDOWN va" "PGROUNDDOWN vb"] show ?thesis
    using uspace_page(1) [OF ok va] uspace_page(1) [OF ok vb] eq e by simp
qed

lemma walkaddr_eq:
  assumes ok: "pt_ok s pt P xs"
  shows "walkaddr pt va s = Ret (if user_pte (ptes s pt va) then PTE2PA (ptes s pt va) else 0) s"
proof (cases "va < MAXVA")
  case True
  then show ?thesis
    using load_slot [OF ok True] by (auto simp: walkaddr_def walk_lookup not_le)
next
  case False
  then show ?thesis by (auto simp: walkaddr_def ptes_def dest: leD)
qed

section \<open>Pieces of a copy\<close>

lemma unat_off: "unat (va - PGROUNDDOWN va) = unat va mod 4096"
  using PGROUNDDOWN_le [of va] by (simp add: unat_sub unat_PGROUNDDOWN)

lemma chunk_eq: "chunk va len = min len (4096 - unat va mod 4096)"
proof -
  have "unat (va - PGROUNDDOWN va) < 4096" by (simp add: unat_off)
  then have "unat (PGSIZE - (va - PGROUNDDOWN va)) = 4096 - unat va mod 4096"
    using unat_off [of va] by (simp add: unat_sub PGSIZE_def word_le_nat_alt)
  then show ?thesis by (simp add: chunk_def Let_def min_def)
qed

lemma unat_add_small: "unat va + i < 2 ^ 64 \<Longrightarrow> unat (va + of_nat i :: uint64) = unat va + i"
  by (simp add: unat_word_ariths unat_of_nat64)

text \<open>The first bytes of a range, up to the end of the page it starts in.\<close>

lemma same_page:
  assumes "i < chunk va len" "unat va + len < 2 ^ 64"
  shows "PGROUNDDOWN (va + of_nat i) = PGROUNDDOWN va"
    "va + of_nat i - PGROUNDDOWN va = (va - PGROUNDDOWN va) + of_nat i"
    "unat (va - PGROUNDDOWN va) + i < 4096"
proof -
  have i: "i < len" "unat va mod 4096 + i < 4096" using assms(1) by (auto simp: chunk_eq)
  then show "unat (va - PGROUNDDOWN va) + i < 4096" by (simp add: unat_off)
  have "unat (va + of_nat i) = unat va + i" using assms(2) i(1) by (intro unat_add_small) simp
  moreover have "(unat va + i) mod 4096 = unat va mod 4096 + i"
    using i(2) by (metis mod_add_left_eq mod_less)
  ultimately show "PGROUNDDOWN (va + of_nat i) = PGROUNDDOWN va"
    by (simp add: word_unat_eq_iff unat_PGROUNDDOWN)
qed (simp add: algebra_simps)

lemma next_page:
  assumes "len - chunk va len \<noteq> 0" "unat va + len < 2 ^ 64"
  shows "unat (PGROUNDDOWN va + PGSIZE) = unat va + chunk va len"
proof -
  have c: "chunk va len = 4096 - unat va mod 4096" using assms(1) by (auto simp: chunk_eq)
  have m: "unat va mod 4096 < 4096" "unat va mod 4096 \<le> unat va" by simp_all
  have "unat (PGROUNDDOWN va) + 4096 = unat va + chunk va len"
    using m unfolding unat_PGROUNDDOWN c by linarith
  moreover have "chunk va len < len" using assms(1) by simp
  ultimately show ?thesis using assms(2) by (intro trans [OF unat_add_PGSIZE]) simp_all
qed

lemma read_chunk:
  assumes ok: "pt_ok s pt P xs" and len: "unat va + len < 2 ^ 64" and u: "user_pte (ptes s pt va)"
  shows "read_bytes (mem s) (PTE2PA (ptes s pt va) + (va - PGROUNDDOWN va)) (chunk va len) =
    map (\<lambda>i. the (umem s pt (va + of_nat i))) [0..<chunk va len]"
proof -
  have "umem s pt (va + of_nat i) = Some (mem s (PTE2PA (ptes s pt va) + (va - PGROUNDDOWN va) + of_nat i))"
    if "i < chunk va len" for i
  proof -
    note sp = same_page [OF that len]
    have "ptes s pt (va + of_nat i) = ptes s pt va"
      using page_wise_ptes [OF ok] sp(1) by (metis page_wise_def)
    then show ?thesis using u sp(1,2) by (simp add: umem_def algebra_simps)
  qed
  then show ?thesis by (simp add: read_bytes_map)
qed

section \<open>copyin\<close>

lemma copyin_spec:
  assumes ok: "uspace_ok s pt P xs K" and len: "unat va + n \<le> 4096 * K"
    and u: "\<forall>i < n. umem s pt (va + of_nat i) \<noteq> None"
  shows "copyin pt va n s = Ret (0, map (\<lambda>i. the (umem s pt (va + of_nat i))) [0..<n]) s"
  using len u
proof (induction n arbitrary: va rule: less_induct)
  case (less n)
  show ?case
  proof (cases "n = 0")
    case True
    then show ?thesis by (simp add: copyin.simps)
  next
    case False
    let ?e = "ptes s pt va" and ?c = "chunk va n"
    have pt: "pt_ok s pt P xs" "4096 * K \<le> 274877906944" using ok by (simp_all add: uspace_ok_def MAXVA_def)
    have big: "unat va + n < 2 ^ 64" using less.prems(1) pt(2) by simp
    have c: "0 < ?c" "?c \<le> n" using False chunk_pos by (auto simp: chunk_eq)
    have e: "user_pte ?e" using less.prems(2) [rule_format, of 0] False by (simp add: umem_def split: if_splits)
    have e0: "ptes s pt (PGROUNDDOWN va) = ?e"
      using page_wise_ptes [OF pt(1)] by (simp add: page_wise_def)
    have nz: "PTE2PA ?e \<noteq> 0" using uspace_page(4) [OF ok, of va] e less.prems(1) False by simp
    have page: "copy_page pt (PGROUNDDOWN va) s = Ret (PTE2PA ?e) s"
      using walkaddr_eq [OF pt(1), of "PGROUNDDOWN va"] e e0 nz by (simp add: copy_page_def)
    let ?vb = "PGROUNDDOWN va + PGSIZE"
    have rest: "copyin pt ?vb (n - ?c) s = Ret (0, map (\<lambda>i. the (umem s pt (va + of_nat i))) [?c..<n]) s"
    proof (cases "n - ?c = 0")
      case True
      then show ?thesis by (simp add: copyin.simps)
    next
      case more: False
      have nx: "unat ?vb = unat va + ?c" by (rule next_page [OF more big])
      have vb: "?vb = va + of_nat ?c" using nx big c by (simp add: word_unat_eq_iff unat_add_small)
      have sh: "?vb + of_nat i = va + of_nat (?c + i)" for i by (simp add: vb)
      have "copyin pt ?vb (n - ?c) s = Ret (0, map (\<lambda>i. the (umem s pt (?vb + of_nat i))) [0..<n - ?c]) s"
      proof (rule less.IH)
        show "unat ?vb + (n - ?c) \<le> 4096 * K" using nx less.prems(1) c by simp
        show "\<forall>i < n - ?c. umem s pt (?vb + of_nat i) \<noteq> None"
          unfolding sh using less.prems(2) by (simp del: of_nat_add not_None_eq)
      qed (use c False in simp)
      also have "map (\<lambda>i. the (umem s pt (?vb + of_nat i))) [0..<n - ?c] =
          map (\<lambda>i. the (umem s pt (va + of_nat i))) [?c..<n]"
        using c(2) by (intro nth_equalityI) (simp_all only: length_map length_upt nth_map nth_upt sh, simp_all)
      finally show ?thesis .
    qed
    have "map f [0..<?c] @ map f [?c..<n] = map f [0..<n]" for f :: "nat \<Rightarrow> uchar"
      using c(2) by (metis le_add_diff_inverse map_append upt_add_eq_append zero_le)
    then show ?thesis
      using False page nz rest read_chunk [OF pt(1) big e] by (subst copyin.simps) (simp add: Let_def)
  qed
qed

section \<open>copyout\<close>

abbreviation user_wpte :: "uint64 \<Rightarrow> bool" where
  "user_wpte e \<equiv> user_pte e \<and> e AND PTE_W \<noteq> 0"

text \<open>User memory below \<open>4096 * K\<close> with the bytes \<open>bs\<close> written from \<open>va\<close> on.\<close>

definition patched :: "nat \<Rightarrow> uint64 \<Rightarrow> uchar list \<Rightarrow> (uint64 \<Rightarrow> uchar option) \<Rightarrow> (uint64 \<Rightarrow> uchar option) \<Rightarrow> bool" where
  "patched K va bs f g \<longleftrightarrow> (\<forall>vb. unat vb < 4096 * K \<longrightarrow>
     g vb = (if unat va \<le> unat vb \<and> unat vb < unat va + length bs then Some (bs ! (unat vb - unat va)) else f vb))"

lemma patched_Nil: "patched K va [] f f"
  by (auto simp: patched_def)

lemma patched_append:
  assumes "patched K va bs f g" "patched K vb cs g h" "unat vb = unat va + length bs"
  shows "patched K va (bs @ cs) f h"
  using assms by (auto simp: patched_def nth_append)

text \<open>Memory changed on data pages only.\<close>

lemma uspace_data:
  assumes ok: "uspace_ok s pt P xs K" and S: "only (mem s) m S" "\<forall>q \<in> S. page_aligned q" "S \<inter> (P \<union> set xs) = {}"
  shows "uspace_ok (s\<lparr>mem := m\<rparr>) pt P xs K" "ptes (s\<lparr>mem := m\<rparr>) pt = ptes s pt"
proof -
  have t: "tree (mem s) 2 pt P" "kmem_avail s xs" "P \<inter> set xs = {}" "4096 * K \<le> unat MAXVA"
      "leaves_ok s P xs 0 K (ptes s pt)"
    using ok by (simp_all add: uspace_ok_def pt_ok_def)
  have d: "P \<inter> S = {}" "S \<inter> set xs = {}" using S(3) by blast+
  show p: "ptes (s\<lparr>mem := m\<rparr>) pt = ptes s pt"
    using tree_frame [OF t(1) S(1,2) d(1)] by (simp add: ptes_def fun_eq_iff)
  have "pt_ok (s\<lparr>mem := m\<rparr>) pt P xs"
    using tree_frame [OF t(1) S(1,2) d(1)] kmem_avail_only [OF t(2) S(1) d(2) S(2)] t(3) by (simp add: pt_ok_def)
  moreover have "leaves_ok (s\<lparr>mem := m\<rparr>) P xs 0 K (ptes s pt)"
    using t(5) by (simp add: leaves_ok_def phys_page_def)
  ultimately show "uspace_ok (s\<lparr>mem := m\<rparr>) pt P xs K" using p t(4) by (simp add: uspace_ok_def)
qed

lemma write_chunk:
  assumes ok: "uspace_ok s pt P xs K" and len: "unat va + len \<le> 4096 * K"
    and u: "user_pte (ptes s pt va)" and bs: "length bs = chunk va len" "0 < len"
  defines "m \<equiv> write_bytes (mem s) (PTE2PA (ptes s pt va) + (va - PGROUNDDOWN va)) bs"
  shows "only (mem s) m {PTE2PA (ptes s pt va)}" "uspace_ok (s\<lparr>mem := m\<rparr>) pt P xs K"
    "ptes (s\<lparr>mem := m\<rparr>) pt = ptes s pt" "patched K va bs (umem s pt) (umem (s\<lparr>mem := m\<rparr>) pt)"
proof -
  let ?p = "PTE2PA (ptes s pt va)" and ?o = "va - PGROUNDDOWN va"
  have pt: "pt_ok s pt P xs" "4096 * K \<le> 274877906944" using ok by (simp_all add: uspace_ok_def MAXVA_def)
  have va: "unat va < 4096 * K" "unat va + len < 2 ^ 64" using len bs(2) pt(2) by simp_all
  have lb: "length bs \<le> 4096" "unat ?o + length bs \<le> 4096" by (simp_all add: bs chunk_eq unat_off)
  have m: "m x = (if in_range x (?p + ?o) (length bs) then bs ! unat (x - (?p + ?o)) else mem s x)" for x
    unfolding m_def using lb by (intro write_bytes_apply) simp
  have inp: "in_page x ?p" if "in_range x (?p + ?o) (length bs)" for x
  proof -
    have "unat (?o + (x - (?p + ?o))) = unat ?o + unat (x - (?p + ?o))"
      using that lb by (intro unat_add_lem [THEN iffD1]) simp
    then show ?thesis using that lb by (simp add: algebra_simps)
  qed
  show on: "only (mem s) m {?p}" using m inp by (auto simp: only_def)
  have pg: "?p \<notin> P \<union> set xs" using uspace_page(3) [OF ok va(1)] u by simp
  show "uspace_ok (s\<lparr>mem := m\<rparr>) pt P xs K" and ptes: "ptes (s\<lparr>mem := m\<rparr>) pt = ptes s pt"
    using uspace_data [OF ok on] pg by simp_all
  have e: "ptes s pt v = ptes s pt w" if "PGROUNDDOWN v = PGROUNDDOWN w" for v w
    using page_wise_ptes [OF pt(1)] that by (metis page_wise_def)
  show "patched K va bs (umem s pt) (umem (s\<lparr>mem := m\<rparr>) pt)"
    unfolding patched_def
  proof (intro allI impI)
    fix vb :: uint64 assume vb: "unat vb < 4096 * K"
    have k: "unat vb = unat va + unat (vb - va)" if "unat (vb - va) < length bs"
      using unat_add_small [of va "unat (vb - va)"] that va(2) bs by (simp add: chunk_eq)
    show "umem (s\<lparr>mem := m\<rparr>) pt vb = (if unat va \<le> unat vb \<and> unat vb < unat va + length bs
        then Some (bs ! (unat vb - unat va)) else umem s pt vb)"
    proof (cases "unat va \<le> unat vb \<and> unat vb < unat va + length bs")
      case True
      then have d: "unat (vb - va) = unat vb - unat va" by (simp add: unat_sub word_le_nat_alt)
      have "unat vb - unat va < chunk va len" using True bs(1) by linarith
      note sp = same_page [OF this va(2)]
      have w: "va + of_nat (unat vb - unat va) = vb" unfolding d [symmetric] by simp
      have "vb - PGROUNDDOWN vb = ?o + (vb - va)" "PGROUNDDOWN vb = PGROUNDDOWN va" using sp(1) w by simp_all
      moreover have "unat vb - unat va < length bs" using True by linarith
      ultimately show ?thesis using True d u e [of vb va] ptes by (simp add: umem_def m algebra_simps)
    next
      case False
      have "m (PTE2PA (ptes s pt vb) + (vb - PGROUNDDOWN vb)) = mem s (PTE2PA (ptes s pt vb) + (vb - PGROUNDDOWN vb))"
        if "user_pte (ptes s pt vb)"
      proof (rule ccontr)
        let ?a = "PTE2PA (ptes s pt vb) + (vb - PGROUNDDOWN vb)"
        assume "m ?a \<noteq> mem s ?a"
        then have r: "in_range ?a (?p + ?o) (length bs)" using m [of ?a] by presburger
        have "in_page ?a (PTE2PA (ptes s pt vb))" by (simp add: unat_off)
        then have q: "PTE2PA (ptes s pt vb) = ?p" using inp [OF r] by (intro in_page_unique) simp_all
        have "PGROUNDDOWN vb = PGROUNDDOWN va"
          using uspace_inj [OF ok vb _ va(1)] that u q by simp
        then have "?a - (?p + ?o) = vb - va" using q by simp
        with r have r': "unat (vb - va) < length bs" by metis
        show False using r' k [OF r'] False by linarith
      qed
      then show ?thesis using False ptes by (auto simp: umem_def)
    qed
  qed
qed

text \<open>The bytes from \<open>va\<close> on can be written by the user.\<close>

definition uwritable :: "'a kmem_state_scheme \<Rightarrow> uint64 \<Rightarrow> uint64 \<Rightarrow> nat \<Rightarrow> bool" where
  "uwritable s pt va n \<longleftrightarrow> (\<forall>i < n. user_wpte (ptes s pt (va + of_nat i)))"

lemma copyout_page:
  assumes ok: "uspace_ok s pt P xs K" and va: "unat va < 4096 * K" and e: "user_wpte (ptes s pt va)"
  shows "PGROUNDDOWN va < MAXVA" "copy_page pt (PGROUNDDOWN va) s = Ret (PTE2PA (ptes s pt va)) s"
    "PTE2PA (ptes s pt va) \<noteq> 0"
    "\<exists>a. walk pt (PGROUNDDOWN va) False s = Ret a s \<and> a \<noteq> 0 \<and> load_pte a s = ptes s pt va"
proof -
  have pt: "pt_ok s pt P xs" "4096 * K \<le> unat MAXVA" using ok by (simp_all add: uspace_ok_def)
  have e0: "ptes s pt (PGROUNDDOWN va) = ptes s pt va"
    using page_wise_ptes [OF pt(1)] by (simp add: page_wise_def)
  show nz: "PTE2PA (ptes s pt va) \<noteq> 0" using uspace_page(4) [OF ok va] e by simp
  show lt: "PGROUNDDOWN va < MAXVA"
    using va pt(2) PGROUNDDOWN_le [of va] by (simp add: word_less_nat_alt word_le_nat_alt)
  show "copy_page pt (PGROUNDDOWN va) s = Ret (PTE2PA (ptes s pt va)) s"
    using walkaddr_eq [OF pt(1), of "PGROUNDDOWN va"] e e0 nz by (simp add: copy_page_def)
  show "\<exists>a. walk pt (PGROUNDDOWN va) False s = Ret a s \<and> a \<noteq> 0 \<and> load_pte a s = ptes s pt va"
    using walk_lookup [OF lt] load_slot [OF pt(1) lt] e e0 by (auto split: if_splits)
qed

definition copied :: "'a kmem_state_scheme \<Rightarrow> uint64 \<Rightarrow> uint64 set \<Rightarrow> uint64 list \<Rightarrow> nat \<Rightarrow> uint64 \<Rightarrow> uchar list \<Rightarrow> 'a kmem_state_scheme \<Rightarrow> bool" where
  "copied s pt P xs K va bs t \<longleftrightarrow> t = s\<lparr>mem := mem t\<rparr> \<and> uspace_ok t pt P xs K \<and> ptes t pt = ptes s pt \<and>
     patched K va bs (umem s pt) (umem t pt)"

lemma copied_append:
  assumes "copied s pt P xs K va bs t" "copied t pt P xs K vb cs u" "unat vb = unat va + length bs"
  shows "copied s pt P xs K va (bs @ cs) u"
proof -
  have "u = s\<lparr>mem := mem u\<rparr>" using assms(1,2) unfolding copied_def
    by (metis kmem_state.update_convs(1) kmem_state.surjective)
  then show ?thesis using assms patched_append [of K va bs "umem s pt" "umem t pt" vb cs "umem u pt"]
    by (simp add: copied_def)
qed

lemma copyout_spec:
  assumes ok: "uspace_ok s pt P xs K" and len: "unat va + length bs \<le> 4096 * K"
    and w: "uwritable s pt va (length bs)"
  shows "\<exists>t. copyout pt va bs s = Ret 0 t \<and> copied s pt P xs K va bs t"
  using assms
proof (induction "length bs" arbitrary: bs va s rule: less_induct)
  case less
  show ?case
  proof (cases "bs = []")
    case True
    then show ?thesis using less.prems(1) by (simp add: copyout.simps copied_def patched_Nil)
  next
    case False
    let ?n = "chunk va (length bs)" and ?vb = "PGROUNDDOWN va + PGSIZE"
    have big: "unat va + length bs < 2 ^ 64" and va: "unat va < 4096 * K"
      using less.prems(1,2) False by (auto simp: uspace_ok_def MAXVA_def neq_Nil_conv)
    have e: "user_wpte (ptes s pt va)" using less.prems(3) False by (auto simp: uwritable_def)
    have n: "0 < ?n" "?n \<le> length bs" using False chunk_pos by (auto simp: chunk_eq)
    define m where "m = write_bytes (mem s) (PTE2PA (ptes s pt va) + (va - PGROUNDDOWN va)) (take ?n bs)"
    note wc = write_chunk [OF less.prems(1,2) _ , of "take ?n bs", folded m_def]
    have c1: "copied s pt P xs K va (take ?n bs) (s\<lparr>mem := m\<rparr>)"
      using wc e n False by (simp add: copied_def)
    have step: "copyout pt va bs s = copyout pt ?vb (drop ?n bs) (s\<lparr>mem := m\<rparr>)"
      using copyout_page [OF less.prems(1) va e] e False
      by (subst copyout.simps) (auto simp: Let_def m_def)
    show ?thesis
    proof (cases "length bs - ?n = 0")
      case True
      then show ?thesis using step c1 by (simp add: copyout.simps)
    next
      case more: False
      have nx: "unat ?vb = unat va + ?n" by (rule next_page [OF more big])
      have vb: "?vb = va + of_nat ?n" using nx big n by (simp add: word_unat_eq_iff unat_add_small)
      have "uwritable (s\<lparr>mem := m\<rparr>) pt ?vb (length (drop ?n bs))"
        using less.prems(3) c1 unfolding uwritable_def copied_def vb
        by (auto simp: add.assoc simp flip: of_nat_add)
      moreover have "length (drop ?n bs) < length bs" "unat ?vb + length (drop ?n bs) \<le> 4096 * K"
        using n nx less.prems(2) by simp_all
      ultimately obtain t where "copyout pt ?vb (drop ?n bs) (s\<lparr>mem := m\<rparr>) = Ret 0 t"
          "copied (s\<lparr>mem := m\<rparr>) pt P xs K ?vb (drop ?n bs) t"
        using less.hyps [of "drop ?n bs" "s\<lparr>mem := m\<rparr>" ?vb] c1 by (auto simp: copied_def)
      then show ?thesis using step copied_append [OF c1] nx n by fastforce
    qed
  qed
qed

section \<open>A process with one page\<close>

text \<open>A table with one entry, and the chain of three of them that maps the page at address 0.\<close>

lemma one_entry:
  assumes p: "page_aligned p" "p \<noteq> 0" "p \<notin> Q" and m: "\<forall>i < 512. load64 m (pte_addr p i) = (if i = 0 then e else 0)"
    and e: "valid e" "tree m n (PTE2PA e) Q"
  shows "tree m (Suc n) p (insert p Q)"
    "pte_at m (Suc n) p va = (if PX (Suc n) va = 0 then pte_at m n (PTE2PA e) va else 0)"
proof -
  have z: "(0 :: uint64) < 512" by simp
  have "insert p Q = insert p (\<Union>i \<in> {i :: uint64. i < 512}. if i = 0 then Q else {})" by auto
  then have "kids m n p (insert p Q) (\<lambda>i. if i = 0 then Q else {})"
    unfolding kids_def using p m e z by simp
  then show "tree m (Suc n) p (insert p Q)" unfolding tree_kids by blast
  show "pte_at m (Suc n) p va = (if PX (Suc n) va = 0 then pte_at m n (PTE2PA e) va else 0)"
    using m PX_less [of "Suc n" va] e by (simp add: Let_def)
qed

definition user_flags :: uint64 where
  "user_flags = PTE_R OR PTE_W OR PTE_U OR PTE_V"

definition user_tables :: memory where
  "user_tables = store64 (store64 (store64 (\<lambda>_. 0)
       0x80102000 (PA2PTE 0x80103000 OR user_flags))
       0x80101000 (PA2PTE 0x80102000 OR PTE_V))
       0x80100000 (PA2PTE 0x80101000 OR PTE_V)"

definition one_page_user :: proc_state where
  "one_page_user = boot_procs\<lparr>mem := user_tables\<rparr>"

lemma slot_other: "page_aligned p \<Longrightarrow> page_aligned q \<Longrightarrow> p \<noteq> q \<Longrightarrow> i < 512 \<Longrightarrow> pte_addr p i \<noteq> q"
proof
  assume a: "page_aligned p" "page_aligned q" "p \<noteq> q" "i < 512" "pte_addr p i = q"
  then have "in_page q p" using in_page_slot [of i 0 p] by simp
  then show False using in_page_unique [OF a(1,2), of q] a(3) by simp
qed

lemma load_user_tables:
  assumes "page_aligned p" "i < 512"
  shows "load64 user_tables (pte_addr p i) =
    (if i \<noteq> 0 then 0 else if p = 0x80100000 then PA2PTE 0x80101000 OR PTE_V
     else if p = 0x80101000 then PA2PTE 0x80102000 OR PTE_V
     else if p = 0x80102000 then PA2PTE 0x80103000 OR user_flags else 0)"
proof -
  have z: "load64 (\<lambda>_. 0) a = 0" for a by (simp add: load64_def numeral_eq_Suc)
  have st: "load64 (store64 m q v) (pte_addr p i) = (if p = q \<and> i = 0 then v else load64 m (pte_addr p i))"
    if q: "page_aligned q" for m q v
  proof (cases "p = q")
    case True
    have "q = pte_addr q 0" by (simp add: pte_addr_def)
    then show ?thesis using True load64_store_slot [OF q, of 0 i m v] assms(2) by simp
  next
    case False
    have "aligned 8 q" using aligned_slot [OF q, of 0] by (simp add: pte_addr_def)
    then show ?thesis using False slot_other [OF assms(1) q False assms(2)] aligned_slot [OF assms(1)]
      by (simp add: load64_store64_other)
  qed
  have al: "page_aligned 0x80100000" "page_aligned 0x80101000" "page_aligned 0x80102000"
    by (simp_all add: page_aligned_unat)
  show ?thesis unfolding user_tables_def st [OF al(1)] st [OF al(2)] st [OF al(3)] z by simp
qed

lemma user_space_ok:
  "uspace_ok one_page_user 0x80100000 {0x80100000, 0x80101000, 0x80102000} [] 1"
  "va < MAXVA \<Longrightarrow> ptes one_page_user 0x80100000 va = (if PGROUNDDOWN va = 0 then PA2PTE 0x80103000 OR user_flags else 0)"
proof -
  let ?p2 = "0x80100000 :: uint64" and ?p1 = "0x80101000 :: uint64" and ?p0 = "0x80102000 :: uint64"
  let ?e = "PA2PTE 0x80103000 OR user_flags"
  have al: "page_aligned ?p2" "page_aligned ?p1" "page_aligned ?p0" "page_aligned 0x80103000"
    by (simp_all add: page_aligned_unat)
  have v: "take_bit 10 PTE_V = PTE_V" "take_bit 10 user_flags = user_flags"
    by (simp_all add: PTE_V_def user_flags_def PTE_R_def PTE_W_def PTE_U_def take_bit_eq_mask mask_eq_exp_minus_1)
  have pa: "PTE2PA (PA2PTE ?p1 OR PTE_V) = ?p1" "PTE2PA (PA2PTE ?p0 OR PTE_V) = ?p0" "PTE2PA ?e = 0x80103000"
    using PTE2PA_PA2PTE v al by auto
  have t0: "tree user_tables 0 ?p0 {?p0}" using al by simp
  have l1: "\<forall>i < 512. load64 user_tables (pte_addr ?p1 i) = (if i = 0 then PA2PTE ?p0 OR PTE_V else 0)"
    using load_user_tables [OF al(2)] by simp
  have l2: "\<forall>i < 512. load64 user_tables (pte_addr ?p2 i) = (if i = 0 then PA2PTE ?p1 OR PTE_V else 0)"
    using load_user_tables [OF al(1)] by simp
  have ne: "?p1 \<noteq> 0" "?p2 \<noteq> 0" "?p1 \<notin> {?p0}" "?p2 \<notin> {?p1, ?p0}" by simp_all
  have t0': "tree user_tables 0 (PTE2PA (PA2PTE ?p0 OR PTE_V)) {?p0}" unfolding pa by (rule t0)
  note t1 = one_entry [OF al(2) ne(1,3) l1 valid_or(1) t0', unfolded pa]
  have t1': "tree user_tables (Suc 0) (PTE2PA (PA2PTE ?p1 OR PTE_V)) {?p1, ?p0}" unfolding pa by (rule t1)
  note t2 = one_entry [OF al(1) ne(2,4) l2 valid_or(1) t1', unfolded pa]
  have mem: "mem one_page_user = user_tables" by (simp add: one_page_user_def)
  have z: "0 < MAXVA" "PX l 0 = 0" "PGROUNDDOWN 0 = 0" for l
    by (simp_all add: MAXVA_def PX_def PGROUNDDOWN_def)
  show ptes: "ptes one_page_user ?p2 va = (if PGROUNDDOWN va = 0 then ?e else 0)" if "va < MAXVA" for va
  proof -
    have "(PX 0 va = 0 \<and> PX (Suc 0) va = 0 \<and> PX (Suc (Suc 0)) va = 0) = (PGROUNDDOWN va = 0)"
      using same_vpn [OF that z(1)] unfolding z One_nat_def numeral_2_eq_2 by blast
    moreover have "pte_at user_tables 0 ?p0 va = (if PX 0 va = 0 then ?e else 0)"
      using load_user_tables [OF al(3) PX_less [of 0 va]] by simp
    ultimately show ?thesis
      using that unfolding ptes_def numeral_2_eq_2 mem t2(2) t1(2) by presburger
  qed
  have av: "kmem_avail one_page_user []"
    by (simp add: kmem_avail_def kmem_ok_def one_page_user_def may_lock_def lock_free_def cpu_ok_def cpu_defs
        idle_cpu_def open_lock_def)
  have up: "upages 0 1 (ptes one_page_user ?p2) = {0}"
  proof -
    have "va = 0" if "in_span va 0 1" "page_aligned va" for va
      using that by (simp add: in_span_def page_aligned_unat unat_eq_zero)
    moreover have "valid ?e" by (simp add: user_flags_def PTE_U_def PTE_W_def PTE_V_def PTE_R_def PA2PTE_def)
    ultimately show ?thesis
      using ptes [OF z(1)] unfolding z by (auto simp: upages_def in_span_def page_aligned_unat)
  qed
  have "tree (mem one_page_user) 2 ?p2 {?p2, ?p1, ?p0}" unfolding mem numeral_2_eq_2 by (rule t2(1))
  moreover have "leaves_ok one_page_user {?p2, ?p1, ?p0} [] 0 1 (ptes one_page_user ?p2)"
    using up ptes [OF z(1)] pa(3) al(4) unfolding z
    by (simp add: leaves_ok_def phys_page_def one_page_user_def PHYSTOP_def KERNBASE_def)
  ultimately show "uspace_ok one_page_user ?p2 {?p2, ?p1, ?p0} [] 1"
    using av by (simp add: uspace_ok_def pt_ok_def MAXVA_def)
qed

section \<open>Growing user memory\<close>

lemma data_unchanged:
  assumes ok: "uspace_ok s pt P xs K" and on: "only (mem s) (mem t) (P \<union> set xs)"
    and va: "unat va < 4096 * K" and e: "ptes t pt va = ptes s pt va"
  shows "umem t pt va = umem s pt va"
proof -
  have "mem t (PTE2PA (ptes s pt va) + (va - PGROUNDDOWN va)) = mem s (PTE2PA (ptes s pt va) + (va - PGROUNDDOWN va))"
    if "user_pte (ptes s pt va)"
  proof (rule only_page [OF on])
    show "\<forall>q \<in> P \<union> set xs. page_aligned q" 
      using ok pt_ok_aligned [of s pt P xs] by (auto simp: uspace_ok_def)
    show "PTE2PA (ptes s pt va) \<notin> P \<union> set xs" using uspace_page(3) [OF ok va] that by simp
    show "in_page (PTE2PA (ptes s pt va) + (va - PGROUNDDOWN va)) (PTE2PA (ptes s pt va))" by (simp add: unat_off)
  qed simp
  then show ?thesis using e by (simp add: umem_def)
qed

lemma filled_umem:
  assumes f: "filled s P xs pt a (PTE_R OR PTE_U OR x) k D t Q ys" and ok: "pt_ok s pt P xs" "page_aligned a"
    and fl: "take_bit 10 (PTE_R OR PTE_U OR x) = PTE_R OR PTE_U OR x" and va: "in_span va a k"
  shows "umem t pt va = Some 0"
proof -
  note d = filledD [OF f]
  let ?i = "(unat va - unat a) div 4096"
  have i: "?i < k" using va by (auto simp: in_span_def div_less_iff_less_mult)
  have al: "page_aligned (D ?i)" using d(7) i pt_ok_aligned [OF ok(1)] by blast
  have e: "ptes t pt va = PA2PTE (D ?i) OR (PTE_R OR PTE_U OR x) OR PTE_V" using d(8) [of va] va by simp
  have "take_bit 10 ((PTE_R OR PTE_U OR x) OR PTE_V) = (PTE_R OR PTE_U OR x) OR PTE_V"
    using fl by (simp add: PTE_V_def take_bit_or)
  then have "PTE2PA (ptes t pt va) = D ?i"
    using PTE2PA_PA2PTE [of "(PTE_R OR PTE_U OR x) OR PTE_V" "D ?i"] al e by (simp add: or.assoc)
  moreover have "user_pte (ptes t pt va)"
  proof -
    have b: "bit (ptes t pt va) 4" "bit (ptes t pt va) 0"
      unfolding e by (simp_all add: bit_or_iff PTE_U_def PTE_V_def)
    then have "bit (ptes t pt va AND PTE_U) 4" by (simp add: bit_and_iff PTE_U_def)
    then have "ptes t pt va AND PTE_U \<noteq> 0" by (metis bit_0_eq bot_fun_def bot_bool_def)
    then show ?thesis using b(2) unfolding valid_iff by simp
  qed
  moreover have "mem t (D ?i + (va - PGROUNDDOWN va)) = 0"
    using d(9) i by (simp add: unat_off)
  ultimately show ?thesis by (simp add: umem_def)
qed

lemma second_page_free: "in_span va 4096 1 \<Longrightarrow> ptes one_page_user 0x80100000 va = 0"
proof -
  assume "in_span va 4096 1"
  then have v: "4096 \<le> unat va" "unat va < 8192" by (simp_all add: in_span_def)
  then have "va < MAXVA" by (simp add: word_less_nat_alt MAXVA_def)
  moreover have "unat (PGROUNDDOWN va) = 4096 * (unat va div 4096)"
    by (simp add: unat_PGROUNDDOWN minus_mod_eq_mult_div)
  then have "PGROUNDDOWN va \<noteq> 0" using v(1) by (auto simp: div_eq_0_iff)
  ultimately show ?thesis using user_space_ok(2) by simp
qed

section \<open>Properties\<close>

text \<open>
  C5: seen as a map from virtual addresses to entries, a page table changes under \<^verbatim>\<open>mappages\<close> exactly
  on the pages of the request: all of them on success, a first part of them when it returns -1
  because the allocator ran dry.  Tables it adds come from the free list.
\<close>

theorem mappages_refines_map:
  assumes "pt_ok s pt P xs" "page_aligned a" "0 < k" "unat a + 4096 * k \<le> unat MAXVA"
    "\<forall>va. in_span va a k \<longrightarrow> \<not> valid (ptes s pt va)"
  shows "\<exists>r t P' ys j. mappages pt a (of_nat k * PGSIZE) pa perm s = Ret r t \<and>
    pt_ok t pt P' ys \<and> P \<subseteq> P' \<and> P' \<union> set ys = P \<union> set xs \<and>
    (\<forall>va. ptes t pt va = (if in_span va a j then PA2PTE (pa + (PGROUNDDOWN va - a)) OR perm OR PTE_V
                          else ptes s pt va)) \<and>
    (r = 0 \<and> j = k \<or> r = - 1 \<and> j < k \<and> ys = [])"
proof -
  from mappages_spec [OF assms(1-4)] assms(5) obtain r t P' ys j where
    "mappages pt a (of_nat k * PGSIZE) pa perm s = Ret r t" "extends P xs s pt P' ys t"
    "ptes t pt = mapped a pa perm j (ptes s pt)" "r = 0 \<and> j = k \<or> r = - 1 \<and> j < k \<and> ys = []"
    unfolding in_span_def by blast
  then show ?thesis by (intro exI conjI) (auto simp: extends_def mapped_def in_span_def)
qed

theorem mappages_refines_map_witness:
  "\<exists>r t P' ys j. mappages 0x80100000 4096 (of_nat 1 * PGSIZE) 0x80104000 PTE_R one_page_user = Ret r t \<and>
    pt_ok t 0x80100000 P' ys \<and> (r = 0 \<and> j = 1 \<or> r = - 1 \<and> j < (1 :: nat) \<and> ys = [])"
proof -
  have a: "page_aligned 4096" "unat (4096 :: uint64) + 4096 * 1 \<le> unat MAXVA"
    by (simp_all add: page_aligned_unat MAXVA_def)
  have p: "pt_ok one_page_user 0x80100000 {0x80100000, 0x80101000, 0x80102000} []"
    using user_space_ok(1) by (simp add: uspace_ok_def)
  have z: "\<forall>va. in_span va 4096 1 \<longrightarrow> \<not> valid (ptes one_page_user 0x80100000 va)"
    using second_page_free by simp
  show ?thesis using mappages_refines_map [OF p a(1) zero_less_one a(2) z, of "0x80104000" PTE_R] by blast
qed

text \<open>
  C3: growing a process with \<^verbatim>\<open>uvmalloc\<close> either maps every new page to zeroed memory, or returns 0
  with the page map and all of user memory as they were; both ways the memory the process
  already had is untouched and no page of RAM is lost.
\<close>

theorem uvmalloc_grows_or_rolls_back:
  assumes "uspace_ok s pt P xs K" "unat oldsz \<le> unat newsz" "unat newsz \<le> unat MAXVA"
    and fl: "take_bit 10 (PTE_R OR PTE_U OR x) = PTE_R OR PTE_U OR x"
    and z: "\<forall>va. in_span va (PGROUNDUP oldsz) (npages oldsz newsz) \<longrightarrow> ptes s pt va = 0"
  shows "\<exists>r t Q ys S. uvmalloc pt oldsz newsz x s = Ret r t \<and> pt_ok t pt Q ys \<and> Q \<union> set ys \<union> S = P \<union> set xs \<and>
    (\<forall>va. unat va < 4096 * K \<and> \<not> in_span va (PGROUNDUP oldsz) (npages oldsz newsz) \<longrightarrow> umem t pt va = umem s pt va) \<and>
    (r = newsz \<and> S = leaves (PGROUNDUP oldsz) (npages oldsz newsz) (ptes t pt) \<and>
       (\<forall>va. in_span va (PGROUNDUP oldsz) (npages oldsz newsz) \<longrightarrow> umem t pt va = Some 0) \<or>
     r = 0 \<and> S = {} \<and> ptes t pt = ptes s pt)"
proof -
  let ?a = "PGROUNDUP oldsz" and ?k = "npages oldsz newsz"
  have ok: "pt_ok s pt P xs" using assms(1) by (simp add: uspace_ok_def)
  have a: "page_aligned ?a" using PGROUNDUP_props(1) assms(2,3) by simp
  have bd: "unat ?a + 4096 * ?k \<le> unat MAXVA"
    using npages_mult [OF assms(2,3)] PGROUNDUP_props(5) [OF assms(3)] by simp
  obtain r t Q ys where t: "uvmalloc pt oldsz newsz x s = Ret r t"
      "r = newsz \<and> (\<exists>D. filled s P xs pt ?a (PTE_R OR PTE_U OR x) ?k D t Q ys) \<or> r = 0 \<and> restored s P xs pt t Q ys"
    using uvmalloc_spec [OF ok assms(2,3) fl z] by blast
  from t(2) show ?thesis
  proof (elim disjE conjE exE)
    fix D assume r: "r = newsz" and f: "filled s P xs pt ?a (PTE_R OR PTE_U OR x) ?k D t Q ys"
    note d = filledD [OF f]
    have "leaves ?a ?k (ptes t pt) = D ` {..<?k}" using filled_leaves [OF f ok a bd fl] by simp
    moreover have "umem t pt va = umem s pt va" if "unat va < 4096 * K" "\<not> in_span va ?a ?k" for va
      using data_unchanged [OF assms(1) d(10) that(1)] d(8) [of va] that(2) by simp
    ultimately show ?thesis using t(1) r d(2,4) filled_umem [OF f ok a fl] by (intro exI conjI disjI1) auto
  next
    assume r: "r = 0" and f: "restored s P xs pt t Q ys"
    have "umem t pt va = umem s pt va" if "unat va < 4096 * K" for va
      using data_unchanged [OF assms(1) _ that, of t] f by (simp add: restored_def)
    then show ?thesis using t(1) r f by (intro exI [of _ r] exI [of _ t] exI [of _ Q] exI [of _ ys] exI [of _ "{}"])
        (simp add: restored_def)
  qed
qed

theorem uvmalloc_grows_or_rolls_back_witness:
  "\<exists>r t Q ys S. uvmalloc 0x80100000 4096 8192 PTE_W one_page_user = Ret r t \<and> pt_ok t 0x80100000 Q ys \<and>
    Q \<union> set ys \<union> S = {0x80100000, 0x80101000, 0x80102000} \<union> set []"
proof -
  have up: "PGROUNDUP 4096 = 4096" "PGROUNDUP 8192 = 8192" by (simp_all add: PGROUNDUP_def PGSIZE_def)
  have n: "npages 4096 8192 = 1" by (simp add: npages_def up)
  have "take_bit 10 (PTE_R OR PTE_U OR PTE_W) = PTE_R OR PTE_U OR PTE_W"
    by (simp add: pte_bits take_bit_eq_mask mask_eq_exp_minus_1)
  then show ?thesis
    using uvmalloc_grows_or_rolls_back [OF user_space_ok(1), of 4096 8192 PTE_W] second_page_free
    unfolding up n by (simp add: MAXVA_def) metis
qed

text \<open>
  C6: \<^verbatim>\<open>copyout\<close> followed by \<^verbatim>\<open>copyin\<close> of the same range gives back the bytes, whichever page
  boundaries the range crosses; the rest of user memory, the page table and the rest of the
  kernel state are as before.
\<close>

theorem copyout_copyin:
  assumes "uspace_ok s pt P xs K" "unat va + length bs \<le> 4096 * K" "uwritable s pt va (length bs)"
  shows "\<exists>t. copyout pt va bs s = Ret 0 t \<and> copyin pt va (length bs) t = Ret (0, bs) t \<and>
    t = s\<lparr>mem := mem t\<rparr> \<and> ptes t pt = ptes s pt \<and>
    (\<forall>vb. unat vb < 4096 * K \<and> \<not> (unat va \<le> unat vb \<and> unat vb < unat va + length bs) \<longrightarrow>
      umem t pt vb = umem s pt vb)"
proof -
  obtain t where t: "copyout pt va bs s = Ret 0 t" "copied s pt P xs K va bs t"
    using copyout_spec [OF assms] by blast
  have c: "t = s\<lparr>mem := mem t\<rparr>" "uspace_ok t pt P xs K" "ptes t pt = ptes s pt" "patched K va bs (umem s pt) (umem t pt)"
    using t(2) by (simp_all add: copied_def)
  have big: "unat va + length bs < 2 ^ 64" using assms(1,2) by (simp add: uspace_ok_def MAXVA_def)
  have b: "umem t pt (va + of_nat i) = Some (bs ! i)" if "i < length bs" for i
    using c(4) unat_add_small [of va i] that big assms(2) by (simp add: patched_def)
  have "map (\<lambda>i. the (umem t pt (va + of_nat i))) [0..<length bs] = bs"
    using b by (intro nth_equalityI) simp_all
  then have "copyin pt va (length bs) t = Ret (0, bs) t"
    using copyin_spec [OF c(2) assms(2)] b by simp
  then show ?thesis using t(1) c by (auto simp: patched_def)
qed

theorem copyout_copyin_witness:
  "\<exists>t. copyout 0x80100000 5 [1, 2, 3] one_page_user = Ret 0 t \<and>
    copyin 0x80100000 5 3 t = Ret (0, [1, 2, 3]) t"
proof -
  have "uwritable one_page_user 0x80100000 5 3"
  proof (unfold uwritable_def, intro allI impI)
    fix i :: nat assume i: "i < 3"
    have "unat (5 + of_nat i :: uint64) = 5 + i" using unat_add_small [of 5 i] i by simp
    then have "5 + of_nat i < MAXVA" "PGROUNDDOWN (5 + of_nat i) = 0"
      using i by (simp_all add: word_less_nat_alt MAXVA_def word_unat_eq_iff unat_PGROUNDDOWN)
    then show "user_wpte (ptes one_page_user 0x80100000 (5 + of_nat i))"
      using user_space_ok(2) by (simp add: user_flags_def PTE_U_def PTE_W_def PTE_V_def PTE_R_def PA2PTE_def)
  qed
  then show ?thesis
    using copyout_copyin [OF user_space_ok(1), of 5 "[1, 2, 3]"] by (auto simp: numeral_3_eq_3)
qed

end
