(* ===== verification/Sleeplock.thy ===== *)
theory Sleeplock
  imports Vm
begin

text \<open>
  Sleep locks (\<^verbatim>\<open>kernel/sleeplock.c\<close>).  A thread that finds the lock taken is left asleep on its
  channel; when it is woken it goes on with \<open>acquiresleep_loop\<close>, which tests the lock again.
  The second half gives the behaviour of a thread that runs alone on its CPU with no spin lock
  held anywhere, the state every system call starts from.
\<close>

section \<open>State and operations\<close>

record sleeplock =
  sl_locked :: uint32
  sl_name :: string
  sl_pid :: int

record sl_state = vm_state +
  sleeplocks :: "sleeplock_id \<Rightarrow> sleeplock"

definition upd_sl :: "sleeplock_id \<Rightarrow> (sleeplock \<Rightarrow> sleeplock) \<Rightarrow> 'a sl_state_scheme \<Rightarrow> 'a sl_state_scheme" where
  "upd_sl lk f s = s\<lparr>sleeplocks := (sleeplocks s)(lk := f (sleeplocks s lk))\<rparr>"

definition initsleeplock :: "sleeplock_id \<Rightarrow> string \<Rightarrow> 'a sl_state_scheme \<Rightarrow> 'a sl_state_scheme" where
  "initsleeplock lk name s =
     (let s = initlock (L_sleep lk) ''sleep lock'' s
      in upd_sl lk (\<lambda>l. l\<lparr>sl_name := name, sl_locked := 0, sl_pid := 0\<rparr>) s)"

text \<open>The loop of \<^verbatim>\<open>acquiresleep\<close> and what follows it, with the spin lock held.\<close>

definition acquiresleep_loop :: "sleeplock_id \<Rightarrow> 'a sl_state_scheme \<Rightarrow> (unit, 'a sl_state_scheme) kres" where
  "acquiresleep_loop lk s =
     (if sl_locked (sleeplocks s lk) \<noteq> 0 then sleep (Chan_sleeplock lk) (L_sleep lk) s
      else let s = upd_sl lk (\<lambda>l. l\<lparr>sl_locked := 1\<rparr>) s in
        with_myproc (\<lambda>p s.
          let s = upd_sl lk (\<lambda>l. l\<lparr>sl_pid := p_pid (procs s p)\<rparr>) s in
          release (L_sleep lk) s) s)"

definition acquiresleep :: "sleeplock_id \<Rightarrow> 'a sl_state_scheme \<Rightarrow> (unit, 'a sl_state_scheme) kres" where
  "acquiresleep lk s =
     kbind (acquire (L_sleep lk) s) (\<lambda>_ s.
     acquiresleep_loop lk s)"

definition releasesleep :: "sleeplock_id \<Rightarrow> 'a sl_state_scheme \<Rightarrow> (unit, 'a sl_state_scheme) kres" where
  "releasesleep lk s =
     kbind (acquire (L_sleep lk) s) (\<lambda>_ s.
     let s = upd_sl lk (\<lambda>l. l\<lparr>sl_locked := 0\<rparr>) s;
         s = upd_sl lk (\<lambda>l. l\<lparr>sl_pid := 0\<rparr>) s in
     kbind (wakeup (Chan_sleeplock lk) s) (\<lambda>_ s.
     release (L_sleep lk) s))"

definition holdingsleep :: "sleeplock_id \<Rightarrow> 'a sl_state_scheme \<Rightarrow> (bool, 'a sl_state_scheme) kres" where
  "holdingsleep lk s =
     kbind (acquire (L_sleep lk) s) (\<lambda>_ s.
     kbind (if sl_locked (sleeplocks s lk) \<noteq> 0
            then with_myproc (\<lambda>p s. Ret (sl_pid (sleeplocks s lk) = p_pid (procs s p)) s) s
            else Ret False s) (\<lambda>r s.
     kbind (release (L_sleep lk) s) (\<lambda>_ s.
     Ret r s)))"

section \<open>Reading through critical sections\<close>

lemma vm_hold [simp]:
  "kernel_pagetable (hold lk s) = kernel_pagetable s" "satp (hold lk s) = satp s"
  "kernel_pagetable (settle s) = kernel_pagetable s" "satp (settle s) = satp s"
  "kernel_pagetable (upd_proc p f s) = kernel_pagetable s" "satp (upd_proc p f s) = satp s"
  by (simp_all add: lock_defs upd_proc_def)

lemma sl_hold [simp]:
  "sleeplocks (hold lk s) = sleeplocks s" "sleeplocks (settle s) = sleeplocks s"
  "upd_sl l f (hold lk s) = hold lk (upd_sl l f s)" "upd_sl l f (settle s) = settle (upd_sl l f s)"
  "sleeplocks (upd_proc p h s) = sleeplocks s" "sleeplocks (wake_set ch A s) = sleeplocks s"
  "sleeplocks (upd_sl l f s) = (sleeplocks s)(l := f (sleeplocks s l))"
  "procs (upd_sl l f s) = procs s" "ticks (upd_sl l f s) = ticks s" "mem (upd_sl l f s) = mem s"
  "locks (upd_sl l f s) = locks s" "cpus (upd_sl l f s) = cpus s" "tp (upd_sl l f s) = tp s"
  "upd_sl l f (upd_sl l g s) = upd_sl l (\<lambda>x. f (g x)) s"
  by (simp_all add: lock_defs upd_sl_def upd_proc_def wake_set_def)

lemma sl_frame [simp]:
  "may_lock lk (upd_sl l f s) = may_lock lk s" "free_but A (upd_sl l f s) = free_but A s"
  "cpu_ok (upd_sl l f s) = cpu_ok s" "mycpu (upd_sl l f s) = mycpu s"
  by (simp_all add: may_lock_def lock_free_def cpu_ok_def free_but_def cpu_defs upd_sl_def)

section \<open>A thread on its own\<close>

text \<open>Process \<open>p\<close> runs on this CPU, outside every critical section, and no spin lock is held.\<close>

definition calm :: "nat \<Rightarrow> 'a lock_state_scheme \<Rightarrow> bool" where
  "calm p s \<longleftrightarrow> noff (mycpu s) = 0 \<and> intena (mycpu s) = sie (mycpu s) \<and> cpu_proc (mycpu s) = Some p \<and>
     (\<forall>lk. lock_free lk s)"

lemma calm_free: "calm p s \<Longrightarrow> free_but {} s"
  by (simp add: calm_def free_but_def cpu_ok_def)

lemma settle_id [simp]: "noff (mycpu s) = 0 \<Longrightarrow> intena (mycpu s) = sie (mycpu s) \<Longrightarrow> settle s = s"
proof -
  assume "intena (mycpu s) = sie (mycpu s)"
  then have "(mycpu s)\<lparr>intena := sie (mycpu s)\<rparr> = mycpu s" by (simp add: cpu.equality)
  then show ?thesis by (simp add: settle_def cpu_defs)
qed

lemma calm_cpu [simp]:
  "calm p s \<Longrightarrow> noff (mycpu s) = 0" "calm p s \<Longrightarrow> intena (mycpu s) = sie (mycpu s)"
  "calm p s \<Longrightarrow> current s = Some p"
  by (simp_all add: calm_def)

lemma calmD [simp]:
  assumes "calm p s"
  shows "cpu_ok s" "may_lock lk s" "with_myproc f s = f p s"
proof -
  show c: "cpu_ok s" and "may_lock lk s"
    using calm_free [OF assms] by (simp_all add: free_but_def may_lock_def)
  show "with_myproc f s = f p s" using assms c by (simp add: with_myproc_eq)
qed

lemma calm_cong: "locks t = locks s \<Longrightarrow> cpus t = cpus s \<Longrightarrow> tp t = tp s \<Longrightarrow> calm p t = calm p s"
  by (simp add: calm_def cpu_defs lock_free_def)

lemma calm_upd [simp]:
  "calm p (upd_sl l f s) = calm p s" "calm p (upd_proc q g s) = calm p s" "calm p (wake_set ch A s) = calm p s"
  "calm p (mem_update h s) = calm p s" "calm p (sleeplocks_update sl s) = calm p s"
  by (rule calm_cong, simp_all add: wake_set_def)+

lemma hold_with_myproc [simp]: "calm p s \<Longrightarrow> with_myproc f (hold lk s) = f p (hold lk s)"
  by (simp add: with_myproc_eq)

lemma wakeup_calm:
  assumes "calm p s"
  shows "wakeup ch s = Ret () (wake_set ch {..<NPROC} s)"
    "lk \<notin> range L_proc \<Longrightarrow> wakeup ch (hold lk s) = Ret () (hold lk (wake_set ch {..<NPROC} s))"
proof -
  show "wakeup ch s = Ret () (wake_set ch {..<NPROC} s)"
    using assms by (subst wakeup_eq) simp_all
  show "wakeup ch (hold lk s) = Ret () (hold lk (wake_set ch {..<NPROC} s))" if "lk \<notin> range L_proc"
  proof -
    have "L_proc q \<noteq> lk" for q using that by blast
    then show ?thesis using assms by (subst wakeup_eq) simp_all
  qed
qed

text \<open>The lock as taken by \<open>p\<close>, and as given back.\<close>

abbreviation take_sl :: "sleeplock_id \<Rightarrow> nat \<Rightarrow> 'a sl_state_scheme \<Rightarrow> 'a sl_state_scheme" where
  "take_sl lk p s \<equiv> upd_sl lk (\<lambda>l. l\<lparr>sl_locked := 1, sl_pid := p_pid (procs s p)\<rparr>) s"

abbreviation drop_sl :: "sleeplock_id \<Rightarrow> 'a sl_state_scheme \<Rightarrow> 'a sl_state_scheme" where
  "drop_sl lk s \<equiv> wake_set (Chan_sleeplock lk) {..<NPROC} (upd_sl lk (\<lambda>l. l\<lparr>sl_locked := 0, sl_pid := 0\<rparr>) s)"

lemma acquiresleep_free:
  "calm p s \<Longrightarrow> sl_locked (sleeplocks s lk) = 0 \<Longrightarrow> acquiresleep lk s = Ret () (take_sl lk p s)"
  by (simp add: acquiresleep_def acquiresleep_loop_def Let_def)

lemma acquiresleep_taken:
  "calm p s \<Longrightarrow> sl_locked (sleeplocks s lk) \<noteq> 0 \<Longrightarrow> acquiresleep lk s =
    Wait OnSched (hold (L_proc p) (upd_proc p (asleep (Chan_sleeplock lk) (ticks64 s)) s))"
  by (simp add: acquiresleep_def acquiresleep_loop_def sleep_eq)

lemma releasesleep_calm: "calm p s \<Longrightarrow> releasesleep lk s = Ret () (drop_sl lk s)"
  by (simp add: releasesleep_def Let_def wakeup_calm image_iff)

lemma holdingsleep_calm:
  "calm p s \<Longrightarrow> holdingsleep lk s =
    Ret (sl_locked (sleeplocks s lk) \<noteq> 0 \<and> sl_pid (sleeplocks s lk) = p_pid (procs s p)) s"
  by (simp add: holdingsleep_def)

end
