(* ===== verification/Bio.thy ===== *)
theory Bio
  imports Sleeplock
begin

text \<open>
  The buffer cache (\<^verbatim>\<open>kernel/bio.c\<close>, \<^verbatim>\<open>kernel/buf.h\<close>).  Buffers are indices of \<^verbatim>\<open>bcache.buf[]\<close>;
  index \<open>NBUF\<close> is \<^verbatim>\<open>bcache.head\<close>, and the list is the chain of \<open>b_next\<close> and \<open>b_prev\<close> links,
  as in the code.  A block is its array of bytes, as a function of the index.  The disk is a
  field of the state: \<open>disk_rw\<close> is the transfer the driver performs for its caller, who sleeps
  until it is done.  \<open>disk_trace\<close> is a history of the disk writes that no operation reads; the
  crash theorems of the log are stated with it.
\<close>

section \<open>State\<close>

type_synonym block = "nat \<Rightarrow> uchar"

definition BSIZE :: nat where "BSIZE = 1024"

record buf =
  b_valid :: int
  b_disk :: int
  b_dev :: uint32
  b_blockno :: uint32
  b_refcnt :: uint32
  b_prev :: nat
  b_next :: nat
  b_data :: block

record bio_state = sl_state +
  bufs :: "nat \<Rightarrow> buf"
  disk :: "uint32 \<Rightarrow> block"
  disk_trace :: "(uint32 \<times> block) list"

abbreviation bhead :: nat where
  "bhead \<equiv> NBUF"

definition upd_buf :: "nat \<Rightarrow> (buf \<Rightarrow> buf) \<Rightarrow> 'a bio_state_scheme \<Rightarrow> 'a bio_state_scheme" where
  "upd_buf b f s = s\<lparr>bufs := (bufs s)(b := f (bufs s b))\<rparr>"

text \<open>The integer fields of structs overlaid on a block, at their byte offset.\<close>

definition rd :: "nat \<Rightarrow> block \<Rightarrow> nat \<Rightarrow> 'a::len word" where
  "rd n d off = le_word (map d [off..<off + n])"

definition wr :: "block \<Rightarrow> nat \<Rightarrow> uchar list \<Rightarrow> block" where
  "wr d off bs = (\<lambda>i. if off \<le> i \<and> i < off + length bs then bs ! (i - off) else d i)"

abbreviation rd16 :: "block \<Rightarrow> nat \<Rightarrow> ushort" where "rd16 \<equiv> rd 2"
abbreviation rd32 :: "block \<Rightarrow> nat \<Rightarrow> uint32" where "rd32 \<equiv> rd 4"

definition wr16 :: "nat \<Rightarrow> ushort \<Rightarrow> block \<Rightarrow> block" where
  "wr16 off w d = wr d off (le_bytes 2 w)"

definition wr32 :: "nat \<Rightarrow> uint32 \<Rightarrow> block \<Rightarrow> block" where
  "wr32 off w d = wr d off (le_bytes 4 w)"

section \<open>Operations\<close>

text \<open>
  \<^verbatim>\<open>virtio_disk_rw\<close> as its caller sees it: the block is transferred and the buffer is no longer
  owned by the disk.
\<close>

definition disk_rw :: "nat \<Rightarrow> bool \<Rightarrow> 'a bio_state_scheme \<Rightarrow> 'a bio_state_scheme" where
  "disk_rw b write s =
     (let bno = b_blockno (bufs s b);
          s = (if write then s\<lparr>disk := (disk s)(bno := b_data (bufs s b)),
                               disk_trace := disk_trace s @ [(bno, b_data (bufs s b))]\<rparr>
               else upd_buf b (b_data_update (\<lambda>_. disk s bno)) s)
      in upd_buf b (b_disk_update (\<lambda>_. 0)) s)"

text \<open>\<open>b\<close> becomes the first element of the list.\<close>

definition push_head :: "nat \<Rightarrow> 'a bio_state_scheme \<Rightarrow> 'a bio_state_scheme" where
  "push_head b s =
     (let s = upd_buf (b_next (bufs s bhead)) (b_prev_update (\<lambda>_. b)) s
      in upd_buf bhead (b_next_update (\<lambda>_. b)) s)"

definition binit :: "'a bio_state_scheme \<Rightarrow> 'a bio_state_scheme" where
  "binit s =
     (let s = initlock L_bcache ''bcache'' s;
          s = upd_buf bhead (b_prev_update (\<lambda>_. bhead)) s;
          s = upd_buf bhead (b_next_update (\<lambda>_. bhead)) s
      in fold (\<lambda>b s.
           let s = upd_buf b (b_next_update (\<lambda>_. b_next (bufs s bhead))) s;
               s = upd_buf b (b_prev_update (\<lambda>_. bhead)) s;
               s = initsleeplock (SL_buf b) ''buffer'' s
           in push_head b s) [0..<NBUF] s)"

text \<open>The two scans of \<^verbatim>\<open>bget\<close>, from the buffer \<open>b\<close> on.\<close>

partial_function (option) find_cached ::
  "(nat \<Rightarrow> buf) \<Rightarrow> uint32 \<Rightarrow> uint32 \<Rightarrow> nat \<Rightarrow> nat option option" where
  "find_cached bs dev blockno b =
     (if b = bhead then Some None
      else if b_dev (bs b) = dev \<and> b_blockno (bs b) = blockno then Some (Some b)
      else find_cached bs dev blockno (b_next (bs b)))"

partial_function (option) find_unused :: "(nat \<Rightarrow> buf) \<Rightarrow> nat \<Rightarrow> nat option option" where
  "find_unused bs b =
     (if b = bhead then Some None
      else if b_refcnt (bs b) = 0 then Some (Some b)
      else find_unused bs (b_prev (bs b)))"

definition bget :: "uint32 \<Rightarrow> uint32 \<Rightarrow> 'a bio_state_scheme \<Rightarrow> (nat, 'a bio_state_scheme) kres" where
  "bget dev blockno s =
     kbind (acquire L_bcache s) (\<lambda>_ s.
     case find_cached (bufs s) dev blockno (b_next (bufs s bhead)) of
       None \<Rightarrow> Diverge
     | Some (Some b) \<Rightarrow>
         let s = upd_buf b (b_refcnt_update (\<lambda>r. r + 1)) s in
         kbind (release L_bcache s) (\<lambda>_ s.
         kbind (acquiresleep (SL_buf b) s) (\<lambda>_ s.
         Ret b s))
     | Some None \<Rightarrow>
       (case find_unused (bufs s) (b_prev (bufs s bhead)) of
          None \<Rightarrow> Diverge
        | Some (Some b) \<Rightarrow>
            let s = upd_buf b (b_dev_update (\<lambda>_. dev)) s;
                s = upd_buf b (b_blockno_update (\<lambda>_. blockno)) s;
                s = upd_buf b (b_valid_update (\<lambda>_. 0)) s;
                s = upd_buf b (b_refcnt_update (\<lambda>_. 1)) s in
            kbind (release L_bcache s) (\<lambda>_ s.
            kbind (acquiresleep (SL_buf b) s) (\<lambda>_ s.
            Ret b s))
        | Some None \<Rightarrow> Panic ''bget: no buffers''))"

definition bread :: "uint32 \<Rightarrow> uint32 \<Rightarrow> 'a bio_state_scheme \<Rightarrow> (nat, 'a bio_state_scheme) kres" where
  "bread dev blockno s =
     kbind (bget dev blockno s) (\<lambda>b s.
     if b_valid (bufs s b) = 0 then
       let s = disk_rw b False s in
       Ret b (upd_buf b (b_valid_update (\<lambda>_. 1)) s)
     else Ret b s)"

definition bwrite :: "nat \<Rightarrow> 'a bio_state_scheme \<Rightarrow> (unit, 'a bio_state_scheme) kres" where
  "bwrite b s =
     kbind (holdingsleep (SL_buf b) s) (\<lambda>h s.
     if \<not> h then Panic ''bwrite'' else Ret () (disk_rw b True s))"

definition brelse :: "nat \<Rightarrow> 'a bio_state_scheme \<Rightarrow> (unit, 'a bio_state_scheme) kres" where
  "brelse b s =
     kbind (holdingsleep (SL_buf b) s) (\<lambda>h s.
     if \<not> h then Panic ''brelse''
     else kbind (releasesleep (SL_buf b) s) (\<lambda>_ s.
       kbind (acquire L_bcache s) (\<lambda>_ s.
       let s = upd_buf b (b_refcnt_update (\<lambda>r. r - 1)) s;
           s = (if b_refcnt (bufs s b) = 0 then
                  let s = upd_buf (b_next (bufs s b)) (b_prev_update (\<lambda>_. b_prev (bufs s b))) s;
                      s = upd_buf (b_prev (bufs s b)) (b_next_update (\<lambda>_. b_next (bufs s b))) s;
                      s = upd_buf b (b_next_update (\<lambda>_. b_next (bufs s bhead))) s;
                      s = upd_buf b (b_prev_update (\<lambda>_. bhead)) s
                  in push_head b s
                else s) in
       release L_bcache s)))"

definition bpin :: "nat \<Rightarrow> 'a bio_state_scheme \<Rightarrow> (unit, 'a bio_state_scheme) kres" where
  "bpin b s =
     kbind (acquire L_bcache s) (\<lambda>_ s.
     let s = upd_buf b (b_refcnt_update (\<lambda>r. r + 1)) s in
     release L_bcache s)"

definition bunpin :: "nat \<Rightarrow> 'a bio_state_scheme \<Rightarrow> (unit, 'a bio_state_scheme) kres" where
  "bunpin b s =
     kbind (acquire L_bcache s) (\<lambda>_ s.
     let s = upd_buf b (b_refcnt_update (\<lambda>r. r - 1)) s in
     release L_bcache s)"

section \<open>Fields of a block\<close>

lemma rd_wr_same:
  "LENGTH('a) \<le> 8 * n \<Longrightarrow> (rd n (wr d off (le_bytes n w)) off :: 'a::len word) = w"
proof -
  assume a: "LENGTH('a) \<le> 8 * n"
  have "map (wr d off (le_bytes n w)) [off..<off + n] = le_bytes n w"
    by (intro nth_equalityI) (simp_all add: wr_def)
  then show ?thesis using a by (simp add: rd_def)
qed

lemma rd_wr_other: "o2 + n \<le> o1 \<or> o1 + length bs \<le> o2 \<Longrightarrow> rd n (wr d o1 bs) o2 = rd n d o2"
proof -
  assume a: "o2 + n \<le> o1 \<or> o1 + length bs \<le> o2"
  have "map (wr d o1 bs) [o2..<o2 + n] = map d [o2..<o2 + n]" using a by (auto simp: wr_def)
  then show ?thesis unfolding rd_def by (rule arg_cong)
qed

lemma rd16_wr [simp]:
  "rd16 (wr16 off w d) off = w"
  "o2 + 2 \<le> o1 \<or> o1 + 2 \<le> o2 \<Longrightarrow> rd16 (wr16 o1 w d) o2 = rd16 d o2"
  "o2 + 2 \<le> o1 \<or> o1 + 4 \<le> o2 \<Longrightarrow> rd16 (wr32 o1 x d) o2 = rd16 d o2"
  by (simp_all add: wr16_def wr32_def rd_wr_same rd_wr_other)

lemma rd32_wr [simp]:
  "rd32 (wr32 off x d) off = x"
  "o2 + 4 \<le> o1 \<or> o1 + 4 \<le> o2 \<Longrightarrow> rd32 (wr32 o1 x d) o2 = rd32 d o2"
  "o2 + 4 \<le> o1 \<or> o1 + 2 \<le> o2 \<Longrightarrow> rd32 (wr16 o1 w d) o2 = rd32 d o2"
  by (simp_all add: wr16_def wr32_def rd_wr_same rd_wr_other)

section \<open>Reading through critical sections\<close>

lemma bio_hold [simp]:
  "bufs (hold lk s) = bufs s" "disk (hold lk s) = disk s" "disk_trace (hold lk s) = disk_trace s"
  "bufs (settle s) = bufs s" "disk (settle s) = disk s" "disk_trace (settle s) = disk_trace s"
  "upd_buf b f (hold lk s) = hold lk (upd_buf b f s)" "upd_buf b f (settle s) = settle (upd_buf b f s)"
  "bufs (upd_sl l h s) = bufs s" "disk (upd_sl l h s) = disk s" "disk_trace (upd_sl l h s) = disk_trace s"
  "bufs (wake_set ch A s) = bufs s" "disk (wake_set ch A s) = disk s"
  "disk_trace (wake_set ch A s) = disk_trace s"
  by (simp_all add: lock_defs upd_buf_def upd_sl_def wake_set_def)

lemma bio_upd [simp]:
  "bufs (upd_buf b f s) = (bufs s)(b := f (bufs s b))" "disk (upd_buf b f s) = disk s"
  "disk_trace (upd_buf b f s) = disk_trace s"
  "sleeplocks (upd_buf b f s) = sleeplocks s" "procs (upd_buf b f s) = procs s"
  "may_lock lk (upd_buf b f s) = may_lock lk s" "cpu_ok (upd_buf b f s) = cpu_ok s"
  "mycpu (upd_buf b f s) = mycpu s" "calm p (upd_buf b f s) = calm p s"
  "calm p (disk_update d s) = calm p s" "calm p (disk_trace_update tr s) = calm p s"
  "upd_buf b f (upd_buf b g s) = upd_buf b (\<lambda>x. f (g x)) s"
  by (simp_all add: upd_buf_def may_lock_def lock_free_def cpu_ok_def calm_def cpu_defs)

end
