(* ===== verification/Log.thy ===== *)
theory Log
  imports Bio
begin

text \<open>
  The redo log (\<^verbatim>\<open>kernel/log.c\<close>).  The on-disk header is the struct \<^verbatim>\<open>logheader\<close> overlaid on
  block \<^verbatim>\<open>log.start\<close>: the count at offset 0, block number \<open>i\<close> at offset \<open>4 + 4 * i\<close>.  Reading a
  header with more than \<^verbatim>\<open>LOGBLOCKS\<close> entries runs past the array of the in-memory header, which C
  leaves undefined.  A thread that must wait in \<^verbatim>\<open>begin_op\<close> is left asleep on the log; woken, it goes on
  with \<open>begin_op_loop\<close>.
\<close>

section \<open>State\<close>

record logheader =
  lh_n :: int
  lh_block :: "nat \<Rightarrow> int"

record log_state = bio_state +
  log_start :: int
  log_outstanding :: int
  log_committing :: int
  log_dev :: int
  log_lh :: logheader

section \<open>Operations\<close>

text \<open>\<^verbatim>\<open>bread\<close> called with \<^verbatim>\<open>int\<close> arguments.\<close>

abbreviation bread_int :: "int \<Rightarrow> int \<Rightarrow> 'a bio_state_scheme \<Rightarrow> (nat, 'a bio_state_scheme) kres" where
  "bread_int dev bno s \<equiv> bread (word_of_int dev) (word_of_int bno) s"

definition install_trans :: "int \<Rightarrow> 'a log_state_scheme \<Rightarrow> (unit, 'a log_state_scheme) kres" where
  "install_trans recovering s =
     kfor [0..<nat (lh_n (log_lh s))] (\<lambda>tail s.
       kbind (if recovering \<noteq> 0
              then printf ''recovering tail %d dst %d\<newline>''
                     [PWord (of_nat tail), PWord (of_cint (lh_block (log_lh s) tail))] s
              else Ret 0 s) (\<lambda>_ s.
       kbind (bread_int (log_dev s) (log_start s + int tail + 1) s) (\<lambda>lbuf s.
       kbind (bread_int (log_dev s) (lh_block (log_lh s) tail) s) (\<lambda>dbuf s.
       let s = upd_buf dbuf (b_data_update (\<lambda>_. b_data (bufs s lbuf))) s in
       kbind (bwrite dbuf s) (\<lambda>_ s.
       kbind (if recovering = 0 then bunpin dbuf s else Ret () s) (\<lambda>_ s.
       kbind (brelse lbuf s) (\<lambda>_ s.
       brelse dbuf s))))))) s"

definition read_head :: "'a log_state_scheme \<Rightarrow> (unit, 'a log_state_scheme) kres" where
  "read_head s =
     kbind (bread_int (log_dev s) (log_start s) s) (\<lambda>buf s.
     let lh = b_data (bufs s buf);
         s = s\<lparr>log_lh := (log_lh s)\<lparr>lh_n := sint (rd32 lh 0)\<rparr>\<rparr> in
     kbind (kfor [0..<nat (lh_n (log_lh s))] (\<lambda>i s.
        if i < LOGBLOCKS
        then Ret () (s\<lparr>log_lh := (log_lh s)\<lparr>lh_block :=
               (lh_block (log_lh s))(i := sint (rd32 lh (4 + 4 * i)))\<rparr>\<rparr>)
        else Undef) s) (\<lambda>_ s.
     brelse buf s))"

definition write_head :: "'a log_state_scheme \<Rightarrow> (unit, 'a log_state_scheme) kres" where
  "write_head s =
     kbind (bread_int (log_dev s) (log_start s) s) (\<lambda>buf s.
     let s = upd_buf buf (b_data_update (wr32 0 (word_of_int (lh_n (log_lh s))))) s in
     kbind (kfor [0..<nat (lh_n (log_lh s))] (\<lambda>i s.
        if i < LOGBLOCKS
        then Ret () (upd_buf buf (b_data_update (wr32 (4 + 4 * i) (word_of_int (lh_block (log_lh s) i)))) s)
        else Undef) s) (\<lambda>_ s.
     kbind (bwrite buf s) (\<lambda>_ s.
     brelse buf s)))"

definition recover_from_log :: "'a log_state_scheme \<Rightarrow> (unit, 'a log_state_scheme) kres" where
  "recover_from_log s =
     kbind (read_head s) (\<lambda>_ s.
     kbind (install_trans 1 s) (\<lambda>_ s.
     let s = s\<lparr>log_lh := (log_lh s)\<lparr>lh_n := 0\<rparr>\<rparr> in
     write_head s))"

text \<open>\<^verbatim>\<open>sizeof(struct logheader)\<close> is 4 bytes for the count and 4 per block number.\<close>

definition initlog :: "int \<Rightarrow> uint32 \<Rightarrow> 'a log_state_scheme \<Rightarrow> (unit, 'a log_state_scheme) kres" where
  "initlog dev logstart s =
     (if 4 + 4 * LOGBLOCKS \<ge> BSIZE then Panic ''initlog: too big logheader''
      else let s = initlock L_log ''log'' s;
               s = s\<lparr>log_start := sint logstart\<rparr>;
               s = s\<lparr>log_dev := dev\<rparr> in
           recover_from_log s)"

definition begin_op_loop :: "'a log_state_scheme \<Rightarrow> (unit, 'a log_state_scheme) kres" where
  "begin_op_loop s =
     (if log_committing s \<noteq> 0 then sleep Chan_log L_log s
      else if lh_n (log_lh s) + (log_outstanding s + 1) * int MAXOPBLOCKS > int LOGBLOCKS
      then sleep Chan_log L_log s
      else let s = s\<lparr>log_outstanding := log_outstanding s + 1\<rparr> in
           release L_log s)"

definition begin_op :: "'a log_state_scheme \<Rightarrow> (unit, 'a log_state_scheme) kres" where
  "begin_op s = kbind (acquire L_log s) (\<lambda>_ s. begin_op_loop s)"

definition write_log :: "'a log_state_scheme \<Rightarrow> (unit, 'a log_state_scheme) kres" where
  "write_log s =
     kfor [0..<nat (lh_n (log_lh s))] (\<lambda>tail s.
       kbind (bread_int (log_dev s) (log_start s + int tail + 1) s) (\<lambda>to s.
       kbind (bread_int (log_dev s) (lh_block (log_lh s) tail) s) (\<lambda>from s.
       let s = upd_buf to (b_data_update (\<lambda>_. b_data (bufs s from))) s in
       kbind (bwrite to s) (\<lambda>_ s.
       kbind (brelse from s) (\<lambda>_ s.
       brelse to s))))) s"

definition commit :: "'a log_state_scheme \<Rightarrow> (unit, 'a log_state_scheme) kres" where
  "commit s =
     (if lh_n (log_lh s) > 0 then
        kbind (write_log s) (\<lambda>_ s.
        kbind (write_head s) (\<lambda>_ s.
        kbind (install_trans 0 s) (\<lambda>_ s.
        let s = s\<lparr>log_lh := (log_lh s)\<lparr>lh_n := 0\<rparr>\<rparr> in
        write_head s)))
      else Ret () s)"

definition end_op :: "'a log_state_scheme \<Rightarrow> (unit, 'a log_state_scheme) kres" where
  "end_op s =
     kbind (acquire L_log s) (\<lambda>_ s.
     let s = s\<lparr>log_outstanding := log_outstanding s - 1\<rparr> in
     if log_committing s \<noteq> 0 then Panic ''log.committing''
     else kbind (if log_outstanding s = 0 then Ret True (s\<lparr>log_committing := 1\<rparr>)
                 else kbind (wakeup Chan_log s) (\<lambda>_ s. Ret False s)) (\<lambda>do_commit s.
       kbind (release L_log s) (\<lambda>_ s.
       if do_commit then
         kbind (commit s) (\<lambda>_ s.
         kbind (acquire L_log s) (\<lambda>_ s.
         let s = s\<lparr>log_committing := 0\<rparr> in
         kbind (wakeup Chan_log s) (\<lambda>_ s.
         release L_log s)))
       else Ret () s)))"

text \<open>The index the search loop of \<^verbatim>\<open>log_write\<close> ends at.\<close>

definition log_slot :: "logheader \<Rightarrow> uint32 \<Rightarrow> nat" where
  "log_slot lh bno =
     (case find (\<lambda>i. word_of_int (lh_block lh i) = bno) [0..<nat (lh_n lh)] of
        Some i \<Rightarrow> i
      | None \<Rightarrow> nat (lh_n lh))"

definition log_write :: "nat \<Rightarrow> 'a log_state_scheme \<Rightarrow> (unit, 'a log_state_scheme) kres" where
  "log_write b s =
     kbind (acquire L_log s) (\<lambda>_ s.
     if lh_n (log_lh s) \<ge> int LOGBLOCKS then Panic ''too big a transaction''
     else if log_outstanding s < 1 then Panic ''log_write outside of trans''
     else let i = log_slot (log_lh s) (b_blockno (bufs s b));
              s = s\<lparr>log_lh := (log_lh s)\<lparr>lh_block :=
                    (lh_block (log_lh s))(i := sint (b_blockno (bufs s b)))\<rparr>\<rparr> in
          kbind (if int i = lh_n (log_lh s) then
                   kbind (bpin b s) (\<lambda>_ s.
                   Ret () (s\<lparr>log_lh := (log_lh s)\<lparr>lh_n := lh_n (log_lh s) + 1\<rparr>\<rparr>))
                 else Ret () s) (\<lambda>_ s.
          release L_log s))"

end
