(* ===== verification/Fs.thy ===== *)
theory Fs
  imports Log
begin

text \<open>
  The file system below the open-file layer (\<^verbatim>\<open>kernel/fs.c\<close>, \<^verbatim>\<open>kernel/fs.h\<close>): block allocation,
  the inode table, inode contents, directories and path names.  An inode pointer is an index of
  \<^verbatim>\<open>itable.inode[]\<close>, \<open>None\<close> where the code may pass or return a null pointer.  On-disk structs are
  overlaid on blocks at the offsets the C layout gives them.  A path and a name are the bytes before
  the terminating NUL; \<^verbatim>\<open>name[DIRSIZ]\<close> holds at most \<^verbatim>\<open>DIRSIZ\<close> of them.
\<close>

unbundle bit_operations_syntax

section \<open>Constants and state\<close>

definition ROOTINO :: uint32 where "ROOTINO = 1"
definition FSMAGIC :: uint32 where "FSMAGIC = 0x10203040"
definition NDIRECT :: nat where "NDIRECT = 12"
definition NINDIRECT :: nat where "NINDIRECT = BSIZE div 4"
definition MAXFILE :: nat where "MAXFILE = NDIRECT + NINDIRECT"
definition IPB :: nat where "IPB = BSIZE div 64"
definition BPB :: nat where "BPB = BSIZE * 8"
definition DIRSIZ :: nat where "DIRSIZ = 14"
definition T_DIR :: ushort where "T_DIR = 1"
definition T_FILE :: ushort where "T_FILE = 2"
definition T_DEVICE :: ushort where "T_DEVICE = 3"

record superblock =
  sb_magic :: uint32
  sb_size :: uint32
  sb_nblocks :: uint32
  sb_ninodes :: uint32
  sb_nlog :: uint32
  sb_logstart :: uint32
  sb_inodestart :: uint32
  sb_bmapstart :: uint32

record inode =
  i_dev :: uint32
  i_inum :: uint32
  i_ref :: int
  i_valid :: int
  i_type :: ushort
  i_major :: ushort
  i_minor :: ushort
  i_nlink :: ushort
  i_size :: uint32
  i_addrs :: "nat \<Rightarrow> uint32"

record fs_state = log_state +
  sb :: superblock
  inodes :: "nat \<Rightarrow> inode"

definition upd_inode :: "nat \<Rightarrow> (inode \<Rightarrow> inode) \<Rightarrow> 'a fs_state_scheme \<Rightarrow> 'a fs_state_scheme" where
  "upd_inode i f s = s\<lparr>inodes := (inodes s)(i := f (inodes s i))\<rparr>"

definition IBLOCK :: "uint32 \<Rightarrow> superblock \<Rightarrow> uint32" where
  "IBLOCK i su = of_nat (unat i div IPB) + sb_inodestart su"

definition BBLOCK :: "uint32 \<Rightarrow> superblock \<Rightarrow> uint32" where
  "BBLOCK b su = of_nat (unat b div BPB) + sb_bmapstart su"

section \<open>Super block\<close>

definition readsb :: "uint32 \<Rightarrow> 'a fs_state_scheme \<Rightarrow> (unit, 'a fs_state_scheme) kres" where
  "readsb dev s =
     kbind (bread dev 1 s) (\<lambda>bp s.
     let d = b_data (bufs s bp);
         s = s\<lparr>sb := \<lparr>sb_magic = rd32 d 0, sb_size = rd32 d 4, sb_nblocks = rd32 d 8, sb_ninodes = rd32 d 12,
               sb_nlog = rd32 d 16, sb_logstart = rd32 d 20, sb_inodestart = rd32 d 24, sb_bmapstart = rd32 d 28\<rparr>\<rparr> in
     brelse bp s)"

section \<open>Blocks\<close>

definition bzero :: "uint32 \<Rightarrow> uint32 \<Rightarrow> 'a fs_state_scheme \<Rightarrow> (unit, 'a fs_state_scheme) kres" where
  "bzero dev bno s =
     kbind (bread dev bno s) (\<lambda>bp s.
     let s = upd_buf bp (b_data_update (\<lambda>_ _. 0)) s in
     kbind (log_write bp s) (\<lambda>_ s.
     brelse bp s))"

text \<open>The mask \<^verbatim>\<open>m\<close> for bit \<open>bi\<close> of a bitmap block, and the test whether the bit is clear.\<close>

definition bmask :: "nat \<Rightarrow> uchar" where
  "bmask bi = push_bit (bi mod 8) 1"

definition bit_free :: "block \<Rightarrow> nat \<Rightarrow> bool" where
  "bit_free d bi \<longleftrightarrow> d (bi div 8) AND bmask bi = 0"

definition balloc :: "uint32 \<Rightarrow> 'a fs_state_scheme \<Rightarrow> (uint32, 'a fs_state_scheme) kres" where
  "balloc dev s =
     (let size = unat (sb_size (sb s)) in
      kbind (kfind (map ((*) BPB) [0..<(size + BPB - 1) div BPB]) (\<lambda>b s.
        kbind (bread dev (BBLOCK (of_nat b) (sb s)) s) (\<lambda>bp s.
        case find (bit_free (b_data (bufs s bp))) [0..<min BPB (size - b)] of
          Some bi \<Rightarrow>
            let s = upd_buf bp (b_data_update (\<lambda>d. d(bi div 8 := d (bi div 8) OR bmask bi))) s in
            kbind (log_write bp s) (\<lambda>_ s.
            kbind (brelse bp s) (\<lambda>_ s.
            kbind (bzero dev (of_nat (b + bi)) s) (\<lambda>_ s.
            Ret (Some (of_nat (b + bi))) s)))
        | None \<Rightarrow> kbind (brelse bp s) (\<lambda>_ s. Ret None s))) s) (\<lambda>r s.
      case r of
        Some b \<Rightarrow> Ret b s
      | None \<Rightarrow> kbind (printf ''balloc: out of blocks\<newline>'' [] s) (\<lambda>_ s. Ret 0 s)))"

definition bfree :: "uint32 \<Rightarrow> uint32 \<Rightarrow> 'a fs_state_scheme \<Rightarrow> (unit, 'a fs_state_scheme) kres" where
  "bfree dev b s =
     kbind (bread dev (BBLOCK b (sb s)) s) (\<lambda>bp s.
     let bi = unat b mod BPB in
     if bit_free (b_data (bufs s bp)) bi then Panic ''freeing free block''
     else let s = upd_buf bp (b_data_update (\<lambda>d. d(bi div 8 := d (bi div 8) AND NOT (bmask bi)))) s in
       kbind (log_write bp s) (\<lambda>_ s.
       brelse bp s))"

section \<open>Inodes\<close>

definition iinit :: "'a fs_state_scheme \<Rightarrow> 'a fs_state_scheme" where
  "iinit s =
     (let s = initlock L_itable ''itable'' s
      in fold (\<lambda>i s. initsleeplock (SL_inode i) ''inode'' s) [0..<NINODE] s)"

text \<open>The offset of \<^verbatim>\<open>(struct dinode*)bp->data + inum%IPB\<close>.\<close>

definition dip_off :: "uint32 \<Rightarrow> nat" where
  "dip_off inum = 64 * (unat inum mod IPB)"

definition iget :: "uint32 \<Rightarrow> uint32 \<Rightarrow> 'a fs_state_scheme \<Rightarrow> (nat, 'a fs_state_scheme) kres" where
  "iget dev inum s =
     kbind (acquire L_itable s) (\<lambda>_ s.
     case find (\<lambda>i. i_ref (inodes s i) > 0 \<and> i_dev (inodes s i) = dev \<and> i_inum (inodes s i) = inum) [0..<NINODE] of
       Some ip \<Rightarrow>
         let s = upd_inode ip (i_ref_update (\<lambda>r. r + 1)) s in
         kbind (release L_itable s) (\<lambda>_ s.
         Ret ip s)
     | None \<Rightarrow>
       (case find (\<lambda>i. i_ref (inodes s i) = 0) [0..<NINODE] of
          None \<Rightarrow> Panic ''iget: no inodes''
        | Some ip \<Rightarrow>
            let s = upd_inode ip (\<lambda>n. n\<lparr>i_dev := dev, i_inum := inum, i_ref := 1, i_valid := 0\<rparr>) s in
            kbind (release L_itable s) (\<lambda>_ s.
            Ret ip s)))"

definition ialloc :: "uint32 \<Rightarrow> ushort \<Rightarrow> 'a fs_state_scheme \<Rightarrow> (nat option, 'a fs_state_scheme) kres" where
  "ialloc dev type s =
     kbind (kfind [1..<unat (sb_ninodes (sb s))] (\<lambda>inum s.
       kbind (bread dev (IBLOCK (of_nat inum) (sb s)) s) (\<lambda>bp s.
       let dip = dip_off (of_nat inum) in
       if rd16 (b_data (bufs s bp)) dip = 0 then
         let s = upd_buf bp (b_data_update (\<lambda>d. wr d dip (replicate 64 0))) s;
             s = upd_buf bp (b_data_update (wr16 dip type)) s in
         kbind (log_write bp s) (\<lambda>_ s.
         kbind (brelse bp s) (\<lambda>_ s.
         kbind (iget dev (of_nat inum) s) (\<lambda>ip s.
         Ret (Some ip) s)))
       else kbind (brelse bp s) (\<lambda>_ s. Ret None s))) s) (\<lambda>r s.
     case r of
       Some ip \<Rightarrow> Ret (Some ip) s
     | None \<Rightarrow> kbind (printf ''ialloc: no inodes\<newline>'' [] s) (\<lambda>_ s. Ret None s))"

text \<open>The dinode fields as \<^verbatim>\<open>iupdate\<close> stores them and as \<^verbatim>\<open>ilock\<close> loads them.\<close>

definition put_dinode :: "nat \<Rightarrow> inode \<Rightarrow> block \<Rightarrow> block" where
  "put_dinode dip n d =
     fold (\<lambda>i. wr32 (dip + 12 + 4 * i) (i_addrs n i)) [0..<NDIRECT + 1]
       (wr32 (dip + 8) (i_size n) (wr16 (dip + 6) (i_nlink n) (wr16 (dip + 4) (i_minor n)
         (wr16 (dip + 2) (i_major n) (wr16 dip (i_type n) d)))))"

definition get_dinode :: "nat \<Rightarrow> block \<Rightarrow> inode \<Rightarrow> inode" where
  "get_dinode dip d n =
     n\<lparr>i_type := rd16 d dip, i_major := rd16 d (dip + 2), i_minor := rd16 d (dip + 4), i_nlink := rd16 d (dip + 6),
       i_size := rd32 d (dip + 8),
       i_addrs := (\<lambda>i. if i < NDIRECT + 1 then rd32 d (dip + 12 + 4 * i) else i_addrs n i)\<rparr>"

definition iupdate :: "nat \<Rightarrow> 'a fs_state_scheme \<Rightarrow> (unit, 'a fs_state_scheme) kres" where
  "iupdate ip s =
     kbind (bread (i_dev (inodes s ip)) (IBLOCK (i_inum (inodes s ip)) (sb s)) s) (\<lambda>bp s.
     let s = upd_buf bp (b_data_update (put_dinode (dip_off (i_inum (inodes s ip))) (inodes s ip))) s in
     kbind (log_write bp s) (\<lambda>_ s.
     brelse bp s))"

definition idup :: "nat \<Rightarrow> 'a fs_state_scheme \<Rightarrow> (nat, 'a fs_state_scheme) kres" where
  "idup ip s =
     kbind (acquire L_itable s) (\<lambda>_ s.
     let s = upd_inode ip (i_ref_update (\<lambda>r. r + 1)) s in
     kbind (release L_itable s) (\<lambda>_ s.
     Ret ip s))"

definition ilock :: "nat option \<Rightarrow> 'a fs_state_scheme \<Rightarrow> (unit, 'a fs_state_scheme) kres" where
  "ilock ipo s =
     (case ipo of
        None \<Rightarrow> Panic ''ilock''
      | Some ip \<Rightarrow>
          if i_ref (inodes s ip) < 1 then Panic ''ilock''
          else kbind (acquiresleep (SL_inode ip) s) (\<lambda>_ s.
            if i_valid (inodes s ip) = 0 then
              kbind (bread (i_dev (inodes s ip)) (IBLOCK (i_inum (inodes s ip)) (sb s)) s) (\<lambda>bp s.
              let s = upd_inode ip (get_dinode (dip_off (i_inum (inodes s ip))) (b_data (bufs s bp))) s in
              kbind (brelse bp s) (\<lambda>_ s.
              let s = upd_inode ip (i_valid_update (\<lambda>_. 1)) s in
              if i_type (inodes s ip) = 0 then Panic ''ilock: no type'' else Ret () s))
            else Ret () s))"

definition iunlock :: "nat option \<Rightarrow> 'a fs_state_scheme \<Rightarrow> (unit, 'a fs_state_scheme) kres" where
  "iunlock ipo s =
     (case ipo of
        None \<Rightarrow> Panic ''iunlock''
      | Some ip \<Rightarrow>
          kbind (holdingsleep (SL_inode ip) s) (\<lambda>h s.
          if \<not> h \<or> i_ref (inodes s ip) < 1 then Panic ''iunlock''
          else releasesleep (SL_inode ip) s))"

section \<open>Inode contents\<close>

definition bmap :: "nat \<Rightarrow> uint32 \<Rightarrow> 'a fs_state_scheme \<Rightarrow> (uint32, 'a fs_state_scheme) kres" where
  "bmap ip bn s =
     (if unat bn < NDIRECT then
        let addr = i_addrs (inodes s ip) (unat bn) in
        if addr = 0 then
          kbind (balloc (i_dev (inodes s ip)) s) (\<lambda>addr s.
          if addr = 0 then Ret 0 s
          else Ret addr (upd_inode ip (i_addrs_update (\<lambda>a. a(unat bn := addr))) s))
        else Ret addr s
      else let bn = unat bn - NDIRECT in
        if bn < NINDIRECT then
          kbind (if i_addrs (inodes s ip) NDIRECT = 0 then
                   kbind (balloc (i_dev (inodes s ip)) s) (\<lambda>addr s.
                   if addr = 0 then Ret 0 s
                   else Ret addr (upd_inode ip (i_addrs_update (\<lambda>a. a(NDIRECT := addr))) s))
                 else Ret (i_addrs (inodes s ip) NDIRECT) s) (\<lambda>addr s.
          if addr = 0 then Ret 0 s
          else kbind (bread (i_dev (inodes s ip)) addr s) (\<lambda>bp s.
            let addr = rd32 (b_data (bufs s bp)) (4 * bn) in
            kbind (if addr = 0 then
                     kbind (balloc (i_dev (inodes s ip)) s) (\<lambda>addr s.
                     if addr \<noteq> 0 then
                       let s = upd_buf bp (b_data_update (wr32 (4 * bn) addr)) s in
                       kbind (log_write bp s) (\<lambda>_ s. Ret addr s)
                     else Ret addr s)
                   else Ret addr s) (\<lambda>addr s.
            kbind (brelse bp s) (\<lambda>_ s.
            Ret addr s))))
        else Panic ''bmap: out of range'')"

definition itrunc :: "nat \<Rightarrow> 'a fs_state_scheme \<Rightarrow> (unit, 'a fs_state_scheme) kres" where
  "itrunc ip s =
     kbind (kfor [0..<NDIRECT] (\<lambda>i s.
       if i_addrs (inodes s ip) i \<noteq> 0 then
         kbind (bfree (i_dev (inodes s ip)) (i_addrs (inodes s ip) i) s) (\<lambda>_ s.
         Ret () (upd_inode ip (i_addrs_update (\<lambda>a. a(i := 0))) s))
       else Ret () s) s) (\<lambda>_ s.
     kbind (if i_addrs (inodes s ip) NDIRECT \<noteq> 0 then
         kbind (bread (i_dev (inodes s ip)) (i_addrs (inodes s ip) NDIRECT) s) (\<lambda>bp s.
         kbind (kfor [0..<NINDIRECT] (\<lambda>j s.
           if rd32 (b_data (bufs s bp)) (4 * j) \<noteq> 0
           then bfree (i_dev (inodes s ip)) (rd32 (b_data (bufs s bp)) (4 * j)) s
           else Ret () s) s) (\<lambda>_ s.
         kbind (brelse bp s) (\<lambda>_ s.
         kbind (bfree (i_dev (inodes s ip)) (i_addrs (inodes s ip) NDIRECT) s) (\<lambda>_ s.
         Ret () (upd_inode ip (i_addrs_update (\<lambda>a. a(NDIRECT := 0))) s)))))
       else Ret () s) (\<lambda>_ s.
     let s = upd_inode ip (i_size_update (\<lambda>_. 0)) s in
     iupdate ip s))"

definition iput :: "nat \<Rightarrow> 'a fs_state_scheme \<Rightarrow> (unit, 'a fs_state_scheme) kres" where
  "iput ip s =
     kbind (acquire L_itable s) (\<lambda>_ s.
     kbind (if i_ref (inodes s ip) = 1 \<and> i_valid (inodes s ip) \<noteq> 0 \<and> i_nlink (inodes s ip) = 0 then
         kbind (acquiresleep (SL_inode ip) s) (\<lambda>_ s.
         kbind (release L_itable s) (\<lambda>_ s.
         kbind (itrunc ip s) (\<lambda>_ s.
         let s = upd_inode ip (i_type_update (\<lambda>_. 0)) s in
         kbind (iupdate ip s) (\<lambda>_ s.
         let s = upd_inode ip (i_valid_update (\<lambda>_. 0)) s in
         kbind (releasesleep (SL_inode ip) s) (\<lambda>_ s.
         acquire L_itable s)))))
       else Ret () s) (\<lambda>_ s.
     let s = upd_inode ip (i_ref_update (\<lambda>r. r - 1)) s in
     release L_itable s))"

definition iunlockput :: "nat \<Rightarrow> 'a fs_state_scheme \<Rightarrow> (unit, 'a fs_state_scheme) kres" where
  "iunlockput ip s = kbind (iunlock (Some ip) s) (\<lambda>_ s. iput ip s)"

definition ireclaim :: "uint32 \<Rightarrow> 'a fs_state_scheme \<Rightarrow> (unit, 'a fs_state_scheme) kres" where
  "ireclaim dev s =
     kfor [1..<unat (sb_ninodes (sb s))] (\<lambda>inum s.
       kbind (bread dev (IBLOCK (of_nat inum) (sb s)) s) (\<lambda>bp s.
       let d = b_data (bufs s bp);
           dip = dip_off (of_nat inum) in
       kbind (if rd16 d dip \<noteq> 0 \<and> rd16 d (dip + 6) = 0 then
                kbind (printf ''ireclaim: orphaned inode %d\<newline>'' [PWord (of_nat inum)] s) (\<lambda>_ s.
                kbind (iget dev (of_nat inum) s) (\<lambda>ip s.
                Ret (Some ip) s))
              else Ret None s) (\<lambda>ipo s.
       kbind (brelse bp s) (\<lambda>_ s.
       case ipo of
         None \<Rightarrow> Ret () s
       | Some ip \<Rightarrow>
           kbind (begin_op s) (\<lambda>_ s.
           kbind (ilock (Some ip) s) (\<lambda>_ s.
           kbind (iunlock (Some ip) s) (\<lambda>_ s.
           kbind (iput ip s) (\<lambda>_ s.
           end_op s))))))) ) s"

definition fsinit :: "uint32 \<Rightarrow> 'a fs_state_scheme \<Rightarrow> (unit, 'a fs_state_scheme) kres" where
  "fsinit dev s =
     kbind (readsb dev s) (\<lambda>_ s.
     if sb_magic (sb s) \<noteq> FSMAGIC then Panic ''invalid file system''
     else kbind (initlog (sint dev) (sb_logstart (sb s)) s) (\<lambda>_ s.
       ireclaim dev s))"

record stat =
  st_dev :: int
  st_ino :: uint32
  st_type :: ushort
  st_nlink :: ushort
  st_size :: uint64

definition stati :: "nat \<Rightarrow> 'a fs_state_scheme \<Rightarrow> stat" where
  "stati ip s =
     (let n = inodes s ip in
      \<lparr>st_dev = sint (i_dev n), st_ino = i_inum n, st_type = i_type n, st_nlink = i_nlink n,
       st_size = ucast (i_size n)\<rparr>)"

text \<open>
  The loop of \<^verbatim>\<open>readi\<close>; its result is the value returned and the bytes passed to
  \<^verbatim>\<open>either_copyout\<close>.
\<close>

function readi_loop ::
  "nat \<Rightarrow> place \<Rightarrow> uint32 \<Rightarrow> nat \<Rightarrow> nat \<Rightarrow> 'a fs_state_scheme \<Rightarrow> (int \<times> uchar list, 'a fs_state_scheme) kres" where
  "readi_loop ip dst off n tot s =
     (if tot < n then
        kbind (bmap ip (of_nat (unat off div BSIZE)) s) (\<lambda>addr s.
        if addr = 0 then Ret (sint (of_nat tot :: uint32), []) s
        else kbind (bread (i_dev (inodes s ip)) addr s) (\<lambda>bp s.
          let m = min (n - tot) (BSIZE - unat off mod BSIZE);
              bs = map (b_data (bufs s bp)) [unat off mod BSIZE..<unat off mod BSIZE + m] in
          kbind (either_copyout dst bs s) (\<lambda>r s.
          if r = - 1 then kbind (brelse bp s) (\<lambda>_ s. Ret (- 1, []) s)
          else kbind (brelse bp s) (\<lambda>_ s.
            kbind (readi_loop ip (place_add dst m) (off + of_nat m) n (tot + m) s) (\<lambda>(r, cs) s.
            Ret (r, bs @ cs) s)))))
      else Ret (sint (of_nat tot :: uint32), []) s)"
  by pat_completeness auto
termination
proof (relation "measure (\<lambda>(ip, dst, off, n, tot, s). n - tot)", goal_cases)
  case (2 ip dst off n tot s)
  have "unat off mod BSIZE < BSIZE" by (simp add: BSIZE_def)
  with 2 show ?case by (auto simp: min_def)
qed simp

declare readi_loop.simps [simp del]

definition readi ::
  "nat \<Rightarrow> place \<Rightarrow> uint32 \<Rightarrow> uint32 \<Rightarrow> 'a fs_state_scheme \<Rightarrow> (int \<times> uchar list, 'a fs_state_scheme) kres" where
  "readi ip dst off n s =
     (let size = i_size (inodes s ip) in
      if off > size \<or> off + n < off then Ret (0, []) s
      else let n = (if off + n > size then size - off else n) in
        readi_loop ip dst off (unat n) 0 s)"

text \<open>The loop of \<^verbatim>\<open>writei\<close>, with the values of \<^verbatim>\<open>off\<close> and \<^verbatim>\<open>tot\<close> it ends with.\<close>

function writei_loop ::
  "nat \<Rightarrow> place \<Rightarrow> uint32 \<Rightarrow> nat \<Rightarrow> nat \<Rightarrow> 'a fs_state_scheme \<Rightarrow> (uint32 \<times> nat, 'a fs_state_scheme) kres" where
  "writei_loop ip src off n tot s =
     (if tot < n then
        kbind (bmap ip (of_nat (unat off div BSIZE)) s) (\<lambda>addr s.
        if addr = 0 then Ret (off, tot) s
        else kbind (bread (i_dev (inodes s ip)) addr s) (\<lambda>bp s.
          let m = min (n - tot) (BSIZE - unat off mod BSIZE) in
          kbind (either_copyin src m s) (\<lambda>(r, bs) s.
          let s = upd_buf bp (b_data_update (\<lambda>d. wr d (unat off mod BSIZE) bs)) s in
          if r = - 1 then kbind (brelse bp s) (\<lambda>_ s. Ret (off, tot) s)
          else kbind (log_write bp s) (\<lambda>_ s.
            kbind (brelse bp s) (\<lambda>_ s.
            writei_loop ip (place_add src m) (off + of_nat m) n (tot + m) s)))))
      else Ret (off, tot) s)"
  by pat_completeness auto
termination
proof (relation "measure (\<lambda>(ip, src, off, n, tot, s). n - tot)", goal_cases)
  case (2 ip src off n tot s)
  have "unat off mod BSIZE < BSIZE" by (simp add: BSIZE_def)
  with 2 show ?case by (auto simp: min_def)
qed simp

declare writei_loop.simps [simp del]

definition writei ::
  "nat \<Rightarrow> place \<Rightarrow> uint32 \<Rightarrow> uint32 \<Rightarrow> 'a fs_state_scheme \<Rightarrow> (int, 'a fs_state_scheme) kres" where
  "writei ip src off n s =
     (if off > i_size (inodes s ip) \<or> off + n < off then Ret (- 1) s
      else if unat (off + n) > MAXFILE * BSIZE then Ret (- 1) s
      else kbind (writei_loop ip src off (unat n) 0 s) (\<lambda>(off, tot) s.
        let s = (if off > i_size (inodes s ip) then upd_inode ip (i_size_update (\<lambda>_. off)) s else s) in
        kbind (iupdate ip s) (\<lambda>_ s.
        Ret (sint (of_nat tot :: uint32)) s)))"

end
