(* ===== verification/Dir.thy ===== *)
theory Dir
  imports Fs
begin

text \<open>
  Directories and path names (the last part of \<^verbatim>\<open>kernel/fs.c\<close>).  A directory is a file of 16-byte
  entries: a little-endian inode number and \<^verbatim>\<open>DIRSIZ\<close> bytes of name.
\<close>

text \<open>\<^verbatim>\<open>strncmp\<close> of two byte arrays; past the end of a list there is the terminating NUL.\<close>

definition hd0 :: "uchar list \<Rightarrow> uchar" where
  "hd0 p = (case p of [] \<Rightarrow> 0 | c # _ \<Rightarrow> c)"

primrec strncmp_bytes :: "nat \<Rightarrow> uchar list \<Rightarrow> uchar list \<Rightarrow> int" where
  "strncmp_bytes 0 p q = 0"
| "strncmp_bytes (Suc n) p q =
     (if hd0 p \<noteq> 0 \<and> hd0 p = hd0 q then strncmp_bytes n (tl p) (tl q)
      else int (unat (hd0 p)) - int (unat (hd0 q)))"

definition namecmp :: "uchar list \<Rightarrow> uchar list \<Rightarrow> int" where
  "namecmp s t = strncmp_bytes DIRSIZ s t"

text \<open>\<^verbatim>\<open>struct dirent\<close>: its inode number and its name bytes, and the bytes of a new entry.\<close>

definition de_inum :: "uchar list \<Rightarrow> ushort" where
  "de_inum de = le_word (take 2 de)"

definition de_name :: "uchar list \<Rightarrow> uchar list" where
  "de_name de = take DIRSIZ (drop 2 de)"

definition strncpy_bytes :: "uchar list \<Rightarrow> nat \<Rightarrow> uchar list" where
  "strncpy_bytes name n = take n name @ replicate (n - length name) 0"

definition de_bytes :: "ushort \<Rightarrow> uchar list \<Rightarrow> uchar list" where
  "de_bytes inum name = le_bytes 2 inum @ strncpy_bytes name DIRSIZ"

text \<open>The offsets the directory loops visit.\<close>

definition de_offs :: "uint32 \<Rightarrow> nat list" where
  "de_offs sz = map ((*) 16) [0..<(unat sz + 15) div 16]"

text \<open>\<^verbatim>\<open>dirlookup\<close> returns the inode with the offset it stores through \<^verbatim>\<open>poff\<close>.\<close>

definition dirlookup ::
  "nat \<Rightarrow> uchar list \<Rightarrow> 'a fs_state_scheme \<Rightarrow> ((nat \<times> uint32) option, 'a fs_state_scheme) kres" where
  "dirlookup dp name s =
     (if i_type (inodes s dp) \<noteq> T_DIR then Panic ''dirlookup not DIR''
      else kfind (de_offs (i_size (inodes s dp))) (\<lambda>off s.
        kbind (readi dp (Local []) (of_nat off) 16 s) (\<lambda>(r, de) s.
        if r \<noteq> 16 then Panic ''dirlookup read''
        else if de_inum de = 0 then Ret None s
        else if namecmp name (de_name de) = 0 then
          kbind (iget (i_dev (inodes s dp)) (ucast (de_inum de)) s) (\<lambda>ip s.
          Ret (Some (ip, of_nat off)) s)
        else Ret None s)) s)"

definition dirlink ::
  "nat \<Rightarrow> uchar list \<Rightarrow> uint32 \<Rightarrow> 'a fs_state_scheme \<Rightarrow> (int, 'a fs_state_scheme) kres" where
  "dirlink dp name inum s =
     kbind (dirlookup dp name s) (\<lambda>r s.
     case r of
       Some (ip, _) \<Rightarrow> kbind (iput ip s) (\<lambda>_ s. Ret (- 1) s)
     | None \<Rightarrow>
         kbind (kfind (de_offs (i_size (inodes s dp))) (\<lambda>off s.
           kbind (readi dp (Local []) (of_nat off) 16 s) (\<lambda>(r, de) s.
           if r \<noteq> 16 then Panic ''dirlink read''
           else if de_inum de = 0 then Ret (Some off) s
           else Ret None s)) s) (\<lambda>e s.
         let off = (case e of Some off \<Rightarrow> off | None \<Rightarrow> 16 * length (de_offs (i_size (inodes s dp)))) in
         kbind (writei dp (Local (de_bytes (ucast inum) name)) (of_nat off) 16 s) (\<lambda>r s.
         if r \<noteq> 16 then Ret (- 1) s else Ret 0 s)))"

abbreviation slash :: uchar where "slash \<equiv> 47"

text \<open>The rest of the path and the element copied to \<^verbatim>\<open>name\<close>; \<open>None\<close> if there is no element.\<close>

definition skipelem :: "uchar list \<Rightarrow> (uchar list \<times> uchar list) option" where
  "skipelem path =
     (let path = dropWhile ((=) slash) path in
      if path = [] then None
      else let elem = takeWhile ((\<noteq>) slash) path;
               path = dropWhile ((\<noteq>) slash) path in
        Some (dropWhile ((=) slash) path, take DIRSIZ elem))"

lemma skipelem_shrinks: "skipelem path = Some (rest, name) \<Longrightarrow> length rest < length path"
proof -
  assume a: "skipelem path = Some (rest, name)"
  let ?p = "dropWhile ((=) slash) path"
  have ne: "?p \<noteq> []" and r: "rest = dropWhile ((=) slash) (dropWhile ((\<noteq>) slash) ?p)"
    using a by (auto simp: skipelem_def Let_def split: if_splits)
  have "hd ?p \<noteq> slash" using hd_dropWhile [OF ne] by auto
  then have "length (dropWhile ((\<noteq>) slash) ?p) < length ?p"
    using ne by (cases ?p) (auto simp: le_imp_less_Suc length_dropWhile_le)
  then show ?thesis using r length_dropWhile_le [of _ path] length_dropWhile_le order.strict_trans1 order.strict_trans2
    by metis
qed

text \<open>
  The loop of \<^verbatim>\<open>namex\<close> from inode \<open>ip\<close> on; the result is the inode and the last element copied to
  \<^verbatim>\<open>name\<close>.
\<close>

function namex_loop ::
  "uchar list \<Rightarrow> bool \<Rightarrow> uchar list \<Rightarrow> nat \<Rightarrow> 'a fs_state_scheme \<Rightarrow> (nat option \<times> uchar list, 'a fs_state_scheme) kres"
where
  "namex_loop path nameiparent name ip s =
     (case skipelem path of
        None \<Rightarrow> if nameiparent then kbind (iput ip s) (\<lambda>_ s. Ret (None, name) s) else Ret (Some ip, name) s
      | Some (path, name) \<Rightarrow>
          kbind (ilock (Some ip) s) (\<lambda>_ s.
          if i_type (inodes s ip) \<noteq> T_DIR then kbind (iunlockput ip s) (\<lambda>_ s. Ret (None, name) s)
          else if nameiparent \<and> path = [] then kbind (iunlock (Some ip) s) (\<lambda>_ s. Ret (Some ip, name) s)
          else kbind (dirlookup ip name s) (\<lambda>next s.
            case next of
              None \<Rightarrow> kbind (iunlockput ip s) (\<lambda>_ s. Ret (None, name) s)
            | Some (nx, _) \<Rightarrow>
                kbind (iunlockput ip s) (\<lambda>_ s.
                namex_loop path nameiparent name nx s))))"
  by pat_completeness auto
termination
  by (relation "measure (\<lambda>(path, nameiparent, name, ip, s). length path)") (auto dest: skipelem_shrinks)

declare namex_loop.simps [simp del]

definition namex ::
  "uchar list \<Rightarrow> bool \<Rightarrow> 'a fs_state_scheme \<Rightarrow> (nat option \<times> uchar list, 'a fs_state_scheme) kres" where
  "namex path nameiparent s =
     kbind (if hd0 path = slash then iget ROOTDEV ROOTINO s
            else with_myproc (\<lambda>p s.
              case p_cwd (procs s p) of
                None \<Rightarrow> Undef
              | Some cwd \<Rightarrow> idup cwd s) s) (\<lambda>ip s.
     namex_loop path nameiparent [] ip s)"

definition namei :: "uchar list \<Rightarrow> 'a fs_state_scheme \<Rightarrow> (nat option, 'a fs_state_scheme) kres" where
  "namei path s = kbind (namex path False s) (\<lambda>(ip, _) s. Ret ip s)"

definition nameiparent ::
  "uchar list \<Rightarrow> 'a fs_state_scheme \<Rightarrow> (nat option \<times> uchar list, 'a fs_state_scheme) kres" where
  "nameiparent path s = namex path True s"

end
