(* ===== verification/Ring.thy ===== *)
theory Ring
  imports Prelude
begin

text \<open>
  Ring buffers indexed by free-running 32-bit counters, as the pipe and the console use them: slot
  \<open>i mod N\<close> holds element \<open>i\<close>, the counters wrap around at \<open>2 ^ 32\<close>, and the buffer holds the
  elements from the read counter up to the write counter.  The locale gives the laws of the
  represented queue once for every size that divides \<open>2 ^ 32\<close>.
\<close>

definition slot :: "nat \<Rightarrow> uint32 \<Rightarrow> nat" where
  "slot N c = unat c mod N"

definition ring_items :: "nat \<Rightarrow> (nat \<Rightarrow> uchar) \<Rightarrow> uint32 \<Rightarrow> uint32 \<Rightarrow> uchar list" where
  "ring_items N d r w = map (\<lambda>i. d (slot N (r + of_nat i))) [0..<unat (w - r)]"

lemma length_ring [simp]: "length (ring_items N d r w) = unat (w - r)"
  by (simp add: ring_items_def)

lemma ring_nth: "i < unat (w - r) \<Longrightarrow> ring_items N d r w ! i = d (slot N (r + of_nat i))"
  by (simp add: ring_items_def)

lemma ring_empty: "ring_items N d r w = [] \<longleftrightarrow> r = w"
  by (auto simp: ring_items_def unat_eq_zero)

lemma unat_plus1_minus: "unat (w - r :: uint32) < 2 ^ 32 - 1 \<Longrightarrow> unat (w + 1 - r) = Suc (unat (w - r))"
proof -
  assume a: "unat (w - r) < 2 ^ 32 - 1"
  have e: "w + 1 - r = (w - r) + 1" by simp
  show ?thesis unfolding e using a by (simp add: unat_word_ariths)
qed

lemma unat_minus_plus1: "w \<noteq> r \<Longrightarrow> unat (w - (r + 1) :: uint32) = unat (w - r) - 1"
proof -
  assume "w \<noteq> r"
  then have "w - r \<noteq> 0" by simp
  then have "1 \<le> unat (w - r)" by (simp add: unat_gt_0 Suc_le_eq)
  moreover have "w - (r + 1) = (w - r) - 1" by simp
  ultimately show ?thesis by (metis unat_1 unat_sub word_le_nat_alt)
qed

lemma ring_split:
  assumes "unat (w - r) + unat (e - w) < 2 ^ 32"
  shows "ring_items N d r e = ring_items N d r w @ ring_items N d w e"
proof (rule nth_equalityI)
  have l: "unat (e - r) = unat (w - r) + unat (e - w)"
  proof -
    have "e - r = (w - r) + (e - w)" by simp
    then show ?thesis using assms by (simp only: unat_word_ariths) simp
  qed
  then show "length (ring_items N d r e) = length (ring_items N d r w @ ring_items N d w e)" by simp
  fix i assume i: "i < length (ring_items N d r e)"
  show "ring_items N d r e ! i = (ring_items N d r w @ ring_items N d w e) ! i"
  proof (cases "i < unat (w - r)")
    case True
    then show ?thesis using i by (simp add: ring_nth nth_append)
  next
    case False
    then have "r + of_nat i = w + of_nat (i - unat (w - r))" by (simp add: of_nat_diff)
    then show ?thesis using i l False by (simp add: ring_nth nth_append add.commute)
  qed
qed

locale ring =
  fixes N :: nat
  assumes pos: "0 < N" and fits: "N dvd 2 ^ 32" and small: "N < 2 ^ 32 - 1"
begin

lemma slot_less: "slot N c < N"
  using pos by (simp add: slot_def)

text \<open>Two counters less than \<open>N\<close> apart use different slots, also across the wrap-around.\<close>

lemma slot_inj:
  assumes "i < j" "j - i < N" "j < 2 ^ 32"
  shows "slot N (r + of_nat i) \<noteq> slot N (r + of_nat j)"
proof
  assume "slot N (r + of_nat i) = slot N (r + of_nat j)"
  moreover have m: "unat (r + of_nat k :: uint32) mod N = (unat r + k) mod N" if "k < 2 ^ 32" for k
  proof -
    have "unat (r + of_nat k :: uint32) = (unat r + k) mod 2 ^ 32"
      using that by (simp add: unat_word_ariths unat_of_nat take_bit_nat_eq_self)
    then show ?thesis using mod_mod_cancel [OF fits] by simp
  qed
  ultimately have "(unat r + i) mod N = (unat r + j) mod N" using assms by (simp add: slot_def)
  then have "N dvd (unat r + j) - (unat r + i)" using assms(1) by (intro mod_eq_dvd_iff_nat [THEN iffD1]) simp_all
  then show False using assms by (simp add: nat_dvd_not_less)
qed

lemma push:
  assumes "unat (w - r) < N"
  shows "ring_items N (d(slot N w := x)) r (w + 1) = ring_items N d r w @ [x]"
proof (rule nth_equalityI)
  have len: "unat (w + 1 - r) = Suc (unat (w - r))" using assms small by (intro unat_plus1_minus) simp
  then show "length (ring_items N (d(slot N w := x)) r (w + 1)) = length (ring_items N d r w @ [x])" by simp
  have w: "r + of_nat (unat (w - r)) = w" by simp
  fix i assume "i < length (ring_items N (d(slot N w := x)) r (w + 1))"
  then consider "i < unat (w - r)" | "i = unat (w - r)" using len by fastforce
  then show "ring_items N (d(slot N w := x)) r (w + 1) ! i = (ring_items N d r w @ [x]) ! i"
  proof cases
    case 1
    have "slot N (r + of_nat i) \<noteq> slot N (r + of_nat (unat (w - r)))"
      using 1 assms small by (intro slot_inj) simp_all
    then show ?thesis using 1 len w by (simp add: ring_nth nth_append)
  next
    case 2
    then show ?thesis using len w by (simp add: ring_nth nth_append)
  qed
qed

lemma pop:
  assumes "r \<noteq> w"
  shows "ring_items N d r w = d (slot N r) # ring_items N d (r + 1) w"
proof -
  have "w - r \<noteq> 0" using assms by simp
  then obtain k where k: "unat (w - r) = Suc k" by (metis not0_implies_Suc unat_eq_zero)
  have "unat (w - (r + 1)) = k" using unat_minus_plus1 [of w r] assms k by simp
  then show ?thesis unfolding ring_items_def k
    by (simp add: map_upt_Suc add.assoc del: upt_Suc)
qed

text \<open>A slot beyond the elements is not one of theirs.\<close>

lemma beyond:
  assumes "unat (w - r) + unat (e - w) < N"
  shows "ring_items N (d(slot N e := x)) r w = ring_items N d r w"
proof -
  have "e - r = (w - r) + (e - w)" by simp
  then have l: "unat (e - r) = unat (w - r) + unat (e - w)"
    using assms small by (simp only: unat_word_ariths) simp
  have e: "r + of_nat (unat (e - r)) = e" by simp
  have "slot N (r + of_nat i) \<noteq> slot N e" if "i < unat (w - r)" for i
  proof (cases "i = unat (e - r)")
    case False
    have "slot N (r + of_nat i) \<noteq> slot N (r + of_nat (unat (e - r)))"
      using that l assms small by (intro slot_inj) simp_all
    then show ?thesis unfolding e .
  qed (use that l in simp)
  then show ?thesis by (simp add: ring_items_def)
qed

text \<open>Taking back the last element that was written.\<close>

lemma unpush:
  assumes "r \<noteq> w"
  shows "ring_items N d r w = ring_items N d r (w - 1) @ [d (slot N (w - 1))]"
proof -
  have "w - r \<noteq> 0" using assms by simp
  then obtain k where k: "unat (w - r) = Suc k" by (metis not0_implies_Suc unat_eq_zero)
  have c: "w - 1 - r = w - r - 1" by simp
  have "unat (w - r - 1) = k" using k by (metis diff_Suc_1 le_add1 plus_1_eq_Suc unat_1 unat_sub word_le_nat_alt)
  then have e: "unat (w - 1 - r) = k" unfolding c .
  have "w - 1 - r = of_nat k" unfolding e [symmetric] by simp
  then have "w - 1 = r + of_nat k" by (simp add: algebra_simps)
  then show ?thesis unfolding ring_items_def k e by simp
qed

end

end
