(* ===== verification/Console.thy ===== *)
theory Console
  imports Dir Ring
begin

text \<open>
  Console input, the interrupt-driven half of the UART driver and the process listing
  (\<^verbatim>\<open>kernel/console.c\<close>, \<^verbatim>\<open>kernel/uart.c\<close>, \<^verbatim>\<open>procdump\<close>).  The UART appears as the line-status
  bit and the output of the polling driver, the queue of received bytes that have not been read,
  and the last value written to each control register.  A reader that finds no input, or a writer
  that finds the transmitter busy, is left asleep; woken, it goes on with the loop it slept in.
\<close>

unbundle bit_operations_syntax

section \<open>State\<close>

definition INPUT_BUF_SIZE :: nat where "INPUT_BUF_SIZE = 128"

record con_state = fs_state +
  con_buf :: "nat \<Rightarrow> uchar"
  con_r :: uint32
  con_w :: uint32
  con_e :: uint32
  tx_busy :: int
  uart_rx :: "uchar list"
  uart_ctl :: "nat \<Rightarrow> uchar"

section \<open>UART\<close>

definition IER :: nat where "IER = 1"
definition FCR :: nat where "FCR = 2"
definition LCR :: nat where "LCR = 3"

definition WriteReg :: "nat \<Rightarrow> uchar \<Rightarrow> 'a con_state_scheme \<Rightarrow> 'a con_state_scheme" where
  "WriteReg reg v s = s\<lparr>uart_ctl := (uart_ctl s)(reg := v)\<rparr>"

definition uartinit :: "'a con_state_scheme \<Rightarrow> 'a con_state_scheme" where
  "uartinit s =
     (let s = WriteReg IER 0 s;
          s = WriteReg LCR 128 s;
          s = WriteReg 0 3 s;
          s = WriteReg 1 0 s;
          s = WriteReg LCR 3 s;
          s = WriteReg FCR 7 s;
          s = WriteReg IER 3 s
      in initlock L_tx ''uart'' s)"

text \<open>The loop of \<^verbatim>\<open>uartwrite\<close>, with the bytes still to send.\<close>

primrec uartwrite_loop :: "uchar list \<Rightarrow> 'a con_state_scheme \<Rightarrow> (unit, 'a con_state_scheme) kres" where
  "uartwrite_loop [] s = release L_tx s"
| "uartwrite_loop (c # cs) s =
     (if tx_busy s \<noteq> 0 then sleep Chan_tx L_tx s
      else let s = s\<lparr>uart_out := uart_out s @ [c]\<rparr>;
               s = s\<lparr>tx_busy := 1\<rparr> in
           uartwrite_loop cs s)"

definition uartwrite :: "uchar list \<Rightarrow> 'a con_state_scheme \<Rightarrow> (unit, 'a con_state_scheme) kres" where
  "uartwrite buf s = kbind (acquire L_tx s) (\<lambda>_ s. uartwrite_loop buf s)"

definition uartgetc :: "'a con_state_scheme \<Rightarrow> int \<times> 'a con_state_scheme" where
  "uartgetc s =
     (case uart_rx s of
        [] \<Rightarrow> (- 1, s)
      | c # cs \<Rightarrow> (int (unat c), s\<lparr>uart_rx := cs\<rparr>))"

section \<open>Process listing\<close>

primrec state_name :: "procstate \<Rightarrow> string" where
  "state_name UNUSED = ''unused''"
| "state_name USED = ''used''"
| "state_name SLEEPING = ''sleep ''"
| "state_name RUNNABLE = ''runble''"
| "state_name RUNNING = ''run   ''"
| "state_name ZOMBIE = ''zombie''"

definition string_of_bytes :: "uchar list \<Rightarrow> string" where
  "string_of_bytes bs = map (\<lambda>b. char_of (unat b)) bs"

definition procdump :: "'a proc_state_scheme \<Rightarrow> (unit, 'a proc_state_scheme) kres" where
  "procdump s =
     kbind (printf ''\<newline>'' [] s) (\<lambda>_ s.
     kfor all_procs (\<lambda>p s.
       if p_state (procs s p) = UNUSED then Ret () s
       else kbind (printf ''%d %s %s'' [PWord (of_cint (p_pid (procs s p))),
                PStr (Some (state_name (p_state (procs s p)))),
                PStr (Some (string_of_bytes (p_name (procs s p))))] s) (\<lambda>_ s.
         kbind (printf ''\<newline>'' [] s) (\<lambda>_ s. Ret () s))) s)"

section \<open>Reading and writing the console\<close>

text \<open>\<^verbatim>\<open>consolewrite\<close> from byte \<open>i\<close> on; each turn moves at most 32 bytes.\<close>

function consolewrite_loop :: "place \<Rightarrow> nat \<Rightarrow> nat \<Rightarrow> 'a con_state_scheme \<Rightarrow> (int, 'a con_state_scheme) kres" where
  "consolewrite_loop src n i s =
     (if i < n then
        let nn = min 32 (n - i) in
        kbind (either_copyin (place_add src i) nn s) (\<lambda>(r, buf) s.
        if r = - 1 then Ret (int i) s
        else kbind (uartwrite buf s) (\<lambda>_ s.
          consolewrite_loop src n (i + nn) s))
      else Ret (int i) s)"
  by pat_completeness auto
termination
  by (relation "measure (\<lambda>(src, n, i, s). n - i)") auto

declare consolewrite_loop.simps [simp del]

definition consolewrite :: "place \<Rightarrow> int \<Rightarrow> 'a con_state_scheme \<Rightarrow> (int, 'a con_state_scheme) kres" where
  "consolewrite src n s = consolewrite_loop src (nat n) 0 s"

text \<open>
  The loop of \<^verbatim>\<open>consoleread\<close>, with the lock held and \<open>n\<close> bytes still wanted of \<open>target\<close>; the
  result has the bytes given to \<^verbatim>\<open>either_copyout\<close>.
\<close>

primrec consoleread_loop ::
  "nat \<Rightarrow> place \<Rightarrow> nat \<Rightarrow> 'a con_state_scheme \<Rightarrow> (int \<times> uchar list, 'a con_state_scheme) kres" where
  "consoleread_loop 0 dst target s =
     kbind (release L_cons s) (\<lambda>_ s. Ret (int target, []) s)"
| "consoleread_loop (Suc n) dst target s =
     (if con_r s = con_w s then
        kbind (with_myproc killed s) (\<lambda>k s.
        if k \<noteq> 0 then kbind (release L_cons s) (\<lambda>_ s. Ret (- 1, []) s)
        else sleep Chan_cons_r L_cons s)
      else let c = con_buf s (slot INPUT_BUF_SIZE (con_r s));
               s = s\<lparr>con_r := con_r s + 1\<rparr> in
        if c = 4 then
          let s = (if Suc n < target then s\<lparr>con_r := con_r s - 1\<rparr> else s) in
          kbind (release L_cons s) (\<lambda>_ s. Ret (int target - int (Suc n), []) s)
        else kbind (either_copyout dst [c] s) (\<lambda>r s.
          if r = - 1 then kbind (release L_cons s) (\<lambda>_ s. Ret (int target - int (Suc n), []) s)
          else if c = 10 then kbind (release L_cons s) (\<lambda>_ s. Ret (int target - int n, [c]) s)
          else kbind (consoleread_loop n (place_add dst 1) target s) (\<lambda>(r, cs) s.
            Ret (r, c # cs) s)))"

definition consoleread ::
  "place \<Rightarrow> int \<Rightarrow> 'a con_state_scheme \<Rightarrow> (int \<times> uchar list, 'a con_state_scheme) kres" where
  "consoleread dst n s =
     kbind (acquire L_cons s) (\<lambda>_ s.
     consoleread_loop (nat n) dst (nat n) s)"

section \<open>Interrupts\<close>

text \<open>The kill-line loop; \<open>k\<close> bounds its turns by the number of characters that can be erased.\<close>

primrec kill_line :: "nat \<Rightarrow> 'a con_state_scheme \<Rightarrow> (unit, 'a con_state_scheme) kres" where
  "kill_line 0 s = Ret () s"
| "kill_line (Suc k) s =
     (if con_e s \<noteq> con_w s \<and> con_buf s (slot INPUT_BUF_SIZE (con_e s - 1)) \<noteq> 10 then
        let s = s\<lparr>con_e := con_e s - 1\<rparr> in
        kbind (consputc BACKSPACE s) (\<lambda>_ s.
        kill_line k s)
      else Ret () s)"

definition consoleintr_char :: "int \<Rightarrow> 'a con_state_scheme \<Rightarrow> (unit, 'a con_state_scheme) kres" where
  "consoleintr_char c s =
     (if c \<noteq> 0 \<and> unat (con_e s - con_r s) < INPUT_BUF_SIZE then
        let c = (if c = 13 then 10 else c) in
        kbind (consputc c s) (\<lambda>_ s.
        let s = s\<lparr>con_buf := (con_buf s)(slot INPUT_BUF_SIZE (con_e s) := word_of_int c)\<rparr>;
            s = s\<lparr>con_e := con_e s + 1\<rparr> in
        if c = 10 \<or> c = 4 \<or> unat (con_e s - con_r s) = INPUT_BUF_SIZE then
          let s = s\<lparr>con_w := con_e s\<rparr> in
          wakeup Chan_cons_r s
        else Ret () s)
      else Ret () s)"

definition consoleintr :: "int \<Rightarrow> 'a con_state_scheme \<Rightarrow> (unit, 'a con_state_scheme) kres" where
  "consoleintr c s =
     kbind (acquire L_cons s) (\<lambda>_ s.
     kbind (if c = 16 then procdump s
            else if c = 21 then kill_line (unat (con_e s - con_w s)) s
            else if c = 8 \<or> c = 127 then
              if con_e s \<noteq> con_w s then
                let s = s\<lparr>con_e := con_e s - 1\<rparr> in consputc BACKSPACE s
              else Ret () s
            else consoleintr_char c s) (\<lambda>_ s.
     release L_cons s))"

text \<open>The loop of \<^verbatim>\<open>uartintr\<close>; \<open>k\<close> is the number of bytes waiting.\<close>

primrec uartintr_loop :: "nat \<Rightarrow> 'a con_state_scheme \<Rightarrow> (unit, 'a con_state_scheme) kres" where
  "uartintr_loop 0 s = Ret () s"
| "uartintr_loop (Suc k) s =
     (let (c, s) = uartgetc s in
      if c = - 1 then Ret () s
      else kbind (consoleintr c s) (\<lambda>_ s. uartintr_loop k s))"

definition uartintr :: "'a con_state_scheme \<Rightarrow> (unit, 'a con_state_scheme) kres" where
  "uartintr s =
     kbind (acquire L_tx s) (\<lambda>_ s.
     kbind (if uart_lsr s AND LSR_TX_IDLE \<noteq> 0 then
              let s = s\<lparr>tx_busy := 0\<rparr> in wakeup Chan_tx s
            else Ret () s) (\<lambda>_ s.
     kbind (release L_tx s) (\<lambda>_ s.
     uartintr_loop (length (uart_rx s) + 1) s)))"

section \<open>The input buffer\<close>

interpretation cons_ring: ring INPUT_BUF_SIZE
  by unfold_locales (simp_all add: INPUT_BUF_SIZE_def)

end
