(* ===== verification/Pipe.thy ===== *)
theory Pipe
  imports Console
begin

text \<open>
  Pipes (\<^verbatim>\<open>kernel/pipe.c\<close>).  A pipe is the struct at the start of an allocated page; the state holds
  it as a record under the address of the page.  A reader of an empty pipe or a writer of a full one
  is left asleep; woken, it goes on with \<open>piperead_wait\<close> or \<open>pipewrite_loop\<close>.
  \<^verbatim>\<open>pipealloc\<close> is with the open files.
\<close>

section \<open>State and operations\<close>

definition PIPESIZE :: nat where "PIPESIZE = 512"

record pipe =
  pi_data :: "nat \<Rightarrow> uchar"
  pi_nread :: uint32
  pi_nwrite :: uint32
  pi_readopen :: int
  pi_writeopen :: int

record pipe_state = con_state +
  pipes :: "uint64 \<Rightarrow> pipe"

definition upd_pipe :: "uint64 \<Rightarrow> (pipe \<Rightarrow> pipe) \<Rightarrow> 'a pipe_state_scheme \<Rightarrow> 'a pipe_state_scheme" where
  "upd_pipe pi f s = s\<lparr>pipes := (pipes s)(pi := f (pipes s pi))\<rparr>"

definition pipeclose :: "uint64 \<Rightarrow> bool \<Rightarrow> 'a pipe_state_scheme \<Rightarrow> (unit, 'a pipe_state_scheme) kres" where
  "pipeclose pi writable s =
     kbind (acquire (L_pipe pi) s) (\<lambda>_ s.
     kbind (if writable then
              let s = upd_pipe pi (pi_writeopen_update (\<lambda>_. 0)) s in wakeup (Chan_nread pi) s
            else
              let s = upd_pipe pi (pi_readopen_update (\<lambda>_. 0)) s in wakeup (Chan_nwrite pi) s) (\<lambda>_ s.
     if pi_readopen (pipes s pi) = 0 \<and> pi_writeopen (pipes s pi) = 0 then
       kbind (release (L_pipe pi) s) (\<lambda>_ s. kfree pi s)
     else release (L_pipe pi) s))"

text \<open>Storing and fetching one byte.\<close>

definition pipe_put :: "uchar \<Rightarrow> pipe \<Rightarrow> pipe" where
  "pipe_put ch q = q\<lparr>pi_data := (pi_data q)(slot PIPESIZE (pi_nwrite q) := ch), pi_nwrite := pi_nwrite q + 1\<rparr>"

definition pipe_get :: "pipe \<Rightarrow> uchar" where
  "pipe_get q = pi_data q (slot PIPESIZE (pi_nread q))"

text \<open>What follows the loop of \<^verbatim>\<open>pipewrite\<close>.\<close>

definition pipewrite_done :: "uint64 \<Rightarrow> nat \<Rightarrow> 'a pipe_state_scheme \<Rightarrow> (int, 'a pipe_state_scheme) kres" where
  "pipewrite_done pi i s =
     kbind (wakeup (Chan_nread pi) s) (\<lambda>_ s.
     kbind (release (L_pipe pi) s) (\<lambda>_ s.
     Ret (int i) s))"

text \<open>The loop of \<^verbatim>\<open>pipewrite\<close> by process \<open>pr\<close> with \<open>k\<close> bytes to go, \<open>i\<close> of them written.\<close>

primrec pipewrite_loop ::
  "nat \<Rightarrow> nat \<Rightarrow> uint64 \<Rightarrow> uint64 \<Rightarrow> nat \<Rightarrow> 'a pipe_state_scheme \<Rightarrow> (int, 'a pipe_state_scheme) kres" where
  "pipewrite_loop 0 pr pi addr i s = pipewrite_done pi i s"
| "pipewrite_loop (Suc k) pr pi addr i s =
     kbind (if pi_readopen (pipes s pi) = 0 then Ret 1 s else killed pr s) (\<lambda>stop s.
     if stop \<noteq> 0 then kbind (release (L_pipe pi) s) (\<lambda>_ s. Ret (- 1) s)
     else if pi_nwrite (pipes s pi) = pi_nread (pipes s pi) + of_nat PIPESIZE then
       kbind (wakeup (Chan_nread pi) s) (\<lambda>_ s.
       sleep (Chan_nwrite pi) (L_pipe pi) s)
     else kbind (copyin (p_pagetable (procs s pr)) (addr + of_nat i) 1 s) (\<lambda>(r, ch) s.
       if r = - 1 then pipewrite_done pi i s
       else let s = upd_pipe pi (pipe_put (hd ch)) s in
         pipewrite_loop k pr pi addr (i + 1) s))"

definition pipewrite :: "uint64 \<Rightarrow> uint64 \<Rightarrow> int \<Rightarrow> 'a pipe_state_scheme \<Rightarrow> (int, 'a pipe_state_scheme) kres" where
  "pipewrite pi addr n s =
     with_myproc (\<lambda>pr s.
       kbind (acquire (L_pipe pi) s) (\<lambda>_ s.
       pipewrite_loop (nat n) pr pi addr 0 s)) s"

text \<open>The copying loop of \<^verbatim>\<open>piperead\<close> with \<open>k\<close> turns to go, and what follows it.\<close>

definition piperead_done :: "uint64 \<Rightarrow> int \<Rightarrow> 'a pipe_state_scheme \<Rightarrow> (int, 'a pipe_state_scheme) kres" where
  "piperead_done pi i s =
     kbind (wakeup (Chan_nwrite pi) s) (\<lambda>_ s.
     kbind (release (L_pipe pi) s) (\<lambda>_ s.
     Ret i s))"

primrec piperead_loop ::
  "nat \<Rightarrow> nat \<Rightarrow> uint64 \<Rightarrow> uint64 \<Rightarrow> nat \<Rightarrow> 'a pipe_state_scheme \<Rightarrow> (int, 'a pipe_state_scheme) kres" where
  "piperead_loop 0 pr pi addr i s = piperead_done pi (int i) s"
| "piperead_loop (Suc k) pr pi addr i s =
     (if pi_nread (pipes s pi) = pi_nwrite (pipes s pi) then piperead_done pi (int i) s
      else let ch = pipe_get (pipes s pi) in
        kbind (copyout (p_pagetable (procs s pr)) (addr + of_nat i) [ch] s) (\<lambda>r s.
        if r = - 1 then piperead_done pi (if i = 0 then - 1 else int i) s
        else let s = upd_pipe pi (pi_nread_update (\<lambda>c. c + 1)) s in
          piperead_loop k pr pi addr (i + 1) s))"

text \<open>\<^verbatim>\<open>piperead\<close> from its waiting loop on.\<close>

definition piperead_wait ::
  "nat \<Rightarrow> uint64 \<Rightarrow> uint64 \<Rightarrow> int \<Rightarrow> 'a pipe_state_scheme \<Rightarrow> (int, 'a pipe_state_scheme) kres" where
  "piperead_wait pr pi addr n s =
     (if pi_nread (pipes s pi) = pi_nwrite (pipes s pi) \<and> pi_writeopen (pipes s pi) \<noteq> 0 then
        kbind (killed pr s) (\<lambda>k s.
        if k \<noteq> 0 then kbind (release (L_pipe pi) s) (\<lambda>_ s. Ret (- 1) s)
        else sleep (Chan_nread pi) (L_pipe pi) s)
      else piperead_loop (nat n) pr pi addr 0 s)"

definition piperead :: "uint64 \<Rightarrow> uint64 \<Rightarrow> int \<Rightarrow> 'a pipe_state_scheme \<Rightarrow> (int, 'a pipe_state_scheme) kres" where
  "piperead pi addr n s =
     with_myproc (\<lambda>pr s.
       kbind (acquire (L_pipe pi) s) (\<lambda>_ s.
       piperead_wait pr pi addr n s)) s"

section \<open>The bytes in a pipe\<close>

interpretation pipe_ring: ring PIPESIZE
  by unfold_locales (simp_all add: PIPESIZE_def)

definition pipe_bytes :: "pipe \<Rightarrow> uchar list" where
  "pipe_bytes q = ring_items PIPESIZE (pi_data q) (pi_nread q) (pi_nwrite q)"

end
