(* ===== verification/File.thy ===== *)
theory File
  imports Pipe
begin

text \<open>
  The open-file table (\<^verbatim>\<open>kernel/file.c\<close> and \<^verbatim>\<open>pipealloc\<close> of \<^verbatim>\<open>kernel/pipe.c\<close>).  A file pointer is an
  index of \<^verbatim>\<open>ftable.file[]\<close>.  The device switch has one possible driver, the console; \<open>devsw m\<close>
  says whether its functions are installed for major number \<open>m\<close>.
\<close>

section \<open>State\<close>

datatype fdtype = FD_NONE | FD_PIPE | FD_INODE | FD_DEVICE

record ofile =
  f_type :: fdtype
  f_ref :: int
  f_readable :: bool
  f_writable :: bool
  f_pipe :: uint64
  f_ip :: "nat option"
  f_off :: uint32
  f_major :: ushort

record file_state = pipe_state +
  files :: "nat \<Rightarrow> ofile"
  devsw :: "nat \<Rightarrow> bool"

definition upd_file :: "nat \<Rightarrow> (ofile \<Rightarrow> ofile) \<Rightarrow> 'a file_state_scheme \<Rightarrow> 'a file_state_scheme" where
  "upd_file f g s = s\<lparr>files := (files s)(f := g (files s f))\<rparr>"

definition CONSOLE :: nat where "CONSOLE = 1"

section \<open>Operations\<close>

definition consoleinit :: "'a file_state_scheme \<Rightarrow> 'a file_state_scheme" where
  "consoleinit s =
     (let s = initlock L_cons ''cons'' s;
          s = uartinit s
      in s\<lparr>devsw := (devsw s)(CONSOLE := True)\<rparr>)"

definition fileinit :: "'a file_state_scheme \<Rightarrow> 'a file_state_scheme" where
  "fileinit s = initlock L_ftable ''ftable'' s"

definition filealloc :: "'a file_state_scheme \<Rightarrow> (nat option, 'a file_state_scheme) kres" where
  "filealloc s =
     kbind (acquire L_ftable s) (\<lambda>_ s.
     case find (\<lambda>f. f_ref (files s f) = 0) [0..<NFILE] of
       Some f \<Rightarrow>
         let s = upd_file f (f_ref_update (\<lambda>_. 1)) s in
         kbind (release L_ftable s) (\<lambda>_ s. Ret (Some f) s)
     | None \<Rightarrow> kbind (release L_ftable s) (\<lambda>_ s. Ret None s))"

definition filedup :: "nat \<Rightarrow> 'a file_state_scheme \<Rightarrow> (nat, 'a file_state_scheme) kres" where
  "filedup f s =
     kbind (acquire L_ftable s) (\<lambda>_ s.
     if f_ref (files s f) < 1 then Panic ''filedup''
     else let s = upd_file f (f_ref_update (\<lambda>r. r + 1)) s in
       kbind (release L_ftable s) (\<lambda>_ s. Ret f s))"

text \<open>\<^verbatim>\<open>iput\<close> of a pointer that may be null, which it reads through.\<close>

definition iput_ptr :: "nat option \<Rightarrow> 'a fs_state_scheme \<Rightarrow> (unit, 'a fs_state_scheme) kres" where
  "iput_ptr ipo s = (case ipo of None \<Rightarrow> Undef | Some ip \<Rightarrow> iput ip s)"

definition fileclose :: "nat \<Rightarrow> 'a file_state_scheme \<Rightarrow> (unit, 'a file_state_scheme) kres" where
  "fileclose f s =
     kbind (acquire L_ftable s) (\<lambda>_ s.
     if f_ref (files s f) < 1 then Panic ''fileclose''
     else let s = upd_file f (f_ref_update (\<lambda>r. r - 1)) s in
       if f_ref (files s f) > 0 then release L_ftable s
       else let ff = files s f;
                s = upd_file f (f_ref_update (\<lambda>_. 0)) s;
                s = upd_file f (f_type_update (\<lambda>_. FD_NONE)) s in
         kbind (release L_ftable s) (\<lambda>_ s.
         if f_type ff = FD_PIPE then pipeclose (f_pipe ff) (f_writable ff) s
         else if f_type ff = FD_INODE \<or> f_type ff = FD_DEVICE then
           kbind (begin_op s) (\<lambda>_ s.
           kbind (iput_ptr (f_ip ff) s) (\<lambda>_ s.
           end_op s))
         else Ret () s))"

text \<open>The bytes of \<^verbatim>\<open>struct stat\<close>: 4, 4, 2, 2 and 8 of them, with 4 of padding before the size.\<close>

definition stat_bytes :: "stat \<Rightarrow> uchar list \<Rightarrow> uchar list" where
  "stat_bytes st pad =
     le_bytes 4 (word_of_int (st_dev st) :: uint32) @ le_bytes 4 (st_ino st) @ le_bytes 2 (st_type st) @
     le_bytes 2 (st_nlink st) @ pad @ le_bytes 8 (st_size st)"

definition with_ip ::
  "nat option \<Rightarrow> (nat \<Rightarrow> 'a fs_state_scheme \<Rightarrow> ('r, 'a fs_state_scheme) kres) \<Rightarrow> 'a fs_state_scheme \<Rightarrow>
    ('r, 'a fs_state_scheme) kres" where
  "with_ip ipo f s = (case ipo of None \<Rightarrow> Undef | Some ip \<Rightarrow> f ip s)"

text \<open>\<open>pad\<close> is what the padding of the local \<^verbatim>\<open>st\<close> holds, which the code never writes.\<close>

definition filestat :: "uchar list \<Rightarrow> nat \<Rightarrow> uint64 \<Rightarrow> 'a file_state_scheme \<Rightarrow> (int, 'a file_state_scheme) kres" where
  "filestat pad f addr s =
     with_myproc (\<lambda>p s.
       if f_type (files s f) = FD_INODE \<or> f_type (files s f) = FD_DEVICE then
         kbind (ilock (f_ip (files s f)) s) (\<lambda>_ s.
         with_ip (f_ip (files s f)) (\<lambda>ip s.
           let st = stati ip s in
           kbind (iunlock (Some ip) s) (\<lambda>_ s.
           kbind (copyout (p_pagetable (procs s p)) addr (stat_bytes st pad) s) (\<lambda>r s.
           if r < 0 then Ret (- 1) s else Ret 0 s))) s)
       else Ret (- 1) s) s"

text \<open>The test on the major number, a signed \<^verbatim>\<open>short\<close>, and on the installed function.\<close>

definition dev_ok :: "ushort \<Rightarrow> 'a file_state_scheme \<Rightarrow> bool" where
  "dev_ok m s \<longleftrightarrow> \<not> (sint m < 0 \<or> sint m \<ge> NDEV) \<and> devsw s (nat (sint m))"

definition fileread :: "nat \<Rightarrow> uint64 \<Rightarrow> int \<Rightarrow> 'a file_state_scheme \<Rightarrow> (int, 'a file_state_scheme) kres" where
  "fileread f addr n s =
     (if \<not> f_readable (files s f) then Ret (- 1) s
      else case f_type (files s f) of
        FD_PIPE \<Rightarrow> piperead (f_pipe (files s f)) addr n s
      | FD_DEVICE \<Rightarrow>
          if \<not> dev_ok (f_major (files s f)) s then Ret (- 1) s
          else kbind (consoleread (User addr) n s) (\<lambda>(r, _) s. Ret r s)
      | FD_INODE \<Rightarrow>
          kbind (ilock (f_ip (files s f)) s) (\<lambda>_ s.
          with_ip (f_ip (files s f)) (\<lambda>ip s.
            kbind (readi ip (User addr) (f_off (files s f)) (word_of_int n) s) (\<lambda>(r, _) s.
            let s = (if r > 0 then upd_file f (f_off_update (\<lambda>off. off + word_of_int r)) s else s) in
            kbind (iunlock (Some ip) s) (\<lambda>_ s.
            Ret r s))) s)
      | FD_NONE \<Rightarrow> Panic ''fileread'')"

text \<open>The inode branch of \<^verbatim>\<open>filewrite\<close> from byte \<open>i\<close> on.\<close>

definition write_max :: nat where
  "write_max = ((MAXOPBLOCKS - 1 - 1 - 2) div 2) * BSIZE"

function filewrite_loop ::
  "nat \<Rightarrow> uint64 \<Rightarrow> nat \<Rightarrow> nat \<Rightarrow> 'a file_state_scheme \<Rightarrow> (int, 'a file_state_scheme) kres" where
  "filewrite_loop f addr n i s =
     (if i < n then
        let n1 = min (n - i) write_max in
        kbind (begin_op s) (\<lambda>_ s.
        kbind (ilock (f_ip (files s f)) s) (\<lambda>_ s.
        kbind (with_ip (f_ip (files s f)) (\<lambda>ip s.
          kbind (writei ip (User (addr + of_nat i)) (f_off (files s f)) (of_nat n1) s) (\<lambda>r s.
          let s = (if r > 0 then upd_file f (f_off_update (\<lambda>off. off + word_of_int r)) s else s) in
          kbind (iunlock (Some ip) s) (\<lambda>_ s.
          Ret r s))) s) (\<lambda>r s.
        kbind (end_op s) (\<lambda>_ s.
        if r \<noteq> int n1 then Ret (if i = n then int n else - 1) s
        else filewrite_loop f addr n (i + n1) s))))
      else Ret (if i = n then int n else - 1) s)"
  by pat_completeness auto
termination
  by (relation "measure (\<lambda>(f, addr, n, i, s). n - i)") (auto simp: write_max_def MAXOPBLOCKS_def BSIZE_def)

declare filewrite_loop.simps [simp del]

text \<open>With a negative \<open>n\<close> the loop does nothing and \<^verbatim>\<open>i == n\<close> fails.\<close>

definition filewrite :: "nat \<Rightarrow> uint64 \<Rightarrow> int \<Rightarrow> 'a file_state_scheme \<Rightarrow> (int, 'a file_state_scheme) kres" where
  "filewrite f addr n s =
     (if \<not> f_writable (files s f) then Ret (- 1) s
      else case f_type (files s f) of
        FD_PIPE \<Rightarrow> pipewrite (f_pipe (files s f)) addr n s
      | FD_DEVICE \<Rightarrow>
          if \<not> dev_ok (f_major (files s f)) s then Ret (- 1) s
          else consolewrite (User addr) n s
      | FD_INODE \<Rightarrow> if n < 0 then Ret (- 1) s else filewrite_loop f addr (nat n) 0 s
      | FD_NONE \<Rightarrow> Panic ''filewrite'')"

definition get_proc_open_files :: "nat \<Rightarrow> 'a proc_state_scheme \<Rightarrow> int" where
  "get_proc_open_files p s = int (length (filter (\<lambda>i. p_ofile (procs s p) i \<noteq> None) [0..<NOFILE]))"

section \<open>pipealloc\<close>

text \<open>The exit \<^verbatim>\<open>bad\<close>; \<open>pi\<close> is 0 on every path to it.\<close>

definition pipealloc_bad ::
  "nat option \<Rightarrow> nat option \<Rightarrow> 'a file_state_scheme \<Rightarrow> ((nat \<times> nat) option, 'a file_state_scheme) kres" where
  "pipealloc_bad f0 f1 s =
     kbind (case f0 of None \<Rightarrow> Ret () s | Some f \<Rightarrow> fileclose f s) (\<lambda>_ s.
     kbind (case f1 of None \<Rightarrow> Ret () s | Some f \<Rightarrow> fileclose f s) (\<lambda>_ s.
     Ret None s))"

definition pipealloc :: "'a file_state_scheme \<Rightarrow> ((nat \<times> nat) option, 'a file_state_scheme) kres" where
  "pipealloc s =
     kbind (filealloc s) (\<lambda>f0 s.
     case f0 of None \<Rightarrow> pipealloc_bad None None s
     | Some a \<Rightarrow>
       kbind (filealloc s) (\<lambda>f1 s.
       case f1 of None \<Rightarrow> pipealloc_bad (Some a) None s
       | Some b \<Rightarrow>
         kbind (kalloc s) (\<lambda>pi s.
         if pi = 0 then pipealloc_bad (Some a) (Some b) s
         else
           let s = upd_pipe pi (\<lambda>q. q\<lparr>pi_readopen := 1, pi_writeopen := 1, pi_nwrite := 0, pi_nread := 0\<rparr>) s;
               s = initlock (L_pipe pi) ''pipe'' s;
               s = upd_file a (\<lambda>f. f\<lparr>f_type := FD_PIPE, f_readable := True, f_writable := False, f_pipe := pi\<rparr>) s;
               s = upd_file b (\<lambda>f. f\<lparr>f_type := FD_PIPE, f_readable := False, f_writable := True, f_pipe := pi\<rparr>) s
           in Ret (Some (a, b)) s)))"

end
