(* ===== verification/Proc.thy ===== *)
theory Proc
  imports File
begin

text \<open>
  The life of a process (the part of \<^verbatim>\<open>kernel/proc.c\<close> that uses page tables and files):
  allocation and release of process slots, \<^verbatim>\<open>fork\<close>, \<^verbatim>\<open>exit\<close>, \<^verbatim>\<open>wait\<close> and the size of user
  memory.  The trap frame is a page of memory; its registers are read and written at the offsets
  of \<^verbatim>\<open>struct trapframe\<close>.  \<open>kexit\<close> ends in the scheduler; a parent that waits is left asleep
  and, woken, goes on with \<open>kwait_loop\<close>.
\<close>

unbundle bit_operations_syntax

section \<open>Trap frames\<close>

datatype tfreg =
    TF_kernel_satp | TF_kernel_sp | TF_kernel_trap | TF_epc | TF_kernel_hartid | TF_ra | TF_sp | TF_gp | TF_tp
  | TF_t0 | TF_t1 | TF_t2 | TF_s0 | TF_s1 | TF_a0 | TF_a1 | TF_a2 | TF_a3 | TF_a4 | TF_a5 | TF_a6 | TF_a7
  | TF_s2 | TF_s3 | TF_s4 | TF_s5 | TF_s6 | TF_s7 | TF_s8 | TF_s9 | TF_s10 | TF_s11 | TF_t3 | TF_t4 | TF_t5 | TF_t6

primrec tf_off :: "tfreg \<Rightarrow> uint64" where
  "tf_off TF_kernel_satp = 0" | "tf_off TF_kernel_sp = 8" | "tf_off TF_kernel_trap = 16" | "tf_off TF_epc = 24"
| "tf_off TF_kernel_hartid = 32" | "tf_off TF_ra = 40" | "tf_off TF_sp = 48" | "tf_off TF_gp = 56" | "tf_off TF_tp = 64"
| "tf_off TF_t0 = 72" | "tf_off TF_t1 = 80" | "tf_off TF_t2 = 88" | "tf_off TF_s0 = 96" | "tf_off TF_s1 = 104"
| "tf_off TF_a0 = 112" | "tf_off TF_a1 = 120" | "tf_off TF_a2 = 128" | "tf_off TF_a3 = 136" | "tf_off TF_a4 = 144"
| "tf_off TF_a5 = 152" | "tf_off TF_a6 = 160" | "tf_off TF_a7 = 168" | "tf_off TF_s2 = 176" | "tf_off TF_s3 = 184"
| "tf_off TF_s4 = 192" | "tf_off TF_s5 = 200" | "tf_off TF_s6 = 208" | "tf_off TF_s7 = 216" | "tf_off TF_s8 = 224"
| "tf_off TF_s9 = 232" | "tf_off TF_s10 = 240" | "tf_off TF_s11 = 248" | "tf_off TF_t3 = 256" | "tf_off TF_t4 = 264"
| "tf_off TF_t5 = 272" | "tf_off TF_t6 = 280"

definition tf_get :: "nat \<Rightarrow> tfreg \<Rightarrow> 'a proc_state_scheme \<Rightarrow> uint64" where
  "tf_get p r s = load64 (mem s) (p_trapframe (procs s p) + tf_off r)"

definition tf_set :: "nat \<Rightarrow> tfreg \<Rightarrow> uint64 \<Rightarrow> 'a proc_state_scheme \<Rightarrow> 'a proc_state_scheme" where
  "tf_set p r v s = s\<lparr>mem := store64 (mem s) (p_trapframe (procs s p) + tf_off r) v\<rparr>"

section \<open>Slots and page tables\<close>

definition proc_pagetable :: "nat \<Rightarrow> 'a proc_state_scheme \<Rightarrow> (uint64, 'a proc_state_scheme) kres" where
  "proc_pagetable p s =
     kbind (uvmcreate s) (\<lambda>pagetable s.
     if pagetable = 0 then Ret 0 s
     else kbind (mappages pagetable TRAMPOLINE PGSIZE (sym_trampoline (syms s)) (PTE_R OR PTE_X) s) (\<lambda>r s.
       if r < 0 then kbind (uvmfree pagetable 0 s) (\<lambda>_ s. Ret 0 s)
       else kbind (mappages pagetable TRAPFRAME PGSIZE (p_trapframe (procs s p)) (PTE_R OR PTE_W) s) (\<lambda>r s.
         if r < 0 then
           kbind (uvmunmap pagetable TRAMPOLINE 1 False s) (\<lambda>_ s.
           kbind (uvmfree pagetable 0 s) (\<lambda>_ s.
           Ret 0 s))
         else Ret pagetable s)))"

definition proc_freepagetable :: "uint64 \<Rightarrow> uint64 \<Rightarrow> 'a kmem_state_scheme \<Rightarrow> (unit, 'a kmem_state_scheme) kres" where
  "proc_freepagetable pagetable sz s =
     kbind (uvmunmap pagetable TRAMPOLINE 1 False s) (\<lambda>_ s.
     kbind (uvmunmap pagetable TRAPFRAME 1 False s) (\<lambda>_ s.
     uvmfree pagetable sz s))"

definition freeproc :: "nat \<Rightarrow> 'a proc_state_scheme \<Rightarrow> (unit, 'a proc_state_scheme) kres" where
  "freeproc p s =
     kbind (if p_trapframe (procs s p) \<noteq> 0 then kfree (p_trapframe (procs s p)) s else Ret () s) (\<lambda>_ s.
     let s = upd_proc p (p_trapframe_update (\<lambda>_. 0)) s in
     kbind (if p_pagetable (procs s p) \<noteq> 0
            then proc_freepagetable (p_pagetable (procs s p)) (p_sz (procs s p)) s else Ret () s) (\<lambda>_ s.
     Ret () (upd_proc p (\<lambda>pr. pr\<lparr>p_pagetable := 0, p_sz := 0, p_pid := 0, p_parent := None, p_name := [],
       p_chan := None, p_killed := 0, p_xstate := 0, p_state := UNUSED\<rparr>) s)))"

text \<open>The part of \<^verbatim>\<open>allocproc\<close> after the label \<^verbatim>\<open>found\<close>.\<close>

definition allocproc_found :: "nat \<Rightarrow> 'a proc_state_scheme \<Rightarrow> (nat option, 'a proc_state_scheme) kres" where
  "allocproc_found p s =
     kbind (allocpid s) (\<lambda>pid s.
     let s = upd_proc p (\<lambda>pr. pr\<lparr>p_pid := pid, p_state := USED, p_cpu_ticks := 0, p_cpu_ticks_max := 100,
               p_nofile_cur := int NOFILE, p_nofile_max := int NOFILE, p_start_time := ticks64 s,
               p_sleep_ticks := 0, p_wait_ticks := 0, p_context_switches := 0, p_wait_start := ticks64 s,
               p_sleep_start := 0\<rparr>) s in
     kbind (kalloc s) (\<lambda>tf s.
     let s = upd_proc p (p_trapframe_update (\<lambda>_. tf)) s in
     if tf = 0 then
       kbind (freeproc p s) (\<lambda>_ s. kbind (release (L_proc p) s) (\<lambda>_ s. Ret None s))
     else kbind (proc_pagetable p s) (\<lambda>pagetable s.
       let s = upd_proc p (p_pagetable_update (\<lambda>_. pagetable)) s in
       if pagetable = 0 then
         kbind (freeproc p s) (\<lambda>_ s. kbind (release (L_proc p) s) (\<lambda>_ s. Ret None s))
       else Ret (Some p) (upd_proc p (\<lambda>pr. pr\<lparr>p_context :=
              blank_context\<lparr>ctx_ra := sym_forkret (syms s), ctx_sp := p_kstack pr + PGSIZE\<rparr>\<rparr>) s))))"

definition allocproc :: "'a proc_state_scheme \<Rightarrow> (nat option, 'a proc_state_scheme) kres" where
  "allocproc s =
     kbind (kfind all_procs (\<lambda>p s.
       kbind (acquire (L_proc p) s) (\<lambda>_ s.
       if p_state (procs s p) = UNUSED then Ret (Some p) s
       else kbind (release (L_proc p) s) (\<lambda>_ s. Ret None s))) s) (\<lambda>r s.
     case r of None \<Rightarrow> Ret None s | Some p \<Rightarrow> allocproc_found p s)"

definition userinit :: "'a fs_state_scheme \<Rightarrow> (unit, 'a fs_state_scheme) kres" where
  "userinit s =
     kbind (allocproc s) (\<lambda>r s.
     let s = s\<lparr>initproc := r\<rparr> in
     case r of
       None \<Rightarrow> Undef
     | Some p \<Rightarrow>
         kbind (namei [slash] s) (\<lambda>ip s.
         let s = upd_proc p (p_cwd_update (\<lambda>_. ip)) s;
             s = upd_proc p (p_state_update (\<lambda>_. RUNNABLE)) s;
             s = upd_proc p (\<lambda>pr. pr\<lparr>p_wait_start := ticks64 s\<rparr>) s in
         release (L_proc p) s))"

definition growproc :: "int \<Rightarrow> 'a proc_state_scheme \<Rightarrow> (int, 'a proc_state_scheme) kres" where
  "growproc n s =
     with_myproc (\<lambda>p s.
       let sz = p_sz (procs s p) in
       if n > 0 then
         if sz + of_cint n > TRAPFRAME then Ret (- 1) s
         else kbind (uvmalloc (p_pagetable (procs s p)) sz (sz + of_cint n) PTE_W s) (\<lambda>sz s.
           if sz = 0 then Ret (- 1) s
           else Ret 0 (upd_proc p (p_sz_update (\<lambda>_. sz)) s))
       else if n < 0 then
         kbind (uvmdealloc (p_pagetable (procs s p)) sz (sz + of_cint n) s) (\<lambda>sz s.
         Ret 0 (upd_proc p (p_sz_update (\<lambda>_. sz)) s))
       else Ret 0 (upd_proc p (p_sz_update (\<lambda>_. sz)) s)) s"

section \<open>fork\<close>

text \<open>The copy of the open files to the child.\<close>

definition fork_files :: "nat \<Rightarrow> nat \<Rightarrow> 'a file_state_scheme \<Rightarrow> (unit, 'a file_state_scheme) kres" where
  "fork_files p np s =
     kfor [0..<NOFILE] (\<lambda>i s.
       case p_ofile (procs s p) i of
         None \<Rightarrow> Ret () s
       | Some f \<Rightarrow>
           kbind (filedup f s) (\<lambda>f s.
           Ret () (upd_proc np (p_ofile_update (\<lambda>ofs. ofs(i := Some f))) s))) s"

definition kfork :: "'a file_state_scheme \<Rightarrow> (int, 'a file_state_scheme) kres" where
  "kfork s =
     with_myproc (\<lambda>p s.
       kbind (allocproc s) (\<lambda>r s.
       case r of
         None \<Rightarrow> Ret (- 1) s
       | Some np \<Rightarrow>
           kbind (uvmcopy (p_pagetable (procs s p)) (p_pagetable (procs s np)) (p_sz (procs s p)) s) (\<lambda>r s.
           if r < 0 then
             kbind (freeproc np s) (\<lambda>_ s.
             kbind (release (L_proc np) s) (\<lambda>_ s.
             Ret (- 1) s))
           else
             let s = upd_proc np (p_sz_update (\<lambda>_. p_sz (procs s p))) s;
                 s = upd_proc np (p_nofile_max_update (\<lambda>_. p_nofile_max (procs s p))) s;
                 s = upd_proc np (p_cpu_ticks_max_update (\<lambda>_. p_cpu_ticks_max (procs s p))) s;
                 s = upd_proc np (p_cpu_ticks_update (\<lambda>_. 0)) s;
                 s = s\<lparr>mem := memmove (mem s) (p_trapframe (procs s np)) (p_trapframe (procs s p)) 288\<rparr>;
                 s = tf_set np TF_a0 0 s in
             kbind (fork_files p np s) (\<lambda>_ s.
             case p_cwd (procs s p) of
               None \<Rightarrow> Undef
             | Some cwd \<Rightarrow>
                 kbind (idup cwd s) (\<lambda>ip s.
                 let s = upd_proc np (p_cwd_update (\<lambda>_. Some ip)) s;
                     s = upd_proc np (p_name_update (\<lambda>_. take 15 (p_name (procs s p)))) s;
                     pid = p_pid (procs s np) in
                 kbind (release (L_proc np) s) (\<lambda>_ s.
                 kbind (acquire L_wait s) (\<lambda>_ s.
                 let s = upd_proc np (p_parent_update (\<lambda>_. Some p)) s in
                 kbind (release L_wait s) (\<lambda>_ s.
                 kbind (acquire (L_proc np) s) (\<lambda>_ s.
                 let s = upd_proc np (p_state_update (\<lambda>_. RUNNABLE)) s;
                     s = upd_proc np (\<lambda>pr. pr\<lparr>p_wait_start := ticks64 s\<rparr>) s in
                 kbind (release (L_proc np) s) (\<lambda>_ s.
                 Ret pid s)))))))))) s"

section \<open>exit and wait\<close>

text \<open>\<^verbatim>\<open>wakeup\<close> of a process pointer; no process sleeps on a null channel.\<close>

definition wakeup_ptr :: "nat option \<Rightarrow> 'a proc_state_scheme \<Rightarrow> (unit, 'a proc_state_scheme) kres" where
  "wakeup_ptr q s = (case q of None \<Rightarrow> Ret () s | Some q \<Rightarrow> wakeup (Chan_proc q) s)"

definition reparent :: "nat \<Rightarrow> 'a proc_state_scheme \<Rightarrow> (unit, 'a proc_state_scheme) kres" where
  "reparent p s =
     kfor all_procs (\<lambda>pp s.
       if p_parent (procs s pp) = Some p then
         let s = upd_proc pp (p_parent_update (\<lambda>_. initproc s)) s in
         wakeup_ptr (initproc s) s
       else Ret () s) s"

definition exit_files :: "nat \<Rightarrow> 'a file_state_scheme \<Rightarrow> (unit, 'a file_state_scheme) kres" where
  "exit_files p s =
     kfor [0..<NOFILE] (\<lambda>fd s.
       case p_ofile (procs s p) fd of
         None \<Rightarrow> Ret () s
       | Some f \<Rightarrow>
           kbind (fileclose f s) (\<lambda>_ s.
           Ret () (upd_proc p (p_ofile_update (\<lambda>ofs. ofs(fd := None))) s))) s"

definition kexit :: "int \<Rightarrow> 'a file_state_scheme \<Rightarrow> ('r, 'a file_state_scheme) kres" where
  "kexit status s =
     with_myproc (\<lambda>p s.
       if initproc s = Some p then Panic ''init exiting''
       else kbind (exit_files p s) (\<lambda>_ s.
         kbind (begin_op s) (\<lambda>_ s.
         kbind (iput_ptr (p_cwd (procs s p)) s) (\<lambda>_ s.
         kbind (end_op s) (\<lambda>_ s.
         let s = upd_proc p (p_cwd_update (\<lambda>_. None)) s in
         kbind (acquire L_wait s) (\<lambda>_ s.
         kbind (reparent p s) (\<lambda>_ s.
         kbind (wakeup_ptr (p_parent (procs s p)) s) (\<lambda>_ s.
         kbind (acquire (L_proc p) s) (\<lambda>_ s.
         let s = upd_proc p (p_xstate_update (\<lambda>_. status)) s;
             s = upd_proc p (p_state_update (\<lambda>_. ZOMBIE)) s in
         kbind (release L_wait s) (\<lambda>_ s.
         kbind (sched s) (\<lambda>_ s.
         Panic ''zombie exit''))))))))))) s"

text \<open>One pass over the table in \<^verbatim>\<open>kwait\<close>: the value to return, if it found a zombie child.\<close>

definition kwait_scan :: "nat \<Rightarrow> uint64 \<Rightarrow> 'a proc_state_scheme \<Rightarrow> (int option, 'a proc_state_scheme) kres" where
  "kwait_scan p addr s =
     kfind all_procs (\<lambda>pp s.
       if p_parent (procs s pp) = Some p then
         kbind (acquire (L_proc pp) s) (\<lambda>_ s.
         if p_state (procs s pp) = ZOMBIE then
           let pid = p_pid (procs s pp) in
           kbind (if addr \<noteq> 0 then copyout (p_pagetable (procs s p)) addr
                      (le_bytes 4 (word_of_int (p_xstate (procs s pp)) :: uint32)) s
                  else Ret 0 s) (\<lambda>r s.
           if r < 0 then
             kbind (release (L_proc pp) s) (\<lambda>_ s.
             kbind (release L_wait s) (\<lambda>_ s.
             Ret (Some (- 1)) s))
           else
             kbind (freeproc pp s) (\<lambda>_ s.
             kbind (release (L_proc pp) s) (\<lambda>_ s.
             kbind (release L_wait s) (\<lambda>_ s.
             Ret (Some pid) s))))
         else kbind (release (L_proc pp) s) (\<lambda>_ s. Ret None s))
       else Ret None s) s"

definition havekids :: "nat \<Rightarrow> 'a proc_state_scheme \<Rightarrow> bool" where
  "havekids p s \<longleftrightarrow> list_ex (\<lambda>pp. p_parent (procs s pp) = Some p) all_procs"

definition kwait_loop :: "nat \<Rightarrow> uint64 \<Rightarrow> 'a proc_state_scheme \<Rightarrow> (int, 'a proc_state_scheme) kres" where
  "kwait_loop p addr s =
     kbind (kwait_scan p addr s) (\<lambda>r s.
     case r of
       Some pid \<Rightarrow> Ret pid s
     | None \<Rightarrow>
         kbind (if \<not> havekids p s then Ret 1 s else killed p s) (\<lambda>stop s.
         if stop \<noteq> 0 then kbind (release L_wait s) (\<lambda>_ s. Ret (- 1) s)
         else sleep (Chan_proc p) L_wait s))"

definition kwait :: "uint64 \<Rightarrow> 'a proc_state_scheme \<Rightarrow> (int, 'a proc_state_scheme) kres" where
  "kwait addr s =
     with_myproc (\<lambda>p s.
       kbind (acquire L_wait s) (\<lambda>_ s.
       kwait_loop p addr s)) s"

end
