(* ===== verification/Exec.thy ===== *)
theory Exec
  imports Proc
begin

text \<open>
  Loading a program (\<^verbatim>\<open>kernel/exec.c\<close>).  The path and the arguments are given by their bytes before
  the NUL.  The ELF structs are the bytes \<^verbatim>\<open>readi\<close> put into the locals of \<^verbatim>\<open>kexec\<close>, read at their
  offsets.
\<close>

unbundle bit_operations_syntax

definition ELF_MAGIC :: uint32 where "ELF_MAGIC = 0x464C457F"
definition ELF_PROG_LOAD :: uint32 where "ELF_PROG_LOAD = 1"
definition USERSTACK :: nat where "USERSTACK = 1"

text \<open>Little-endian fields of a struct given by its bytes.\<close>

definition fld :: "nat \<Rightarrow> nat \<Rightarrow> uchar list \<Rightarrow> 'a::len word" where
  "fld off n bs = le_word (take n (drop off bs))"

record elfhdr =
  elf_magic :: uint32
  elf_entry :: uint64
  elf_phoff :: uint64
  elf_phnum :: ushort

definition elfhdr_of :: "uchar list \<Rightarrow> elfhdr" where
  "elfhdr_of bs = \<lparr>elf_magic = fld 0 4 bs, elf_entry = fld 24 8 bs, elf_phoff = fld 32 8 bs, elf_phnum = fld 56 2 bs\<rparr>"

record proghdr =
  ph_type :: uint32
  ph_flags :: uint32
  ph_off :: uint64
  ph_vaddr :: uint64
  ph_filesz :: uint64
  ph_memsz :: uint64

definition proghdr_of :: "uchar list \<Rightarrow> proghdr" where
  "proghdr_of bs = \<lparr>ph_type = fld 0 4 bs, ph_flags = fld 4 4 bs, ph_off = fld 8 8 bs, ph_vaddr = fld 16 8 bs,
     ph_filesz = fld 32 8 bs, ph_memsz = fld 40 8 bs\<rparr>"

definition flags2perm :: "uint32 \<Rightarrow> uint64" where
  "flags2perm flags =
     (let perm = 0;
          perm = (if flags AND 1 \<noteq> 0 then PTE_X else perm)
      in if flags AND 2 \<noteq> 0 then perm OR PTE_W else perm)"

text \<open>The offsets \<open>i\<close> of the loop of \<^verbatim>\<open>loadseg\<close> and one turn of it.\<close>

definition loadseg ::
  "uint64 \<Rightarrow> uint64 \<Rightarrow> nat \<Rightarrow> uint32 \<Rightarrow> uint32 \<Rightarrow> 'a fs_state_scheme \<Rightarrow> (int, 'a fs_state_scheme) kres" where
  "loadseg pagetable va ip offset sz s =
     kbind (kfind (map ((*) 4096) [0..<(unat sz + 4095) div 4096]) (\<lambda>i s.
       kbind (walkaddr pagetable (va + of_nat i) s) (\<lambda>pa s.
       if pa = 0 then Panic ''loadseg: address should exist''
       else let n = (if unat sz - i < 4096 then unat sz - i else 4096) in
         kbind (readi ip (Kernel pa) (offset + of_nat i) (of_nat n) s) (\<lambda>(r, _) s.
         if r \<noteq> int n then Ret (Some (- 1)) s else Ret None s))) s) (\<lambda>r s.
     Ret (case r of None \<Rightarrow> 0 | Some e \<Rightarrow> e) s)"

text \<open>The exit \<^verbatim>\<open>bad\<close>: \<open>sz\<close> and \<open>ip\<close> have the values of the locals there.\<close>

definition kexec_bad :: "uint64 \<Rightarrow> uint64 \<Rightarrow> nat option \<Rightarrow> 'a fs_state_scheme \<Rightarrow> (int, 'a fs_state_scheme) kres" where
  "kexec_bad pagetable sz ipo s =
     kbind (if pagetable \<noteq> 0 then proc_freepagetable pagetable sz s else Ret () s) (\<lambda>_ s.
     kbind (case ipo of
              None \<Rightarrow> Ret () s
            | Some ip \<Rightarrow> kbind (iunlockput ip s) (\<lambda>_ s. end_op s)) (\<lambda>_ s.
     Ret (- 1) s))"

text \<open>
  The loop over the program headers, with the number of headers to go: the size reached, and
  whether it must leave through \<^verbatim>\<open>bad\<close>.
\<close>

primrec kexec_load ::
  "nat \<Rightarrow> uint64 \<Rightarrow> nat \<Rightarrow> int \<Rightarrow> uint64 \<Rightarrow> 'a fs_state_scheme \<Rightarrow> (bool \<times> uint64, 'a fs_state_scheme) kres" where
  "kexec_load 0 pagetable ip off sz s = Ret (True, sz) s"
| "kexec_load (Suc k) pagetable ip off sz s =
     kbind (readi ip (Local []) (word_of_int off) 56 s) (\<lambda>(r, bs) s.
     if r \<noteq> 56 then Ret (False, sz) s
     else let ph = proghdr_of bs in
       if ph_type ph \<noteq> ELF_PROG_LOAD then kexec_load k pagetable ip (off + 56) sz s
       else if ph_memsz ph < ph_filesz ph then Ret (False, sz) s
       else if ph_vaddr ph + ph_memsz ph < ph_vaddr ph then Ret (False, sz) s
       else if ph_vaddr ph mod PGSIZE \<noteq> 0 then Ret (False, sz) s
       else kbind (uvmalloc pagetable sz (ph_vaddr ph + ph_memsz ph) (flags2perm (ph_flags ph)) s) (\<lambda>sz1 s.
         if sz1 = 0 then Ret (False, sz) s
         else kbind (loadseg pagetable (ph_vaddr ph) ip (ucast (ph_off ph)) (ucast (ph_filesz ph)) s) (\<lambda>r s.
           if r < 0 then Ret (False, sz1) s
           else kexec_load k pagetable ip (off + 56) sz1 s)))"

text \<open>
  Pushing the argument strings: the stack pointer and the addresses pushed so far, in order;
  \<open>None\<close> to leave through \<^verbatim>\<open>bad\<close>.
\<close>

primrec kexec_args ::
  "uchar list list \<Rightarrow> uint64 \<Rightarrow> uint64 \<Rightarrow> uint64 \<Rightarrow> uint64 list \<Rightarrow> 'a proc_state_scheme \<Rightarrow>
    ((uint64 \<times> uint64 list) option, 'a proc_state_scheme) kres" where
  "kexec_args [] pagetable stackbase sp ustack s = Ret (Some (sp, ustack)) s"
| "kexec_args (a # argv) pagetable stackbase sp ustack s =
     (if length ustack \<ge> MAXARG then Ret None s
      else let sp = sp - of_nat (length a + 1);
               sp = sp - sp mod 16 in
        if sp < stackbase then Ret None s
        else kbind (copyout pagetable sp (a @ [0]) s) (\<lambda>r s.
          if r < 0 then Ret None s
          else kexec_args argv pagetable stackbase sp (ustack @ [sp]) s))"

text \<open>The name of the program: what follows the last slash of the path.\<close>

definition last_elem :: "uchar list \<Rightarrow> uchar list" where
  "last_elem path = rev (takeWhile ((\<noteq>) slash) (rev path))"

text \<open>The part of \<^verbatim>\<open>kexec\<close> after the file is closed.\<close>

definition kexec_stack ::
  "uchar list \<Rightarrow> uchar list list \<Rightarrow> elfhdr \<Rightarrow> uint64 \<Rightarrow> uint64 \<Rightarrow> 'a fs_state_scheme \<Rightarrow> (int, 'a fs_state_scheme) kres" where
  "kexec_stack path argv elf pagetable sz s =
     with_myproc (\<lambda>p s.
       let oldsz = p_sz (procs s p);
           sz = PGROUNDUP sz;
           guard = of_nat (USERSTACK + 1) * PGSIZE in
       kbind (uvmalloc pagetable sz (sz + guard) PTE_W s) (\<lambda>sz1 s.
       if sz1 = 0 then kexec_bad pagetable sz None s
       else let sz = sz1 in
         kbind (uvmclear pagetable (sz - guard) s) (\<lambda>_ s.
         let stackbase = sz - of_nat USERSTACK * PGSIZE in
         kbind (kexec_args argv pagetable stackbase sz [] s) (\<lambda>r s.
         case r of
           None \<Rightarrow> kexec_bad pagetable sz None s
         | Some (sp, ustack) \<Rightarrow>
             if length ustack \<ge> MAXARG then Undef
             else let sp = sp - of_nat (length ustack + 1) * 8;
                      sp = sp - sp mod 16 in
               if sp < stackbase then kexec_bad pagetable sz None s
               else kbind (copyout pagetable sp (concat (map (le_bytes 8) (ustack @ [0]))) s) (\<lambda>r s.
                 if r < 0 then kexec_bad pagetable sz None s
                 else let s = tf_set p TF_a1 sp s;
                          s = upd_proc p (p_name_update (\<lambda>_. take 15 (last_elem path))) s;
                          oldpagetable = p_pagetable (procs s p);
                          s = upd_proc p (p_pagetable_update (\<lambda>_. pagetable)) s;
                          s = upd_proc p (p_sz_update (\<lambda>_. sz)) s;
                          s = tf_set p TF_epc (elf_entry elf) s;
                          s = tf_set p TF_sp sp s in
                   kbind (proc_freepagetable oldpagetable oldsz s) (\<lambda>_ s.
                   Ret (int (length ustack)) s)))))) s"

definition kexec :: "uchar list \<Rightarrow> uchar list list \<Rightarrow> 'a fs_state_scheme \<Rightarrow> (int, 'a fs_state_scheme) kres" where
  "kexec path argv s =
     with_myproc (\<lambda>p s.
       kbind (begin_op s) (\<lambda>_ s.
       kbind (namei path s) (\<lambda>ipo s.
       case ipo of
         None \<Rightarrow> kbind (end_op s) (\<lambda>_ s. Ret (- 1) s)
       | Some ip \<Rightarrow>
           kbind (ilock (Some ip) s) (\<lambda>_ s.
           kbind (readi ip (Local []) 0 64 s) (\<lambda>(r, bs) s.
           if r \<noteq> 64 then kexec_bad 0 0 (Some ip) s
           else let elf = elfhdr_of bs in
             if elf_magic elf \<noteq> ELF_MAGIC then kexec_bad 0 0 (Some ip) s
             else kbind (proc_pagetable p s) (\<lambda>pagetable s.
               if pagetable = 0 then kexec_bad 0 0 (Some ip) s
               else kbind (kexec_load (unat (elf_phnum elf)) pagetable ip (to_int (elf_phoff elf)) 0 s) (\<lambda>(ok, sz) s.
                 if \<not> ok then kexec_bad pagetable sz (Some ip) s
                 else kbind (iunlockput ip s) (\<lambda>_ s.
                   kbind (end_op s) (\<lambda>_ s.
                   kexec_stack path argv elf pagetable sz s))))))))) s"

end
