(* ===== verification/SysArgs.thy ===== *)
theory SysArgs
  imports Exec
begin

text \<open>
  The arguments of system calls (the first part of \<^verbatim>\<open>kernel/syscall.c\<close>): registers of the trap
  frame and strings of user memory.  The functions that store through a pointer return the value
  stored.
\<close>

definition fetchaddr :: "uint64 \<Rightarrow> 'a proc_state_scheme \<Rightarrow> (uint64 option, 'a proc_state_scheme) kres" where
  "fetchaddr addr s =
     with_myproc (\<lambda>p s.
       if addr \<ge> p_sz (procs s p) \<or> addr + 8 > p_sz (procs s p) then Ret None s
       else kbind (copyin (p_pagetable (procs s p)) addr 8 s) (\<lambda>(r, bs) s.
         if r \<noteq> 0 then Ret None s else Ret (Some (le_word bs)) s)) s"

text \<open>The string found, without its NUL; \<open>None\<close> for -1.\<close>

definition fetchstr :: "uint64 \<Rightarrow> nat \<Rightarrow> 'a proc_state_scheme \<Rightarrow> (uchar list option, 'a proc_state_scheme) kres" where
  "fetchstr addr max_len s =
     with_myproc (\<lambda>p s.
       kbind (copyinstr (p_pagetable (procs s p)) addr max_len s) (\<lambda>(r, buf) s.
       if r < 0 then Ret None s
       else Ret (Some (takeWhile ((\<noteq>) 0) buf)) s)) s"

definition argraw :: "int \<Rightarrow> 'a proc_state_scheme \<Rightarrow> (uint64, 'a proc_state_scheme) kres" where
  "argraw n s =
     with_myproc (\<lambda>p s.
       if n = 0 then Ret (tf_get p TF_a0 s) s
       else if n = 1 then Ret (tf_get p TF_a1 s) s
       else if n = 2 then Ret (tf_get p TF_a2 s) s
       else if n = 3 then Ret (tf_get p TF_a3 s) s
       else if n = 4 then Ret (tf_get p TF_a4 s) s
       else if n = 5 then Ret (tf_get p TF_a5 s) s
       else Panic ''argraw'') s"

definition argint :: "int \<Rightarrow> 'a proc_state_scheme \<Rightarrow> (int, 'a proc_state_scheme) kres" where
  "argint n s = kbind (argraw n s) (\<lambda>v s. Ret (to_int v) s)"

definition argaddr :: "int \<Rightarrow> 'a proc_state_scheme \<Rightarrow> (uint64, 'a proc_state_scheme) kres" where
  "argaddr n s = argraw n s"

definition argstr :: "int \<Rightarrow> nat \<Rightarrow> 'a proc_state_scheme \<Rightarrow> (uchar list option, 'a proc_state_scheme) kres" where
  "argstr n max_len s = kbind (argaddr n s) (\<lambda>addr s. fetchstr addr max_len s)"

end
