(* ===== verification/Sysproc.thy ===== *)
theory Sysproc
  imports SysArgs
begin

text \<open>
  The process system calls (\<^verbatim>\<open>kernel/sysproc.c\<close>), among them the ones this kernel adds: memory
  statistics, resource limits and usage; and \<^verbatim>\<open>sys_inodepairs\<close> of \<^verbatim>\<open>kernel/file.c\<close>.  A result of
  type \<^verbatim>\<open>uint64\<close> is the value left in register a0.
\<close>

section \<open>Processes, memory and time\<close>

definition ret64 :: "(int, 's) kres \<Rightarrow> (uint64, 's) kres" where
  "ret64 r = kbind r (\<lambda>v s. Ret (of_cint v) s)"

definition sys_exit :: "'a file_state_scheme \<Rightarrow> (uint64, 'a file_state_scheme) kres" where
  "sys_exit s = kbind (argint 0 s) (\<lambda>n s. kexit n s)"

definition sys_getpid :: "'a proc_state_scheme \<Rightarrow> (uint64, 'a proc_state_scheme) kres" where
  "sys_getpid s = with_myproc (\<lambda>p s. Ret (of_cint (p_pid (procs s p))) s) s"

definition sys_fork :: "'a file_state_scheme \<Rightarrow> (uint64, 'a file_state_scheme) kres" where
  "sys_fork s = ret64 (kfork s)"

definition sys_wait :: "'a proc_state_scheme \<Rightarrow> (uint64, 'a proc_state_scheme) kres" where
  "sys_wait s = kbind (argaddr 0 s) (\<lambda>p s. ret64 (kwait p s))"

definition SBRK_EAGER :: int where "SBRK_EAGER = 1"

definition sys_sbrk :: "'a proc_state_scheme \<Rightarrow> (uint64, 'a proc_state_scheme) kres" where
  "sys_sbrk s =
     kbind (argint 0 s) (\<lambda>n s.
     kbind (argint 1 s) (\<lambda>t s.
     with_myproc (\<lambda>p s.
       let addr = p_sz (procs s p) in
       if t = SBRK_EAGER \<or> n < 0 then
         kbind (growproc n s) (\<lambda>r s.
         if r < 0 then Ret (- 1) s else Ret addr s)
       else if addr + of_cint n < addr then Ret (- 1) s
       else if addr + of_cint n > TRAPFRAME then Ret (- 1) s
       else with_myproc (\<lambda>p s. Ret addr (upd_proc p (p_sz_update (\<lambda>z. z + of_cint n)) s)) s) s))"

text \<open>The loop of \<^verbatim>\<open>sys_pause\<close>, entered again after each wakeup.\<close>

definition pause_loop :: "int \<Rightarrow> uint32 \<Rightarrow> 'a proc_state_scheme \<Rightarrow> (uint64, 'a proc_state_scheme) kres" where
  "pause_loop n ticks0 s =
     (if ticks s - ticks0 < word_of_int n then
        kbind (with_myproc killed s) (\<lambda>k s.
        if k \<noteq> 0 then kbind (release L_ticks s) (\<lambda>_ s. Ret (- 1) s)
        else sleep Chan_ticks L_ticks s)
      else kbind (release L_ticks s) (\<lambda>_ s. Ret 0 s))"

definition sys_pause :: "'a proc_state_scheme \<Rightarrow> (uint64, 'a proc_state_scheme) kres" where
  "sys_pause s =
     kbind (argint 0 s) (\<lambda>n s.
     let n = (if n < 0 then 0 else n) in
     kbind (acquire L_ticks s) (\<lambda>_ s.
     pause_loop n (ticks s) s))"

definition sys_kill :: "'a proc_state_scheme \<Rightarrow> (uint64, 'a proc_state_scheme) kres" where
  "sys_kill s = kbind (argint 0 s) (\<lambda>pid s. ret64 (kkill pid s))"

definition sys_uptime :: "'a proc_state_scheme \<Rightarrow> (uint64, 'a proc_state_scheme) kres" where
  "sys_uptime s =
     kbind (acquire L_ticks s) (\<lambda>_ s.
     let xticks = ticks s in
     kbind (release L_ticks s) (\<lambda>_ s.
     Ret (ucast xticks) s))"

section \<open>Memory statistics and resource limits\<close>

definition sys_meminfo :: "'a proc_state_scheme \<Rightarrow> (uint64, 'a proc_state_scheme) kres" where
  "sys_meminfo s =
     kbind (argaddr 0 s) (\<lambda>addr s.
     let total = count_total_mem s in
     kbind (count_free_mem s) (\<lambda>avail s.
     with_myproc (\<lambda>p s.
       kbind (copyout (p_pagetable (procs s p)) addr
                (le_bytes 8 total @ le_bytes 8 avail @ le_bytes 8 (total - avail)) s) (\<lambda>r s.
       if r < 0 then Ret (- 1) s else Ret 0 s)) s))"

definition rlimit_bytes :: "uint64 \<Rightarrow> uint64 \<Rightarrow> uchar list" where
  "rlimit_bytes rlim_cur rlim_max = le_bytes 8 rlim_cur @ le_bytes 8 rlim_max"

text \<open>The limits of a process as \<^verbatim>\<open>sys_getrlimit\<close> computes them: what is left and the ceiling.\<close>

definition rlimit_nofile :: "nat \<Rightarrow> 'a proc_state_scheme \<Rightarrow> uint64 \<times> uint64" where
  "rlimit_nofile p s =
     (let currently_open = get_proc_open_files p s;
          mx = p_nofile_max (procs s p)
      in (if currently_open \<ge> mx then 0 else of_cint (mx - currently_open), of_cint mx))"

definition rlimit_cpu :: "nat \<Rightarrow> 'a proc_state_scheme \<Rightarrow> uint64 \<times> uint64" where
  "rlimit_cpu p s =
     (let mx = p_cpu_ticks_max (procs s p);
          used = p_cpu_ticks (procs s p)
      in (if used \<ge> mx then 0 else mx - used, mx))"

definition sys_getrlimit :: "'a proc_state_scheme \<Rightarrow> (uint64, 'a proc_state_scheme) kres" where
  "sys_getrlimit s =
     kbind (argint 0 s) (\<lambda>resource s.
     kbind (argaddr 1 s) (\<lambda>user_rlim_addr s.
     with_myproc (\<lambda>p s.
       let lim = (if resource = RLIMIT_NOFILE then Some (rlimit_nofile p s)
                  else if resource = RLIMIT_CPU then Some (rlimit_cpu p s)
                  else None) in
       case lim of
         None \<Rightarrow> kbind (printf ''getrlimit: invalid resource.'' [] s) (\<lambda>_ s. Ret (- 1) s)
       | Some (cur, mx) \<Rightarrow>
           kbind (copyout (p_pagetable (procs s p)) user_rlim_addr (rlimit_bytes cur mx) s) (\<lambda>r s.
           if r < 0 then Ret (- 1) s else Ret 0 s)) s))"

text \<open>\<^verbatim>\<open>printf\<close> followed by \<^verbatim>\<open>return -1\<close>.\<close>

definition refuse :: "string \<Rightarrow> parg list \<Rightarrow> 'a cons_state_scheme \<Rightarrow> (uint64, 'a cons_state_scheme) kres" where
  "refuse fmt args s = kbind (printf fmt args s) (\<lambda>_ s. Ret (- 1) s)"

text \<open>\<^verbatim>\<open>rlim_max<=cpu_ticks\<close> compares an \<^verbatim>\<open>int\<close> with a \<^verbatim>\<open>uint64\<close>: as unsigned numbers.\<close>

definition setrlimit_cpu :: "int \<Rightarrow> 'a proc_state_scheme \<Rightarrow> (uint64, 'a proc_state_scheme) kres" where
  "setrlimit_cpu rlim_max s =
     (if rlim_max = 0 then refuse ''setrlimit: limit must be > 0\<newline>'' [] s
      else if rlim_max > MAX_CPU_TICKS then
        refuse ''setrlimit: exceeds system max %d\<newline>'' [PWord (of_cint MAX_CPU_TICKS)] s
      else with_myproc (\<lambda>p s.
        if of_cint rlim_max \<le> p_cpu_ticks (procs s p) then
          refuse ''setrlimit: limit must be greater than CPU ticks used.\<newline>'' [] s
        else Ret 0 (upd_proc p (p_cpu_ticks_max_update (\<lambda>_. of_cint rlim_max)) s)) s)"

definition setrlimit_nofile :: "int \<Rightarrow> 'a proc_state_scheme \<Rightarrow> (uint64, 'a proc_state_scheme) kres" where
  "setrlimit_nofile rlim_max s =
     (if rlim_max > int NOFILE then
        refuse ''setrlimit: exceeds system NOFILE limit %d\<newline>'' [PWord (of_nat NOFILE)] s
      else if rlim_max \<le> 0 then refuse ''setrlimit: limit must be > 0\<newline>'' [] s
      else with_myproc (\<lambda>p s.
        let currently_open = get_proc_open_files p s in
        if rlim_max \<le> currently_open then
          refuse ''setrlimit: can't set below currently open files (%d)\<newline>'' [PWord (of_cint currently_open)] s
        else Ret 0 (upd_proc p (p_nofile_max_update (\<lambda>_. rlim_max)) s)) s)"

definition sys_setrlimit :: "'a proc_state_scheme \<Rightarrow> (uint64, 'a proc_state_scheme) kres" where
  "sys_setrlimit s =
     kbind (argint 0 s) (\<lambda>resource s.
     kbind (argint 1 s) (\<lambda>rlim_max s.
     if resource = RLIMIT_CPU then setrlimit_cpu rlim_max s
     else if resource = RLIMIT_NOFILE then setrlimit_nofile rlim_max s
     else refuse ''setrlimit: invalid resource.'' [] s))"

section \<open>Resource usage\<close>

primrec usage_state :: "procstate \<Rightarrow> string" where
  "usage_state UNUSED = ''unused''"
| "usage_state USED = ''used''"
| "usage_state SLEEPING = ''sleep''"
| "usage_state RUNNABLE = ''runnable''"
| "usage_state RUNNING = ''running''"
| "usage_state ZOMBIE = ''zombie''"

abbreviation tab :: string where "tab \<equiv> [CHR 0x09]"

definition usage_title :: string where
  "usage_title = ''PID'' @ tab @ ''NAME'' @ tab @ ''STATE'' @ tab @ ''RUNTIME'' @ tab @ ''WAITTIME'' @ tab @
     ''SLEEPTIME'' @ tab @ ''CTXSW\<newline>''"

definition usage_line :: string where
  "usage_line = ''%d'' @ tab @ ''%s'' @ tab @ ''%s'' @ tab @ tab @ ''%lu'' @ tab @ ''%lu'' @ tab @ ''%lu'' @ tab @ ''%d\<newline>''"

definition sys_getrusage :: "'a proc_state_scheme \<Rightarrow> (uint64, 'a proc_state_scheme) kres" where
  "sys_getrusage s =
     kbind (printf usage_title [] s) (\<lambda>_ s.
     kbind (printf (replicate 64 CHR ''-'' @ ''\<newline>'') [] s) (\<lambda>_ s.
     kbind (kfor all_procs (\<lambda>p s.
       kbind (acquire (L_proc p) s) (\<lambda>_ s.
       kbind (if p_state (procs s p) \<noteq> UNUSED then
                printf usage_line
                  [PWord (of_cint (p_pid (procs s p))), PStr (Some (string_of_bytes (p_name (procs s p)))),
                   PStr (Some (usage_state (p_state (procs s p)))), PWord (p_cpu_ticks (procs s p)),
                   PWord (p_wait_ticks (procs s p)), PWord (p_sleep_ticks (procs s p)),
                   PWord (of_cint (p_context_switches (procs s p)))] s
              else Ret 0 s) (\<lambda>_ s.
       release (L_proc p) s))) s) (\<lambda>_ s.
     Ret 0 s)))"

section \<open>Pairs of open files on one inode\<close>

definition MAX_INODE_PAIRS :: nat where "MAX_INODE_PAIRS = 64"

record inode_pair =
  ipr_inum :: int
  ipr_dev :: int
  ipr_offset_a :: int
  ipr_offset_b :: int
  ipr_pid_a :: int
  ipr_fd_a :: int
  ipr_pid_b :: int
  ipr_fd_b :: int

text \<open>The last process and descriptor found for file \<open>f\<close>, both -1 at first.\<close>

definition fd_of :: "nat \<Rightarrow> proc \<Rightarrow> int \<times> int \<Rightarrow> int \<times> int" where
  "fd_of f pr acc = fold (\<lambda>fd acc. if p_ofile pr fd = Some f then (p_pid pr, int fd) else acc) [0..<NOFILE] acc"

primrec find_fds ::
  "nat list \<Rightarrow> nat \<Rightarrow> nat \<Rightarrow> int \<times> int \<Rightarrow> int \<times> int \<Rightarrow> 'a proc_state_scheme \<Rightarrow>
    ((int \<times> int) \<times> (int \<times> int), 'a proc_state_scheme) kres" where
  "find_fds [] f g a b s = Ret (a, b) s"
| "find_fds (p # ps) f g a b s =
     kbind (acquire (L_proc p) s) (\<lambda>_ s.
     let (a, b) = (if p_state (procs s p) \<noteq> UNUSED then (fd_of f (procs s p) a, fd_of g (procs s p) b) else (a, b)) in
     kbind (release (L_proc p) s) (\<lambda>_ s.
     find_fds ps f g a b s))"

text \<open>\<^verbatim>\<open>f->ref <= 0 || f->ip == 0\<close>\<close>

definition skip_file :: "ofile \<Rightarrow> bool" where
  "skip_file f \<longleftrightarrow> f_ref f \<le> 0 \<or> f_ip f = None"

definition pair_entry :: "nat \<Rightarrow> nat \<Rightarrow> nat \<Rightarrow> (int \<times> int) \<times> (int \<times> int) \<Rightarrow> 'a file_state_scheme \<Rightarrow> inode_pair" where
  "pair_entry i j ip ab s =
     \<lparr>ipr_inum = sint (i_inum (inodes s ip)), ipr_dev = sint (i_dev (inodes s ip)),
      ipr_offset_a = sint (f_off (files s i)), ipr_offset_b = sint (f_off (files s j)),
      ipr_pid_a = fst (fst ab), ipr_fd_a = snd (fst ab), ipr_pid_b = fst (snd ab), ipr_fd_b = snd (snd ab)\<rparr>"

text \<open>The inner loop for file \<open>i\<close> over the remaining \<open>j\<close>, with the pairs found so far.\<close>

primrec inodepairs_inner ::
  "nat list \<Rightarrow> nat \<Rightarrow> inode_pair list \<Rightarrow> 'a file_state_scheme \<Rightarrow> (inode_pair list, 'a file_state_scheme) kres" where
  "inodepairs_inner [] i acc s = Ret acc s"
| "inodepairs_inner (j # js) i acc s =
     (if skip_file (files s j) then inodepairs_inner js i acc s
      else if f_ip (files s i) \<noteq> f_ip (files s j) then inodepairs_inner js i acc s
      else if length acc \<ge> MAX_INODE_PAIRS then Ret acc s
      else kbind (release L_ftable s) (\<lambda>_ s.
        kbind (find_fds all_procs i j (- 1, - 1) (- 1, - 1) s) (\<lambda>ab s.
        kbind (acquire L_ftable s) (\<lambda>_ s.
        if f_ref (files s i) \<le> 0 \<or> f_ref (files s j) \<le> 0 \<or> f_ip (files s i) \<noteq> f_ip (files s j)
        then inodepairs_inner js i acc s
        else case f_ip (files s i) of
          None \<Rightarrow> Undef
        | Some ip \<Rightarrow> inodepairs_inner js i (acc @ [pair_entry i j ip ab s]) s))))"

primrec inodepairs_outer ::
  "nat list \<Rightarrow> inode_pair list \<Rightarrow> 'a file_state_scheme \<Rightarrow> (inode_pair list, 'a file_state_scheme) kres" where
  "inodepairs_outer [] acc s = Ret acc s"
| "inodepairs_outer (i # is) acc s =
     (if skip_file (files s i) then inodepairs_outer is acc s
      else kbind (inodepairs_inner [i + 1..<NFILE] i acc s) (\<lambda>acc s.
        inodepairs_outer is acc s))"

abbreviation int_bytes :: "int \<Rightarrow> uchar list" where
  "int_bytes i \<equiv> le_bytes 4 (word_of_int i :: uint32)"

definition pair_bytes :: "inode_pair \<Rightarrow> uchar list" where
  "pair_bytes r = int_bytes (ipr_inum r) @ int_bytes (ipr_dev r) @ int_bytes (ipr_offset_a r) @ int_bytes (ipr_offset_b r) @
     int_bytes (ipr_pid_a r) @ int_bytes (ipr_fd_a r) @ int_bytes (ipr_pid_b r) @ int_bytes (ipr_fd_b r)"

text \<open>
  The bytes of the local \<^verbatim>\<open>out\<close>.  Entries past the last pair are not written; \<open>junk\<close> is what the
  kernel stack held in their place.
\<close>

definition pairs_bytes :: "uchar list \<Rightarrow> inode_pair list \<Rightarrow> uchar list" where
  "pairs_bytes junk ps =
     int_bytes (int (length ps)) @ concat (map pair_bytes ps) @ drop (32 * length ps) junk"

definition sys_inodepairs :: "uchar list \<Rightarrow> 'a file_state_scheme \<Rightarrow> (uint64, 'a file_state_scheme) kres" where
  "sys_inodepairs junk s =
     kbind (argaddr 0 s) (\<lambda>uout s.
     kbind (acquire L_ftable s) (\<lambda>_ s.
     kbind (inodepairs_outer [0..<NFILE] [] s) (\<lambda>ps s.
     kbind (release L_ftable s) (\<lambda>_ s.
     with_myproc (\<lambda>p s.
       kbind (copyout (p_pagetable (procs s p)) uout (pairs_bytes junk ps) s) (\<lambda>r s.
       if r < 0 then Ret (- 1) s else Ret 0 s)) s))))"

end
