(* ===== verification/Sysfile.thy ===== *)
theory Sysfile
  imports Sysproc
begin

text \<open>
  The file system calls (\<^verbatim>\<open>kernel/sysfile.c\<close>), with the limit on open files this kernel adds to
  \<^verbatim>\<open>sys_open\<close>.  Strings fetched from user memory are given by their bytes before the NUL.
\<close>

unbundle bit_operations_syntax

section \<open>Descriptors\<close>

definition argfd :: "int \<Rightarrow> 'a proc_state_scheme \<Rightarrow> ((int \<times> nat) option, 'a proc_state_scheme) kres" where
  "argfd n s =
     kbind (argint n s) (\<lambda>fd s.
     if fd < 0 \<or> fd \<ge> int NOFILE then Ret None s
     else with_myproc (\<lambda>p s.
       case p_ofile (procs s p) (nat fd) of
         None \<Rightarrow> Ret None s
       | Some f \<Rightarrow> Ret (Some (fd, f)) s) s)"

definition fdalloc :: "nat \<Rightarrow> 'a proc_state_scheme \<Rightarrow> (int, 'a proc_state_scheme) kres" where
  "fdalloc f s =
     with_myproc (\<lambda>p s.
       case find (\<lambda>fd. p_ofile (procs s p) fd = None) [0..<nat (p_nofile_cur (procs s p))] of
         Some fd \<Rightarrow> Ret (int fd) (upd_proc p (p_ofile_update (\<lambda>ofs. ofs(fd := Some f))) s)
       | None \<Rightarrow> Ret (- 1) s) s"

text \<open>A system call that fails with -1 unless its first argument is an open descriptor.\<close>

definition with_fd ::
  "(int \<Rightarrow> nat \<Rightarrow> 'a proc_state_scheme \<Rightarrow> (uint64, 'a proc_state_scheme) kres) \<Rightarrow> 'a proc_state_scheme \<Rightarrow>
    (uint64, 'a proc_state_scheme) kres" where
  "with_fd k s = kbind (argfd 0 s) (\<lambda>r s. case r of None \<Rightarrow> Ret (- 1) s | Some (fd, f) \<Rightarrow> k fd f s)"

definition sys_dup :: "'a file_state_scheme \<Rightarrow> (uint64, 'a file_state_scheme) kres" where
  "sys_dup s =
     with_fd (\<lambda>_ f s.
       kbind (fdalloc f s) (\<lambda>fd s.
       if fd < 0 then Ret (- 1) s
       else kbind (filedup f s) (\<lambda>_ s. Ret (of_cint fd) s))) s"

definition sys_read :: "'a file_state_scheme \<Rightarrow> (uint64, 'a file_state_scheme) kres" where
  "sys_read s =
     kbind (argaddr 1 s) (\<lambda>p s.
     kbind (argint 2 s) (\<lambda>n s.
     with_fd (\<lambda>_ f s. ret64 (fileread f p n s)) s))"

definition sys_write :: "'a file_state_scheme \<Rightarrow> (uint64, 'a file_state_scheme) kres" where
  "sys_write s =
     kbind (argaddr 1 s) (\<lambda>p s.
     kbind (argint 2 s) (\<lambda>n s.
     with_fd (\<lambda>_ f s. ret64 (filewrite f p n s)) s))"

definition sys_close :: "'a file_state_scheme \<Rightarrow> (uint64, 'a file_state_scheme) kres" where
  "sys_close s =
     with_fd (\<lambda>fd f s.
       with_myproc (\<lambda>p s.
         let s = upd_proc p (p_ofile_update (\<lambda>ofs. ofs(nat fd := None))) s in
         kbind (fileclose f s) (\<lambda>_ s.
         Ret 0 s)) s) s"

definition sys_fstat :: "uchar list \<Rightarrow> 'a file_state_scheme \<Rightarrow> (uint64, 'a file_state_scheme) kres" where
  "sys_fstat pad s =
     kbind (argaddr 1 s) (\<lambda>st s.
     with_fd (\<lambda>_ f s. ret64 (filestat pad f st s)) s)"

section \<open>Links\<close>

text \<open>\<^verbatim>\<open>end_op(); return -1\<close>, alone and after \<^verbatim>\<open>iunlockput(ip)\<close>.\<close>

definition fail_op :: "'a log_state_scheme \<Rightarrow> (uint64, 'a log_state_scheme) kres" where
  "fail_op s = kbind (end_op s) (\<lambda>_ s. Ret (- 1) s)"

definition put_fail_op :: "nat \<Rightarrow> 'a fs_state_scheme \<Rightarrow> (uint64, 'a fs_state_scheme) kres" where
  "put_fail_op ip s = kbind (iunlockput ip s) (\<lambda>_ s. fail_op s)"

definition link_bad :: "nat \<Rightarrow> 'a fs_state_scheme \<Rightarrow> (uint64, 'a fs_state_scheme) kres" where
  "link_bad ip s =
     kbind (ilock (Some ip) s) (\<lambda>_ s.
     let s = upd_inode ip (i_nlink_update (\<lambda>n. n - 1)) s in
     kbind (iupdate ip s) (\<lambda>_ s.
     put_fail_op ip s))"

definition sys_link :: "'a fs_state_scheme \<Rightarrow> (uint64, 'a fs_state_scheme) kres" where
  "sys_link s =
     kbind (argstr 0 MAXPATH s) (\<lambda>old s.
     case old of None \<Rightarrow> Ret (- 1) s
     | Some old \<Rightarrow>
       kbind (argstr 1 MAXPATH s) (\<lambda>new s.
       case new of None \<Rightarrow> Ret (- 1) s
       | Some new \<Rightarrow>
         kbind (begin_op s) (\<lambda>_ s.
         kbind (namei old s) (\<lambda>ipo s.
         case ipo of None \<Rightarrow> fail_op s
         | Some ip \<Rightarrow>
           kbind (ilock (Some ip) s) (\<lambda>_ s.
           if i_type (inodes s ip) = T_DIR then put_fail_op ip s
           else
             let s = upd_inode ip (i_nlink_update (\<lambda>n. n + 1)) s in
             kbind (iupdate ip s) (\<lambda>_ s.
             kbind (iunlock (Some ip) s) (\<lambda>_ s.
             kbind (nameiparent new s) (\<lambda>(dpo, name) s.
             case dpo of None \<Rightarrow> link_bad ip s
             | Some dp \<Rightarrow>
               kbind (ilock (Some dp) s) (\<lambda>_ s.
               kbind (if i_dev (inodes s dp) \<noteq> i_dev (inodes s ip) then Ret (- 1) s
                      else dirlink dp name (i_inum (inodes s ip)) s) (\<lambda>r s.
               kbind (iunlockput dp s) (\<lambda>_ s.
               if r < 0 then link_bad ip s
               else kbind (iput ip s) (\<lambda>_ s.
                 kbind (end_op s) (\<lambda>_ s.
                 Ret 0 s)))))))))))))"

text \<open>\<^verbatim>\<open>isdirempty\<close>: whether no entry after \<^verbatim>\<open>.\<close> and \<^verbatim>\<open>..\<close> is in use.\<close>

definition isdirempty :: "nat \<Rightarrow> 'a fs_state_scheme \<Rightarrow> (bool, 'a fs_state_scheme) kres" where
  "isdirempty dp s =
     kbind (kfind (drop 2 (de_offs (i_size (inodes s dp)))) (\<lambda>off s.
       kbind (readi dp (Local []) (of_nat off) 16 s) (\<lambda>(r, de) s.
       if r \<noteq> 16 then Panic ''isdirempty: readi''
       else if de_inum de \<noteq> 0 then Ret (Some ()) s
       else Ret None s)) s) (\<lambda>r s.
     Ret (r = None) s)"

definition dot :: "uchar list" where "dot = [46]"
definition dotdot :: "uchar list" where "dotdot = [46, 46]"

definition sys_unlink :: "'a fs_state_scheme \<Rightarrow> (uint64, 'a fs_state_scheme) kres" where
  "sys_unlink s =
     kbind (argstr 0 MAXPATH s) (\<lambda>path s.
     case path of None \<Rightarrow> Ret (- 1) s
     | Some path \<Rightarrow>
       kbind (begin_op s) (\<lambda>_ s.
       kbind (nameiparent path s) (\<lambda>(dpo, name) s.
       case dpo of None \<Rightarrow> fail_op s
       | Some dp \<Rightarrow>
         kbind (ilock (Some dp) s) (\<lambda>_ s.
         if namecmp name dot = 0 \<or> namecmp name dotdot = 0 then put_fail_op dp s
         else kbind (dirlookup dp name s) (\<lambda>r s.
           case r of None \<Rightarrow> put_fail_op dp s
           | Some (ip, off) \<Rightarrow>
             kbind (ilock (Some ip) s) (\<lambda>_ s.
             if sint (i_nlink (inodes s ip)) < 1 then Panic ''unlink: nlink < 1''
             else kbind (if i_type (inodes s ip) = T_DIR then isdirempty ip s else Ret True s) (\<lambda>ok s.
               if \<not> ok then kbind (iunlockput ip s) (\<lambda>_ s. put_fail_op dp s)
               else kbind (writei dp (Local (replicate 16 0)) off 16 s) (\<lambda>r s.
                 if r \<noteq> 16 then Panic ''unlink: writei''
                 else kbind (if i_type (inodes s ip) = T_DIR then
                          let s = upd_inode dp (i_nlink_update (\<lambda>n. n - 1)) s in iupdate dp s
                        else Ret () s) (\<lambda>_ s.
                   kbind (iunlockput dp s) (\<lambda>_ s.
                   let s = upd_inode ip (i_nlink_update (\<lambda>n. n - 1)) s in
                   kbind (iupdate ip s) (\<lambda>_ s.
                   kbind (iunlockput ip s) (\<lambda>_ s.
                   kbind (end_op s) (\<lambda>_ s.
                   Ret 0 s)))))))))))))"

section \<open>Creating and opening\<close>

definition create_fail :: "nat \<Rightarrow> nat \<Rightarrow> 'a fs_state_scheme \<Rightarrow> (nat option, 'a fs_state_scheme) kres" where
  "create_fail ip dp s =
     (let s = upd_inode ip (i_nlink_update (\<lambda>_. 0)) s in
      kbind (iupdate ip s) (\<lambda>_ s.
      kbind (iunlockput ip s) (\<lambda>_ s.
      kbind (iunlockput dp s) (\<lambda>_ s.
      Ret None s))))"

definition create_dots :: "nat \<Rightarrow> nat \<Rightarrow> 'a fs_state_scheme \<Rightarrow> (int, 'a fs_state_scheme) kres" where
  "create_dots ip dp s =
     kbind (dirlink ip dot (i_inum (inodes s ip)) s) (\<lambda>r s.
     if r < 0 then Ret (- 1) s
     else dirlink ip dotdot (i_inum (inodes s dp)) s)"

definition create ::
  "uchar list \<Rightarrow> ushort \<Rightarrow> ushort \<Rightarrow> ushort \<Rightarrow> 'a fs_state_scheme \<Rightarrow> (nat option, 'a fs_state_scheme) kres" where
  "create path type major minor s =
     kbind (nameiparent path s) (\<lambda>(dpo, name) s.
     case dpo of None \<Rightarrow> Ret None s
     | Some dp \<Rightarrow>
       kbind (ilock (Some dp) s) (\<lambda>_ s.
       kbind (dirlookup dp name s) (\<lambda>r s.
       case r of
         Some (ip, _) \<Rightarrow>
           kbind (iunlockput dp s) (\<lambda>_ s.
           kbind (ilock (Some ip) s) (\<lambda>_ s.
           if type = T_FILE \<and> (i_type (inodes s ip) = T_FILE \<or> i_type (inodes s ip) = T_DEVICE) then Ret (Some ip) s
           else kbind (iunlockput ip s) (\<lambda>_ s. Ret None s)))
       | None \<Rightarrow>
           kbind (ialloc (i_dev (inodes s dp)) type s) (\<lambda>ipo s.
           case ipo of None \<Rightarrow> kbind (iunlockput dp s) (\<lambda>_ s. Ret None s)
           | Some ip \<Rightarrow>
             kbind (ilock (Some ip) s) (\<lambda>_ s.
             let s = upd_inode ip (\<lambda>n. n\<lparr>i_major := major, i_minor := minor, i_nlink := 1\<rparr>) s in
             kbind (iupdate ip s) (\<lambda>_ s.
             kbind (if type = T_DIR then create_dots ip dp s else Ret 0 s) (\<lambda>r s.
             if r < 0 then create_fail ip dp s
             else kbind (dirlink dp name (i_inum (inodes s ip)) s) (\<lambda>r s.
               if r < 0 then create_fail ip dp s
               else kbind (if type = T_DIR then
                        let s = upd_inode dp (i_nlink_update (\<lambda>n. n + 1)) s in iupdate dp s
                      else Ret () s) (\<lambda>_ s.
                 kbind (iunlockput dp s) (\<lambda>_ s.
                 Ret (Some ip) s))))))))))"

definition O_WRONLY :: uint32 where "O_WRONLY = 1"
definition O_RDWR :: uint32 where "O_RDWR = 2"
definition O_CREATE :: uint32 where "O_CREATE = 0x200"
definition O_TRUNC :: uint32 where "O_TRUNC = 0x400"

abbreviation has_flag :: "int \<Rightarrow> uint32 \<Rightarrow> bool" where
  "has_flag omode fl \<equiv> word_of_int omode AND fl \<noteq> 0"

text \<open>The inode to open, locked; \<open>None\<close> if the call fails, with the transaction still open.\<close>

definition open_inode :: "uchar list \<Rightarrow> int \<Rightarrow> 'a fs_state_scheme \<Rightarrow> (nat option, 'a fs_state_scheme) kres" where
  "open_inode path omode s =
     (if has_flag omode O_CREATE then create path T_FILE 0 0 s
      else kbind (namei path s) (\<lambda>ipo s.
        case ipo of None \<Rightarrow> Ret None s
        | Some ip \<Rightarrow>
          kbind (ilock (Some ip) s) (\<lambda>_ s.
          if i_type (inodes s ip) = T_DIR \<and> omode \<noteq> 0 then kbind (iunlockput ip s) (\<lambda>_ s. Ret None s)
          else Ret (Some ip) s)))"

text \<open>The part of \<^verbatim>\<open>sys_open\<close> that sets up the file, its descriptor being \<open>fd\<close>.\<close>

definition open_file :: "int \<Rightarrow> nat \<Rightarrow> nat \<Rightarrow> int \<Rightarrow> 'a file_state_scheme \<Rightarrow> (uint64, 'a file_state_scheme) kres" where
  "open_file omode ip f fd s =
     (let s = (if i_type (inodes s ip) = T_DEVICE
               then upd_file f (\<lambda>fl. fl\<lparr>f_type := FD_DEVICE, f_major := i_major (inodes s ip)\<rparr>) s
               else upd_file f (\<lambda>fl. fl\<lparr>f_type := FD_INODE, f_off := 0\<rparr>) s);
          s = upd_file f (\<lambda>fl. fl\<lparr>f_ip := Some ip, f_readable := \<not> has_flag omode O_WRONLY,
                f_writable := has_flag omode O_WRONLY \<or> has_flag omode O_RDWR\<rparr>) s in
      kbind (if has_flag omode O_TRUNC \<and> i_type (inodes s ip) = T_FILE then itrunc ip s else Ret () s) (\<lambda>_ s.
      kbind (iunlock (Some ip) s) (\<lambda>_ s.
      kbind (end_op s) (\<lambda>_ s.
      Ret (of_cint fd) s))))"

definition sys_open :: "'a file_state_scheme \<Rightarrow> (uint64, 'a file_state_scheme) kres" where
  "sys_open s =
     with_myproc (\<lambda>p s.
     if get_proc_open_files p s \<ge> p_nofile_max (procs s p) then
       refuse ''open: process file limit reached (%d)\<newline>'' [PWord (of_cint (p_nofile_max (procs s p)))] s
     else kbind (argint 1 s) (\<lambda>omode s.
       kbind (argstr 0 MAXPATH s) (\<lambda>path s.
       case path of None \<Rightarrow> Ret (- 1) s
       | Some path \<Rightarrow>
         kbind (begin_op s) (\<lambda>_ s.
         kbind (open_inode path omode s) (\<lambda>ipo s.
         case ipo of None \<Rightarrow> fail_op s
         | Some ip \<Rightarrow>
           if i_type (inodes s ip) = T_DEVICE \<and>
              (sint (i_major (inodes s ip)) < 0 \<or> sint (i_major (inodes s ip)) \<ge> NDEV) then put_fail_op ip s
           else kbind (filealloc s) (\<lambda>fo s.
             case fo of None \<Rightarrow> put_fail_op ip s
             | Some f \<Rightarrow>
               kbind (fdalloc f s) (\<lambda>fd s.
               if fd < 0 then kbind (fileclose f s) (\<lambda>_ s. put_fail_op ip s)
               else open_file omode ip f fd s))))))) s"

text \<open>\<^verbatim>\<open>argstr\<close> and \<^verbatim>\<open>create\<close> together; \<open>None\<close> if either fails.\<close>

definition create_arg :: "ushort \<Rightarrow> ushort \<Rightarrow> ushort \<Rightarrow> 'a fs_state_scheme \<Rightarrow> (uint64, 'a fs_state_scheme) kres" where
  "create_arg type major minor s =
     kbind (argstr 0 MAXPATH s) (\<lambda>path s.
     kbind (case path of None \<Rightarrow> Ret None s | Some path \<Rightarrow> create path type major minor s) (\<lambda>ipo s.
     case ipo of None \<Rightarrow> fail_op s
     | Some ip \<Rightarrow>
       kbind (iunlockput ip s) (\<lambda>_ s.
       kbind (end_op s) (\<lambda>_ s.
       Ret 0 s))))"

definition sys_mkdir :: "'a fs_state_scheme \<Rightarrow> (uint64, 'a fs_state_scheme) kres" where
  "sys_mkdir s = kbind (begin_op s) (\<lambda>_ s. create_arg T_DIR 0 0 s)"

definition sys_mknod :: "'a fs_state_scheme \<Rightarrow> (uint64, 'a fs_state_scheme) kres" where
  "sys_mknod s =
     kbind (begin_op s) (\<lambda>_ s.
     kbind (argint 1 s) (\<lambda>major s.
     kbind (argint 2 s) (\<lambda>minor s.
     create_arg T_DEVICE (word_of_int major) (word_of_int minor) s)))"

definition sys_chdir :: "'a fs_state_scheme \<Rightarrow> (uint64, 'a fs_state_scheme) kres" where
  "sys_chdir s =
     with_myproc (\<lambda>p s.
     kbind (begin_op s) (\<lambda>_ s.
     kbind (argstr 0 MAXPATH s) (\<lambda>path s.
     kbind (case path of None \<Rightarrow> Ret None s | Some path \<Rightarrow> namei path s) (\<lambda>ipo s.
     case ipo of None \<Rightarrow> fail_op s
     | Some ip \<Rightarrow>
       kbind (ilock (Some ip) s) (\<lambda>_ s.
       if i_type (inodes s ip) \<noteq> T_DIR then put_fail_op ip s
       else kbind (iunlock (Some ip) s) (\<lambda>_ s.
         kbind (case p_cwd (procs s p) of None \<Rightarrow> Undef | Some cwd \<Rightarrow> iput cwd s) (\<lambda>_ s.
         kbind (end_op s) (\<lambda>_ s.
         Ret 0 (upd_proc p (p_cwd_update (\<lambda>_. Some ip)) s))))))))) s"

section \<open>exec and pipe\<close>

text \<open>
  The loop of \<^verbatim>\<open>sys_exec\<close> with \<open>k\<close> slots of \<^verbatim>\<open>argv\<close> left: whether it met the null pointer, and
  the pages allocated with the strings fetched into them.
\<close>

primrec exec_argv ::
  "nat \<Rightarrow> uint64 \<Rightarrow> (uint64 \<times> uchar list) list \<Rightarrow> 'a proc_state_scheme \<Rightarrow>
    (bool \<times> (uint64 \<times> uchar list) list, 'a proc_state_scheme) kres" where
  "exec_argv 0 uargv acc s = Ret (False, acc) s"
| "exec_argv (Suc k) uargv acc s =
     kbind (fetchaddr (uargv + 8 * of_nat (length acc)) s) (\<lambda>uarg s.
     case uarg of None \<Rightarrow> Ret (False, acc) s
     | Some uarg \<Rightarrow>
       if uarg = 0 then Ret (True, acc) s
       else kbind (kalloc s) (\<lambda>pg s.
         if pg = 0 then Ret (False, acc) s
         else kbind (fetchstr uarg 4096 s) (\<lambda>str s.
           case str of None \<Rightarrow> Ret (False, acc @ [(pg, [])]) s
           | Some str \<Rightarrow>
             let s = s\<lparr>mem := write_bytes (mem s) pg (str @ [0])\<rparr> in
             exec_argv k uargv (acc @ [(pg, str)]) s)))"

definition free_argv :: "(uint64 \<times> uchar list) list \<Rightarrow> 'a kmem_state_scheme \<Rightarrow> (unit, 'a kmem_state_scheme) kres" where
  "free_argv acc s = kfor acc (\<lambda>(pg, _) s. kfree pg s) s"

definition sys_exec :: "'a fs_state_scheme \<Rightarrow> (uint64, 'a fs_state_scheme) kres" where
  "sys_exec s =
     kbind (argaddr 1 s) (\<lambda>uargv s.
     kbind (argstr 0 MAXPATH s) (\<lambda>path s.
     case path of None \<Rightarrow> Ret (- 1) s
     | Some path \<Rightarrow>
       kbind (exec_argv MAXARG uargv [] s) (\<lambda>(ok, argv) s.
       if \<not> ok then kbind (free_argv argv s) (\<lambda>_ s. Ret (- 1) s)
       else kbind (kexec path (map snd argv) s) (\<lambda>ret s.
         kbind (free_argv argv s) (\<lambda>_ s.
         Ret (of_cint ret) s)))))"

definition clear_fd :: "nat \<Rightarrow> int \<Rightarrow> 'a proc_state_scheme \<Rightarrow> 'a proc_state_scheme" where
  "clear_fd p fd s = upd_proc p (p_ofile_update (\<lambda>ofs. ofs(nat fd := None))) s"

definition close_both :: "nat \<Rightarrow> nat \<Rightarrow> 'a file_state_scheme \<Rightarrow> (uint64, 'a file_state_scheme) kres" where
  "close_both rf wfl s =
     kbind (fileclose rf s) (\<lambda>_ s.
     kbind (fileclose wfl s) (\<lambda>_ s.
     Ret (- 1) s))"

definition sys_pipe :: "'a file_state_scheme \<Rightarrow> (uint64, 'a file_state_scheme) kres" where
  "sys_pipe s =
     with_myproc (\<lambda>p s.
     kbind (argaddr 0 s) (\<lambda>fdarray s.
     kbind (pipealloc s) (\<lambda>r s.
     case r of None \<Rightarrow> Ret (- 1) s
     | Some (rf, wfl) \<Rightarrow>
       kbind (fdalloc rf s) (\<lambda>fd0 s.
       if fd0 < 0 then close_both rf wfl s
       else kbind (fdalloc wfl s) (\<lambda>fd1 s.
         if fd1 < 0 then close_both rf wfl (clear_fd p fd0 s)
         else kbind (copyout (p_pagetable (procs s p)) fdarray (int_bytes fd0) s) (\<lambda>r s.
           kbind (if r < 0 then Ret r s
                  else copyout (p_pagetable (procs s p)) (fdarray + 4) (int_bytes fd1) s) (\<lambda>r s.
           if r < 0 then close_both rf wfl (clear_fd p fd1 (clear_fd p fd0 s))
           else Ret 0 s))))))) s"

end
