(* ===== verification/Syscall.thy ===== *)
theory Syscall
  imports Sysfile
begin

text \<open>
  The system call dispatcher (\<^verbatim>\<open>syscall\<close> of \<^verbatim>\<open>kernel/syscall.c\<close>, with the numbers of
  \<^verbatim>\<open>kernel/syscall.h\<close>).  \<open>pad\<close> and \<open>junk\<close> are the bytes of kernel stack that \<^verbatim>\<open>sys_fstat\<close> and
  \<^verbatim>\<open>sys_inodepairs\<close> copy out without having written them.
\<close>

definition syscalls ::
  "uchar list \<Rightarrow> uchar list \<Rightarrow> (int \<times> ('a file_state_scheme \<Rightarrow> (uint64, 'a file_state_scheme) kres)) list" where
  "syscalls pad junk =
     [(1, sys_fork), (2, sys_exit), (3, sys_wait), (4, sys_pipe), (5, sys_read), (6, sys_kill),
      (7, sys_exec), (8, sys_fstat pad), (9, sys_chdir), (10, sys_dup), (11, sys_getpid),
      (12, sys_sbrk), (13, sys_pause), (14, sys_uptime), (15, sys_open), (16, sys_write),
      (17, sys_mknod), (18, sys_unlink), (19, sys_link), (20, sys_mkdir), (21, sys_close),
      (22, sys_meminfo), (23, sys_getrlimit), (24, sys_setrlimit), (25, sys_getrusage),
      (26, sys_inodepairs junk)]"

definition syscall :: "uchar list \<Rightarrow> uchar list \<Rightarrow> 'a file_state_scheme \<Rightarrow> (unit, 'a file_state_scheme) kres" where
  "syscall pad junk s =
     with_myproc (\<lambda>p s.
       let num = to_int (tf_get p TF_a7 s) in
       case map_of (syscalls pad junk) num of
         Some f \<Rightarrow> kbind (f s) (\<lambda>r s. Ret () (tf_set p TF_a0 r s))
       | None \<Rightarrow>
           kbind (printf ''%d %s: unknown sys call %d\<newline>''
                    [PWord (of_cint (p_pid (procs s p))), PStr (Some (string_of_bytes (p_name (procs s p)))),
                     PWord (of_cint num)] s) (\<lambda>_ s.
           Ret () (tf_set p TF_a0 (- 1) s))) s"

end
