(* ===== verification/Virtio.thy ===== *)
theory Virtio
  imports File
begin

text \<open>
  The driver of the virtio disk (\<^verbatim>\<open>kernel/virtio_disk.c\<close>, \<^verbatim>\<open>kernel/virtio.h\<close>).  The three pages of
  the queue are kept as typed tables: an address the driver gives to the device is a value of
  \<open>dma\<close> naming the object it points to.  The device is not code of the kernel: what a read of an
  MMIO register returns is a function of the writes so far, a field of the state that no
  operation changes, and what the device does with a request is a hypothesis of the theorems.
\<close>

unbundle bit_operations_syntax

section \<open>State\<close>

definition VNUM :: nat where "VNUM = 8"

datatype dma = Dnull | Dop nat | Ddata nat | Dstatus nat

record virtq_desc =
  vd_addr :: dma
  vd_len :: uint32
  vd_flags :: ushort
  vd_next :: ushort

record virtio_blk_req =
  req_type :: uint32
  req_reserved :: uint32
  req_sector :: uint64

definition VRING_DESC_F_NEXT :: ushort where "VRING_DESC_F_NEXT = 1"
definition VRING_DESC_F_WRITE :: ushort where "VRING_DESC_F_WRITE = 2"
definition VIRTIO_BLK_T_IN :: uint32 where "VIRTIO_BLK_T_IN = 0"
definition VIRTIO_BLK_T_OUT :: uint32 where "VIRTIO_BLK_T_OUT = 1"

record vd_state = file_state +
  vq_pages :: "uint64 \<times> uint64 \<times> uint64"
  vq_desc :: "nat \<Rightarrow> virtq_desc"
  avail_idx :: ushort
  avail_ring :: "nat \<Rightarrow> ushort"
  dev_used_idx :: ushort
  used_ring :: "nat \<Rightarrow> uint32"
  desc_free :: "nat \<Rightarrow> bool"
  used_idx :: ushort
  info_b :: "nat \<Rightarrow> nat option"
  info_status :: "nat \<Rightarrow> uchar"
  blk_ops :: "nat \<Rightarrow> virtio_blk_req"
  mmio_read :: "(uint32 \<times> uint32) list \<Rightarrow> uint32 \<Rightarrow> uint32"
  mmio_writes :: "(uint32 \<times> uint32) list"

definition read_R :: "uint32 \<Rightarrow> 'a vd_state_scheme \<Rightarrow> uint32" where
  "read_R r s = mmio_read s (mmio_writes s) r"

definition write_R :: "uint32 \<Rightarrow> uint32 \<Rightarrow> 'a vd_state_scheme \<Rightarrow> 'a vd_state_scheme" where
  "write_R r v s = s\<lparr>mmio_writes := mmio_writes s @ [(r, v)]\<rparr>"

section \<open>Initialisation\<close>

definition null_desc :: virtq_desc where
  "null_desc = \<lparr>vd_addr = Dnull, vd_len = 0, vd_flags = 0, vd_next = 0\<rparr>"

text \<open>The feature bits 5, 7, 11, 12, 27, 29 and 28 are turned off; the mask is a sign-extended int.\<close>

definition drop_features :: "uint32 \<Rightarrow> uint64" where
  "drop_features f = fold (\<lambda>k f. f AND NOT (push_bit k 1)) [5, 7, 11, 12, 27, 29, 28] (ucast f)"

definition hi32 :: "uint64 \<Rightarrow> uint32" where "hi32 a = ucast (drop_bit 32 a)"
definition lo32 :: "uint64 \<Rightarrow> uint32" where "lo32 a = ucast a"

text \<open>The part after the feature negotiation: the queue is allocated and handed to the device.\<close>

definition virtio_queue_init :: "uint32 \<Rightarrow> 'a vd_state_scheme \<Rightarrow> (unit, 'a vd_state_scheme) kres" where
  "virtio_queue_init status s =
     kbind (kalloc s) (\<lambda>desc s.
     kbind (kalloc s) (\<lambda>avail s.
     kbind (kalloc s) (\<lambda>used s.
     let s = s\<lparr>vq_pages := (desc, avail, used)\<rparr> in
     if desc = 0 \<or> avail = 0 \<or> used = 0 then Panic ''virtio disk kalloc''
     else
       let s = s\<lparr>mem := memset (mem s) desc 0 4096, vq_desc := (\<lambda>_. null_desc)\<rparr>;
           s = s\<lparr>mem := memset (mem s) avail 0 4096, avail_idx := 0, avail_ring := (\<lambda>_. 0)\<rparr>;
           s = s\<lparr>mem := memset (mem s) used 0 4096, dev_used_idx := 0, used_ring := (\<lambda>_. 0)\<rparr>;
           s = write_R 0x038 (of_nat VNUM) s;
           s = write_R 0x080 (lo32 desc) s;
           s = write_R 0x084 (hi32 desc) s;
           s = write_R 0x090 (lo32 avail) s;
           s = write_R 0x094 (hi32 avail) s;
           s = write_R 0x0a0 (lo32 used) s;
           s = write_R 0x0a4 (hi32 used) s;
           s = write_R 0x044 1 s;
           s = s\<lparr>desc_free := (\<lambda>i. if i < VNUM then True else desc_free s i)\<rparr>
       in Ret () (write_R 0x070 (status OR 4) s))))"

definition virtio_disk_init :: "'a vd_state_scheme \<Rightarrow> (unit, 'a vd_state_scheme) kres" where
  "virtio_disk_init s =
     (let s = initlock L_vdisk ''virtio_disk'' s in
      if read_R 0x000 s \<noteq> 0x74726976 \<or> read_R 0x004 s \<noteq> 2 \<or> read_R 0x008 s \<noteq> 2 \<or> read_R 0x00c s \<noteq> 0x554d4551
      then Panic ''could not find virtio disk''
      else
        let s = write_R 0x070 0 s;
            s = write_R 0x070 1 s;
            s = write_R 0x070 (1 OR 2) s;
            s = write_R 0x020 (lo32 (drop_features (read_R 0x010 s))) s;
            s = write_R 0x070 (1 OR 2 OR 8) s;
            status = read_R 0x070 s
        in if status AND 8 = 0 then Panic ''virtio disk FEATURES_OK unset''
        else
          let s = write_R 0x030 0 s in
          if read_R 0x044 s \<noteq> 0 then Panic ''virtio disk should not be ready''
          else if read_R 0x034 s = 0 then Panic ''virtio disk has no queue 0''
          else if read_R 0x034 s < of_nat VNUM then Panic ''virtio disk max queue too short''
          else virtio_queue_init status s)"

section \<open>Descriptors\<close>

definition alloc_desc :: "'a vd_state_scheme \<Rightarrow> nat option \<times> 'a vd_state_scheme" where
  "alloc_desc s =
     (case find (\<lambda>i. desc_free s i) [0..<VNUM] of
        Some i \<Rightarrow> (Some i, s\<lparr>desc_free := (desc_free s)(i := False)\<rparr>)
      | None \<Rightarrow> (None, s))"

definition free_desc :: "nat \<Rightarrow> 'a vd_state_scheme \<Rightarrow> (unit, 'a vd_state_scheme) kres" where
  "free_desc i s =
     (if i \<ge> VNUM then Panic ''free_desc 1''
      else if desc_free s i then Panic ''free_desc 2''
      else
        let s = s\<lparr>vq_desc := (vq_desc s)(i := null_desc), desc_free := (desc_free s)(i := True)\<rparr> in
        wakeup Chan_disk_free s)"

text \<open>
  The loop of \<^verbatim>\<open>free_chain\<close> with fuel: every round frees one of the \<open>VNUM\<close> descriptors or
  panics, so \<open>Suc VNUM\<close> rounds are enough.
\<close>

primrec free_chain_loop :: "nat \<Rightarrow> nat \<Rightarrow> 'a vd_state_scheme \<Rightarrow> (unit, 'a vd_state_scheme) kres" where
  "free_chain_loop 0 i s = Diverge"
| "free_chain_loop (Suc k) i s =
     (let fl = vd_flags (vq_desc s i); nxt = vd_next (vq_desc s i) in
      kbind (free_desc i s) (\<lambda>_ s.
      if fl AND VRING_DESC_F_NEXT \<noteq> 0 then free_chain_loop k (unat nxt) s else Ret () s))"

definition free_chain :: "nat \<Rightarrow> 'a vd_state_scheme \<Rightarrow> (unit, 'a vd_state_scheme) kres" where
  "free_chain i s = free_chain_loop (Suc VNUM) i s"

text \<open>\<^verbatim>\<open>alloc3_desc\<close>: three descriptors, or none if it has to give back those it got.\<close>

primrec alloc3_loop :: "nat \<Rightarrow> nat list \<Rightarrow> 'a vd_state_scheme \<Rightarrow> (nat list option, 'a vd_state_scheme) kres" where
  "alloc3_loop 0 idx s = Ret (Some idx) s"
| "alloc3_loop (Suc k) idx s =
     (case alloc_desc s of
        (Some i, s) \<Rightarrow> alloc3_loop k (idx @ [i]) s
      | (None, s) \<Rightarrow> kbind (kfor idx free_desc s) (\<lambda>_ s. Ret None s))"

definition alloc3_desc :: "'a vd_state_scheme \<Rightarrow> (nat list option, 'a vd_state_scheme) kres" where
  "alloc3_desc s = alloc3_loop 3 [] s"

section \<open>Transfers\<close>

definition set_desc :: "nat \<Rightarrow> virtq_desc \<Rightarrow> 'a vd_state_scheme \<Rightarrow> 'a vd_state_scheme" where
  "set_desc i d s = s\<lparr>vq_desc := (vq_desc s)(i := d)\<rparr>"

text \<open>Formatting the three descriptors and notifying the device.\<close>

definition virtio_rw_post ::
  "nat \<Rightarrow> bool \<Rightarrow> uint64 \<Rightarrow> nat \<Rightarrow> nat \<Rightarrow> nat \<Rightarrow> 'a vd_state_scheme \<Rightarrow> 'a vd_state_scheme" where
  "virtio_rw_post b write sector i0 i1 i2 s =
     (let s = s\<lparr>blk_ops := (blk_ops s)(i0 := \<lparr>req_type = (if write then VIRTIO_BLK_T_OUT else VIRTIO_BLK_T_IN),
                                            req_reserved = 0, req_sector = sector\<rparr>)\<rparr>;
          s = set_desc i0 \<lparr>vd_addr = Dop i0, vd_len = 16, vd_flags = VRING_DESC_F_NEXT, vd_next = of_nat i1\<rparr> s;
          s = set_desc i1 \<lparr>vd_addr = Ddata b, vd_len = of_nat BSIZE,
                           vd_flags = (if write then 0 else VRING_DESC_F_WRITE) OR VRING_DESC_F_NEXT,
                           vd_next = of_nat i2\<rparr> s;
          s = s\<lparr>info_status := (info_status s)(i0 := 0xff)\<rparr>;
          s = set_desc i2 \<lparr>vd_addr = Dstatus i0, vd_len = 1, vd_flags = VRING_DESC_F_WRITE, vd_next = 0\<rparr> s;
          s = upd_buf b (b_disk_update (\<lambda>_. 1)) s;
          s = s\<lparr>info_b := (info_b s)(i0 := Some b)\<rparr>;
          s = s\<lparr>avail_ring := (avail_ring s)(unat (avail_idx s) mod VNUM := of_nat i0)\<rparr>;
          s = s\<lparr>avail_idx := avail_idx s + 1\<rparr>
      in write_R 0x050 0 s)"

text \<open>The loop that waits for \<^verbatim>\<open>virtio_disk_intr\<close>, with what follows it.\<close>

definition virtio_rw_wait :: "nat \<Rightarrow> nat \<Rightarrow> 'a vd_state_scheme \<Rightarrow> (unit, 'a vd_state_scheme) kres" where
  "virtio_rw_wait b i0 s =
     (if b_disk (bufs s b) = 1 then sleep (Chan_buf b) L_vdisk s
      else
        let s = s\<lparr>info_b := (info_b s)(i0 := None)\<rparr> in
        kbind (free_chain i0 s) (\<lambda>_ s.
        release L_vdisk s))"

text \<open>The loop that allocates the descriptors, with what follows it.\<close>

definition virtio_rw_loop ::
  "nat \<Rightarrow> bool \<Rightarrow> uint64 \<Rightarrow> 'a vd_state_scheme \<Rightarrow> (unit, 'a vd_state_scheme) kres" where
  "virtio_rw_loop b write sector s =
     kbind (alloc3_desc s) (\<lambda>r s.
     case r of
       Some [i0, i1, i2] \<Rightarrow> virtio_rw_wait b i0 (virtio_rw_post b write sector i0 i1 i2 s)
     | _ \<Rightarrow> sleep Chan_disk_free L_vdisk s)"

definition virtio_disk_rw :: "nat \<Rightarrow> bool \<Rightarrow> 'a vd_state_scheme \<Rightarrow> (unit, 'a vd_state_scheme) kres" where
  "virtio_disk_rw b write s =
     (let sector = ucast (b_blockno (bufs s b) * of_nat (BSIZE div 512)) in
      kbind (acquire L_vdisk s) (\<lambda>_ s.
      virtio_rw_loop b write sector s))"

section \<open>Interrupts\<close>

text \<open>
  The loop of \<^verbatim>\<open>virtio_disk_intr\<close> over the entries the device has added to the used ring; \<open>k\<close> is
  \<open>used->idx - used_idx\<close>, the number of entries there when the loop starts; an entry the device
  adds during the loop is one for the next interrupt.
\<close>

primrec virtio_intr_loop :: "nat \<Rightarrow> 'a vd_state_scheme \<Rightarrow> (unit, 'a vd_state_scheme) kres" where
  "virtio_intr_loop 0 s = Ret () s"
| "virtio_intr_loop (Suc k) s =
     (let i = unat (used_ring s (unat (used_idx s) mod VNUM)) in
      if i \<ge> VNUM then Undef
      else if info_status s i \<noteq> 0 then Panic ''virtio_disk_intr status''
      else case info_b s i of
        None \<Rightarrow> Undef
      | Some b \<Rightarrow>
          let s = upd_buf b (b_disk_update (\<lambda>_. 0)) s in
          kbind (wakeup (Chan_buf b) s) (\<lambda>_ s.
          virtio_intr_loop k (s\<lparr>used_idx := used_idx s + 1\<rparr>)))"

definition virtio_disk_intr :: "'a vd_state_scheme \<Rightarrow> (unit, 'a vd_state_scheme) kres" where
  "virtio_disk_intr s =
     kbind (acquire L_vdisk s) (\<lambda>_ s.
     let s = write_R 0x064 (read_R 0x060 s AND 3) s in
     kbind (virtio_intr_loop (unat (dev_used_idx s - used_idx s)) s) (\<lambda>_ s.
     release L_vdisk s))"

end
