(* ===== verification/Trap.thy ===== *)
theory Trap
  imports Syscall Virtio
begin

text \<open>
  Traps and interrupts (\<^verbatim>\<open>kernel/trap.c\<close>, \<^verbatim>\<open>kernel/plic.c\<close>) and the first code of a new process
  (\<^verbatim>\<open>forkret\<close> of \<^verbatim>\<open>kernel/proc.c\<close>).  The supervisor registers of each hart are fields of the state;
  of \<^verbatim>\<open>sstatus\<close> the three bits the kernel uses: \<open>spp\<close> (previous mode was supervisor), \<open>spie\<close>, and
  \<^verbatim>\<open>SIE\<close>, which is \<open>sie\<close> of the CPU.  The interrupt controller is a device: a read of its registers is
  a function of the writes so far.
\<close>

unbundle bit_operations_syntax

section \<open>State\<close>

record csrs =
  stvec :: uint64
  sepc :: uint64
  scause :: uint64
  stval :: uint64
  spp :: bool
  spie :: bool
  stimecmp :: uint64

record trap_state = vd_state +
  csr :: "nat \<Rightarrow> csrs"
  time :: uint64
  plic_read :: "(uint64 \<times> uint32) list \<Rightarrow> uint64 \<Rightarrow> uint32"
  plic_writes :: "(uint64 \<times> uint32) list"
  first :: bool
  started :: bool
  sym_kernelvec :: uint64

definition my_csr :: "'a trap_state_scheme \<Rightarrow> csrs" where
  "my_csr s = csr s (cpuid s)"

definition upd_csr :: "(csrs \<Rightarrow> csrs) \<Rightarrow> 'a trap_state_scheme \<Rightarrow> 'a trap_state_scheme" where
  "upd_csr f s = s\<lparr>csr := (csr s)(cpuid s := f (csr s (cpuid s)))\<rparr>"

section \<open>The interrupt controller\<close>

definition UART0_IRQ :: int where "UART0_IRQ = 10"
definition VIRTIO0_IRQ :: int where "VIRTIO0_IRQ = 1"

definition PLIC_SENABLE :: "nat \<Rightarrow> uint64" where "PLIC_SENABLE hart = PLIC + 0x2080 + of_nat hart * 0x100"
definition PLIC_SPRIORITY :: "nat \<Rightarrow> uint64" where "PLIC_SPRIORITY hart = PLIC + 0x201000 + of_nat hart * 0x2000"
definition PLIC_SCLAIM :: "nat \<Rightarrow> uint64" where "PLIC_SCLAIM hart = PLIC + 0x201004 + of_nat hart * 0x2000"

definition plic_write :: "uint64 \<Rightarrow> uint32 \<Rightarrow> 'a trap_state_scheme \<Rightarrow> 'a trap_state_scheme" where
  "plic_write a v s = s\<lparr>plic_writes := plic_writes s @ [(a, v)]\<rparr>"

definition plicinit :: "'a trap_state_scheme \<Rightarrow> 'a trap_state_scheme" where
  "plicinit s =
     (let s = plic_write (PLIC + of_int UART0_IRQ * 4) 1 s
      in plic_write (PLIC + of_int VIRTIO0_IRQ * 4) 1 s)"

definition plicinithart :: "'a trap_state_scheme \<Rightarrow> 'a trap_state_scheme" where
  "plicinithart s =
     (let hart = cpuid s;
          s = plic_write (PLIC_SENABLE hart) (push_bit (nat UART0_IRQ) 1 OR push_bit (nat VIRTIO0_IRQ) 1) s
      in plic_write (PLIC_SPRIORITY hart) 0 s)"

definition plic_claim :: "'a trap_state_scheme \<Rightarrow> int" where
  "plic_claim s = sint (plic_read s (plic_writes s) (PLIC_SCLAIM (cpuid s)))"

definition plic_complete :: "int \<Rightarrow> 'a trap_state_scheme \<Rightarrow> 'a trap_state_scheme" where
  "plic_complete irq s = plic_write (PLIC_SCLAIM (cpuid s)) (word_of_int irq) s"

section \<open>Device interrupts\<close>

definition trapinit :: "'a trap_state_scheme \<Rightarrow> 'a trap_state_scheme" where
  "trapinit s = initlock L_ticks ''time'' s"

definition trapinithart :: "'a trap_state_scheme \<Rightarrow> 'a trap_state_scheme" where
  "trapinithart s = upd_csr (stvec_update (\<lambda>_. sym_kernelvec s)) s"

definition clockintr :: "'a trap_state_scheme \<Rightarrow> (unit, 'a trap_state_scheme) kres" where
  "clockintr s =
     kbind (if cpuid s = 0 then
              kbind (acquire L_ticks s) (\<lambda>_ s.
              let s = s\<lparr>ticks := ticks s + 1\<rparr> in
              kbind (wakeup Chan_ticks s) (\<lambda>_ s.
              release L_ticks s))
            else Ret () s) (\<lambda>_ s.
     Ret () (upd_csr (stimecmp_update (\<lambda>_. time s + 1000000)) s))"

definition devintr :: "'a trap_state_scheme \<Rightarrow> (int, 'a trap_state_scheme) kres" where
  "devintr s =
     (let scause = scause (my_csr s) in
      if scause = 0x8000000000000009 then
        let irq = plic_claim s in
        kbind (if irq = UART0_IRQ then uartintr s
               else if irq = VIRTIO0_IRQ then virtio_disk_intr s
               else if irq \<noteq> 0 then
                 kbind (printf ''unexpected interrupt irq=%d\<newline>'' [PWord (of_cint irq)] s) (\<lambda>_ s. Ret () s)
               else Ret () s) (\<lambda>_ s.
        Ret 1 (if irq \<noteq> 0 then plic_complete irq s else s))
      else if scause = 0x8000000000000005 then kbind (clockintr s) (\<lambda>_ s. Ret 2 s)
      else Ret 0 s)"

section \<open>Traps from user space\<close>

definition prepare_return :: "'a trap_state_scheme \<Rightarrow> (unit, 'a trap_state_scheme) kres" where
  "prepare_return s =
     with_myproc (\<lambda>p s.
       let s = intr_off s;
           s = upd_csr (stvec_update (\<lambda>_. TRAMPOLINE + (sym_uservec (syms s) - sym_trampoline (syms s)))) s;
           s = tf_set p TF_kernel_satp (satp s (cpuid s)) s;
           s = tf_set p TF_kernel_sp (p_kstack (procs s p) + PGSIZE) s;
           s = tf_set p TF_kernel_trap (sym_usertrap (syms s)) s;
           s = tf_set p TF_kernel_hartid (of_nat (tp s)) s;
           s = upd_csr (\<lambda>c. c\<lparr>spp := False, spie := True\<rparr>) s
       in Ret () (upd_csr (sepc_update (\<lambda>_. tf_get p TF_epc s)) s)) s"

text \<open>The end of \<^verbatim>\<open>usertrap\<close>, where a process that gave up the CPU goes on when it is resumed.\<close>

definition usertrap_return :: "nat \<Rightarrow> 'a trap_state_scheme \<Rightarrow> (uint64, 'a trap_state_scheme) kres" where
  "usertrap_return p s =
     kbind (prepare_return s) (\<lambda>_ s.
     Ret (MAKE_SATP (p_pagetable (procs s p))) s)"

text \<open>The accounting of a timer interrupt, with the limit on CPU ticks.\<close>

definition charge_tick :: "'a trap_state_scheme \<Rightarrow> (unit, 'a trap_state_scheme) kres" where
  "charge_tick s =
     kbind (myproc s) (\<lambda>lp s.
     case lp of
       None \<Rightarrow> Ret () s
     | Some p \<Rightarrow>
         if p_state (procs s p) = RUNNING then
           let s = upd_proc p (p_cpu_ticks_update (\<lambda>n. n + 1)) s; pr = procs s p in
           if p_cpu_ticks_max pr > 0 \<and> p_cpu_ticks pr \<ge> p_cpu_ticks_max pr then
             kbind (printf ''\<newline>[ALERT] PID %d killed: cpu limit(%d) reached!\<newline>''
                      [PWord (of_cint (p_pid pr)), PWord (of_cint (to_int (p_cpu_ticks_max pr)))] s) (\<lambda>_ s.
             Ret () (upd_proc p (p_killed_update (\<lambda>_. 1)) s))
           else Ret () s
         else Ret () s)"

text \<open>The three cases of \<^verbatim>\<open>usertrap\<close>; the value is \<^verbatim>\<open>which_dev\<close>.\<close>

definition usertrap_cause ::
  "uchar list \<Rightarrow> uchar list \<Rightarrow> nat \<Rightarrow> 'a trap_state_scheme \<Rightarrow> (int, 'a trap_state_scheme) kres" where
  "usertrap_cause pad junk p s =
     (if scause (my_csr s) = 8 then
        kbind (killed p s) (\<lambda>k s.
        kbind (if k \<noteq> 0 then kexit (- 1) s else Ret () s) (\<lambda>_ s.
        let s = tf_set p TF_epc (tf_get p TF_epc s + 4) s;
            s = intr_on s in
        kbind (syscall pad junk s) (\<lambda>_ s.
        Ret 0 s)))
      else kbind (devintr s) (\<lambda>which_dev s.
        if which_dev \<noteq> 0 then Ret which_dev s
        else
          kbind (if scause (my_csr s) = 15 \<or> scause (my_csr s) = 13
                 then vmfault (p_pagetable (procs s p)) (stval (my_csr s)) (scause (my_csr s) = 13) s
                 else Ret 0 s) (\<lambda>r s.
          if r \<noteq> 0 then Ret 0 s
          else
            kbind (printf ''usertrap(): unexpected scause 0x%lx pid=%d\<newline>''
                     [PWord (scause (my_csr s)), PWord (of_cint (p_pid (procs s p)))] s) (\<lambda>_ s.
            kbind (printf ''            sepc=0x%lx stval=0x%lx\<newline>''
                     [PWord (sepc (my_csr s)), PWord (stval (my_csr s))] s) (\<lambda>_ s.
            kbind (setkilled p s) (\<lambda>_ s.
            Ret 0 s))))))"

definition usertrap ::
  "uchar list \<Rightarrow> uchar list \<Rightarrow> 'a trap_state_scheme \<Rightarrow> (uint64, 'a trap_state_scheme) kres" where
  "usertrap pad junk s =
     (if spp (my_csr s) then Panic ''usertrap: not from user mode''
      else
        let s = upd_csr (stvec_update (\<lambda>_. sym_kernelvec s)) s in
        with_myproc (\<lambda>p s.
          let s = tf_set p TF_epc (sepc (my_csr s)) s in
          kbind (usertrap_cause pad junk p s) (\<lambda>which_dev s.
          kbind (killed p s) (\<lambda>k s.
          kbind (if k \<noteq> 0 then kexit (- 1) s else Ret () s) (\<lambda>_ s.
          kbind (if which_dev = 2 then kbind (charge_tick s) (\<lambda>_ s. yield s) else Ret () s) (\<lambda>_ s.
          usertrap_return p s))))) s)"

section \<open>Traps from the kernel\<close>

text \<open>The end of \<^verbatim>\<open>kerneltrap\<close>: the registers it saved on its stack are restored.\<close>

definition kerneltrap_return ::
  "uint64 \<Rightarrow> bool \<Rightarrow> bool \<Rightarrow> bool \<Rightarrow> 'a trap_state_scheme \<Rightarrow> (unit, 'a trap_state_scheme) kres" where
  "kerneltrap_return pc previous_s previous_ie ie s =
     (let s = upd_csr (sepc_update (\<lambda>_. pc)) s;
          s = upd_csr (\<lambda>c. c\<lparr>spp := previous_s, spie := previous_ie\<rparr>) s
      in Ret () (upd_mycpu (sie_update (\<lambda>_. ie)) s))"

definition kerneltrap :: "'a trap_state_scheme \<Rightarrow> (unit, 'a trap_state_scheme) kres" where
  "kerneltrap s =
     (let pc = sepc (my_csr s);
          previous_s = spp (my_csr s); previous_ie = spie (my_csr s); ie = intr_get s;
          cause = scause (my_csr s) in
      if \<not> previous_s then Panic ''kerneltrap: not from supervisor mode''
      else if intr_get s then Panic ''kerneltrap: interrupts enabled''
      else kbind (devintr s) (\<lambda>which_dev s.
        if which_dev = 0 then
          kbind (printf ''scause=0x%lx sepc=0x%lx stval=0x%lx\<newline>''
                   [PWord cause, PWord (sepc (my_csr s)), PWord (stval (my_csr s))] s) (\<lambda>_ s.
          Panic ''kerneltrap'')
        else
          kbind (if which_dev = 2 then
                   kbind (myproc s) (\<lambda>me s.
                   case me of
                     None \<Rightarrow> Ret () s
                   | Some p \<Rightarrow>
                       let s = upd_proc p (p_cpu_ticks_update (\<lambda>n. n + 1)) s in
                       yield s)
                 else Ret () s) (\<lambda>_ s.
          kerneltrap_return pc previous_s previous_ie ie s)))"

section \<open>The start of a process\<close>

text \<open>
  \<^verbatim>\<open>forkret\<close> up to the jump into \<^verbatim>\<open>userret\<close> of the trampoline, with the \<^verbatim>\<open>satp\<close> value it passes
  there and the address it calls.
\<close>

definition forkret :: "'a trap_state_scheme \<Rightarrow> (uint64 \<times> uint64, 'a trap_state_scheme) kres" where
  "forkret s =
     with_myproc (\<lambda>p s.
       kbind (release (L_proc p) s) (\<lambda>_ s.
       kbind (if first s then
                kbind (fsinit ROOTDEV s) (\<lambda>_ s.
                let s = s\<lparr>first := False\<rparr> in
                kbind (kexec (str_bytes ''/init'') [str_bytes ''/init''] s) (\<lambda>r s.
                let s = tf_set p TF_a0 (of_cint r) s in
                if tf_get p TF_a0 s = - 1 then Panic ''exec'' else Ret () s))
              else Ret () s) (\<lambda>_ s.
       kbind (prepare_return s) (\<lambda>_ s.
       Ret (MAKE_SATP (p_pagetable (procs s p)),
            TRAMPOLINE + (sym_userret (syms s) - sym_trampoline (syms s))) s)))) s"

end
