(* ===== verification/Boot.thy ===== *)
theory Boot
  imports Trap
begin

text \<open>
  Booting: the machine-mode start of a hart (\<^verbatim>\<open>kernel/start.c\<close>) and \<^verbatim>\<open>main\<close>
  (\<^verbatim>\<open>kernel/main.c\<close>), up to the call of \<^verbatim>\<open>scheduler\<close>.
\<close>

unbundle bit_operations_syntax

section \<open>Machine mode\<close>

record mcsrs =
  mstatus :: uint64
  mepc :: uint64
  m_satp :: uint64
  medeleg :: uint64
  mideleg :: uint64
  sie_reg :: uint64
  pmpaddr0 :: uint64
  pmpcfg0 :: uint64
  mie :: uint64
  menvcfg :: uint64
  mcounteren :: uint64
  m_stimecmp :: uint64
  m_time :: uint64
  mhartid :: uint64
  m_tp :: uint64

definition timerinit :: "mcsrs \<Rightarrow> mcsrs" where
  "timerinit c =
     (let c = c\<lparr>mie := mie c OR push_bit 5 1\<rparr>;
          c = c\<lparr>menvcfg := menvcfg c OR push_bit 63 1\<rparr>;
          c = c\<lparr>mcounteren := mcounteren c OR 2\<rparr>
      in c\<lparr>m_stimecmp := m_time c + 1000000\<rparr>)"

text \<open>\<^verbatim>\<open>start\<close> up to \<^verbatim>\<open>mret\<close>, for the address \<open>sym_main\<close> of \<^verbatim>\<open>main\<close>.\<close>

definition start :: "uint64 \<Rightarrow> mcsrs \<Rightarrow> mcsrs" where
  "start sym_main c =
     (let x = mstatus c;
          x = x AND NOT (push_bit 11 3);
          x = x OR push_bit 11 1;
          c = c\<lparr>mstatus := x\<rparr>;
          c = c\<lparr>mepc := sym_main\<rparr>;
          c = c\<lparr>m_satp := 0\<rparr>;
          c = c\<lparr>medeleg := 0xffff\<rparr>;
          c = c\<lparr>mideleg := 0xffff\<rparr>;
          c = c\<lparr>sie_reg := sie_reg c OR push_bit 9 1 OR push_bit 5 1\<rparr>;
          c = c\<lparr>pmpaddr0 := 0x3fffffffffffff\<rparr>;
          c = c\<lparr>pmpcfg0 := 0xf\<rparr>;
          c = timerinit c
      in c\<lparr>m_tp := of_int (to_int (mhartid c))\<rparr>)"

section \<open>main\<close>

definition main_hart0 :: "'a trap_state_scheme \<Rightarrow> (unit, 'a trap_state_scheme) kres" where
  "main_hart0 s =
     (let s = consoleinit s;
          s = printfinit s in
      kbind (printf ''\<newline>'' [] s) (\<lambda>_ s.
      kbind (printf ''xv6 kernel is booting\<newline>'' [] s) (\<lambda>_ s.
      kbind (printf ''\<newline>'' [] s) (\<lambda>_ s.
      kbind (kinit s) (\<lambda>_ s.
      kbind (kvminit s) (\<lambda>_ s.
      let s = kvminithart s;
          s = procinit s;
          s = trapinit s;
          s = trapinithart s;
          s = plicinit s;
          s = plicinithart s;
          s = binit s;
          s = iinit s;
          s = fileinit s in
      kbind (virtio_disk_init s) (\<lambda>_ s.
      kbind (userinit s) (\<lambda>_ s.
      Ret () (s\<lparr>started := True\<rparr>)))))))))"

definition main_other :: "'a trap_state_scheme \<Rightarrow> (unit, 'a trap_state_scheme) kres" where
  "main_other s =
     (if \<not> started s then Wait OnBoot s
      else
        kbind (printf ''hart %d starting\<newline>'' [PWord (of_nat (cpuid s))] s) (\<lambda>_ s.
        let s = kvminithart s;
            s = trapinithart s
        in Ret () (plicinithart s)))"

definition main :: "'a trap_state_scheme \<Rightarrow> (unit, 'a trap_state_scheme) kres" where
  "main s = (if cpuid s = 0 then main_hart0 s else main_other s)"

end
