(* ===== verification/BufferCache.thy ===== *)
theory BufferCache
  imports Bio
begin

text \<open>
  Correctness of the buffer cache for a thread on its own: the linked list is a permutation of all
  buffers in order of use, no block is cached twice, a buffer that may be recycled holds what is on
  the disk, and \<^verbatim>\<open>bread\<close>, \<^verbatim>\<open>bwrite\<close>, \<^verbatim>\<open>brelse\<close>, \<^verbatim>\<open>bpin\<close> and \<^verbatim>\<open>bunpin\<close> keep this while they read
  and write the blocks of the disk.
\<close>

section \<open>The list of buffers\<close>

definition link :: "(nat \<Rightarrow> buf) \<Rightarrow> nat \<Rightarrow> nat \<Rightarrow> bool" where
  "link bs a b \<longleftrightarrow> b_next (bs a) = b \<and> b_prev (bs b) = a"

text \<open>\<open>xs\<close> are the buffers from the most to the least recently used.\<close>

definition lru :: "(nat \<Rightarrow> buf) \<Rightarrow> nat list \<Rightarrow> bool" where
  "lru bs xs \<longleftrightarrow> successively (link bs) (bhead # xs @ [bhead]) \<and> distinct xs \<and> set xs = {..<NBUF}"

lemma bhead_not_buf: "lru bs xs \<Longrightarrow> bhead \<notin> set xs"
  by (simp add: lru_def)

lemma successively_change:
  assumes "successively P xs" "\<And>x y. x \<in> set (butlast xs) \<Longrightarrow> y \<in> set (tl xs) \<Longrightarrow> P x y \<Longrightarrow> Q x y"
  shows "successively Q xs"
  using assms
proof (induction P xs rule: successively.induct)
  case (3 P x y xs)
  have "successively Q (y # xs)"
    by (rule 3(1)) (use 3(2,3) in auto)
  moreover have "Q x y" using 3(2,3) by simp
  ultimately show ?case by simp
qed simp_all

lemma successively_mid:
  "xs \<noteq> [] \<Longrightarrow> ys \<noteq> [] \<Longrightarrow> successively P (xs @ b # ys) \<longleftrightarrow>
    successively P xs \<and> P (last xs) b \<and> P b (hd ys) \<and> successively P ys"
  by (auto simp: successively_append_iff successively_Cons)

lemma lru_cong:
  assumes "lru bs xs" "\<And>b. b_next (bs' b) = b_next (bs b)" "\<And>b. b_prev (bs' b) = b_prev (bs b)"
  shows "lru bs' xs"
proof -
  have "link bs' = link bs" using assms(2,3) by (intro ext) (simp add: link_def)
  then show ?thesis using assms(1) by (simp add: lru_def)
qed

subsection \<open>The scans\<close>

lemma find_cached_list:
  assumes "successively (link bs) (a # xs @ [bhead])" "bhead \<notin> set xs"
  shows "find_cached bs dev blockno (b_next (bs a)) =
    Some (find (\<lambda>b. b_dev (bs b) = dev \<and> b_blockno (bs b) = blockno) xs)"
  using assms
proof (induction xs arbitrary: a)
  case Nil
  then show ?case by (simp add: link_def find_cached.simps [of _ _ _ bhead])
next
  case (Cons x xs)
  have "b_next (bs a) = x" using Cons.prems by (simp add: link_def)
  moreover have "find_cached bs dev blockno (b_next (bs x)) =
      Some (find (\<lambda>b. b_dev (bs b) = dev \<and> b_blockno (bs b) = blockno) xs)"
    using Cons.prems by (intro Cons.IH) simp_all
  ultimately show ?case using Cons.prems by (simp add: find_cached.simps [of _ _ _ x])
qed

lemma find_unused_list:
  assumes "successively (link bs) (bhead # xs @ [z])" "bhead \<notin> set xs"
  shows "find_unused bs (b_prev (bs z)) = Some (find (\<lambda>b. b_refcnt (bs b) = 0) (rev xs))"
  using assms
proof (induction xs arbitrary: z rule: rev_induct)
  case Nil
  then show ?case by (simp add: link_def find_unused.simps [of _ bhead])
next
  case (snoc x xs)
  have s: "successively (link bs) ((bhead # xs @ [x]) @ [z])" using snoc.prems(1) by simp
  then have "link bs x z" by (simp only: successively_append_iff) simp
  then have z: "b_prev (bs z) = x" by (simp add: link_def)
  have "find_unused bs (b_prev (bs x)) = Some (find (\<lambda>b. b_refcnt (bs b) = 0) (rev xs))"
    using s snoc.prems(2) by (intro snoc.IH) (simp_all only: successively_append_iff, simp_all)
  then show ?case using z snoc.prems(2) by (simp add: find_unused.simps [of _ x])
qed

lemma lru_scans:
  assumes "lru bs xs"
  shows "find_cached bs dev blockno (b_next (bs bhead)) =
      Some (find (\<lambda>b. b_dev (bs b) = dev \<and> b_blockno (bs b) = blockno) xs)"
    "find_unused bs (b_prev (bs bhead)) = Some (find (\<lambda>b. b_refcnt (bs b) = 0) (rev xs))"
  using assms by (auto simp: lru_def intro!: find_cached_list find_unused_list)

subsection \<open>Moving a buffer to the front\<close>

definition unlinked :: "nat \<Rightarrow> (nat \<Rightarrow> buf) \<Rightarrow> nat \<Rightarrow> buf" where
  "unlinked b bs =
     (let bs = bs(b_next (bs b) := (bs (b_next (bs b)))\<lparr>b_prev := b_prev (bs b)\<rparr>)
      in bs(b_prev (bs b) := (bs (b_prev (bs b)))\<lparr>b_next := b_next (bs b)\<rparr>))"

definition fronted :: "nat \<Rightarrow> (nat \<Rightarrow> buf) \<Rightarrow> nat \<Rightarrow> buf" where
  "fronted b bs =
     (let bs = bs(b := (bs b)\<lparr>b_next := b_next (bs bhead)\<rparr>);
          bs = bs(b := (bs b)\<lparr>b_prev := bhead\<rparr>);
          bs = bs(b_next (bs bhead) := (bs (b_next (bs bhead)))\<lparr>b_prev := b\<rparr>)
      in bs(bhead := (bs bhead)\<lparr>b_next := b\<rparr>))"

lemma unlinked_list:
  assumes "successively (link bs) (bhead # us @ b # vs @ [bhead])" "distinct (us @ b # vs)"
    "bhead \<notin> set (us @ b # vs)"
  shows "successively (link (unlinked b bs)) (bhead # us @ vs @ [bhead])"
proof -
  define pv nx where "pv = last (bhead # us)" and "nx = hd (vs @ [bhead])"
  have S: "successively (link bs) (bhead # us)" "link bs pv b" "link bs b nx" "successively (link bs) (vs @ [bhead])"
    using assms(1) successively_mid [of "bhead # us" "vs @ [bhead]" "link bs" b] by (simp_all add: pv_def nx_def)
  have pvnx: "b_prev (bs b) = pv" "b_next (bs b) = nx" using S(2,3) by (auto simp: link_def)
  have nb: "pv \<noteq> b" "nx \<noteq> b" using assms(2,3) by (auto simp: pv_def nx_def hd_append split: if_splits)
  have eq: "b_next (unlinked b bs x) = (if x = pv then nx else b_next (bs x))"
    "b_prev (unlinked b bs x) = (if x = nx then pv else b_prev (bs x))" for x
    using pvnx nb by (auto simp: unlinked_def Let_def)
  have "x \<noteq> pv" if "x \<in> set (butlast (bhead # us))" for x
  proof -
    have "distinct (butlast (bhead # us) @ [pv])"
      unfolding pv_def using assms(2,3) by (subst append_butlast_last_id) auto
    then show ?thesis using that by auto
  qed
  moreover have "y \<noteq> nx" if "y \<in> set us" for y
    using that assms(2,3) by (auto simp: nx_def hd_append split: if_splits)
  ultimately have "successively (link (unlinked b bs)) (bhead # us)"
    using S(1) by (elim successively_change) (auto simp: link_def eq)
  moreover have "successively (link (unlinked b bs)) (vs @ [bhead])"
    using S(4)
  proof (rule successively_change)
    fix x y assume xy: "x \<in> set (butlast (vs @ [bhead]))" "y \<in> set (tl (vs @ [bhead]))" "link bs x y"
    have "x \<in> set vs" using xy(1) by simp
    moreover have "pv \<notin> set vs"
      using assms(2,3) last_in_set [of us] by (auto simp: pv_def simp del: last_in_set split: if_splits)
    ultimately have "x \<noteq> pv" by blast
    moreover have "y \<noteq> nx"
      using xy(2) assms(2,3) by (cases vs) (auto simp: nx_def)
    ultimately show "link (unlinked b bs) x y" using xy(3) by (simp add: link_def eq)
  qed
  moreover have "link (unlinked b bs) pv nx" by (simp add: link_def eq)
  ultimately show ?thesis
    using successively_append_iff [of "link (unlinked b bs)" "bhead # us" "vs @ [bhead]"] by (simp add: pv_def nx_def)
qed

lemma fronted_list:
  assumes "successively (link bs) (bhead # ys @ [bhead])" "distinct ys" "bhead \<notin> set ys" "b \<notin> set ys" "b \<noteq> bhead"
  shows "successively (link (fronted b bs)) (bhead # b # ys @ [bhead])"
proof -
  define nx where "nx = hd (ys @ [bhead])"
  have h: "b_next (bs bhead) = nx" using assms(1) by (cases ys) (auto simp: link_def nx_def)
  have nb: "nx \<noteq> b" using assms(4,5) by (auto simp: nx_def hd_append split: if_splits)
  have eq: "b_next (fronted b bs x) = (if x = bhead then b else if x = b then nx else b_next (bs x))"
    "b_prev (fronted b bs x) = (if x = nx then b else if x = b then bhead else b_prev (bs x))" for x
    using h nb assms(5) by (auto simp: fronted_def Let_def)
  have "successively (link bs) (ys @ [bhead])" using assms(1) by (simp add: successively_Cons)
  then have "successively (link (fronted b bs)) (ys @ [bhead])"
  proof (rule successively_change)
    fix x y assume xy: "x \<in> set (butlast (ys @ [bhead]))" "y \<in> set (tl (ys @ [bhead]))" "link bs x y"
    have "x \<in> set ys" using xy(1) by simp
    then have "x \<noteq> bhead" "x \<noteq> b" using assms(3,4) by auto
    moreover have "y \<noteq> nx" "y \<noteq> b"
      using xy(2) assms(2-5) by (cases ys; auto simp: nx_def)+
    ultimately show "link (fronted b bs) x y" using xy(3) by (simp add: link_def eq)
  qed
  moreover have "link (fronted b bs) bhead b" "link (fronted b bs) b nx" using nb by (simp_all add: link_def eq assms(5))
  ultimately show ?thesis by (cases ys) (simp_all add: nx_def)
qed

lemma front_lru:
  assumes "lru bs xs" "b < NBUF"
  shows "lru (fronted b (unlinked b bs)) (b # remove1 b xs)"
proof -
  have l: "successively (link bs) (bhead # xs @ [bhead])" "distinct xs" "set xs = {..<NBUF}"
    using assms(1) by (simp_all add: lru_def)
  then obtain us vs where xs: "xs = us @ b # vs" using assms(2) by (metis lessThan_iff split_list)
  have u: "successively (link (unlinked b bs)) (bhead # us @ vs @ [bhead])"
    using l xs by (intro unlinked_list) auto
  have r: "remove1 b xs = us @ vs" using l(2) xs by (simp add: remove1_append)
  have "bhead \<notin> set xs" using l(3) by simp
  then have "successively (link (fronted b (unlinked b bs))) (bhead # b # (us @ vs) @ [bhead])"
    using l(2) u xs by (intro fronted_list) auto
  moreover have "set (b # us @ vs) = {..<NBUF}" using l(3) xs by auto
  ultimately show ?thesis using l(2) xs unfolding r by (simp add: lru_def)
qed

section \<open>The invariant\<close>

text \<open>Buffer \<open>b\<close> is the one for block \<open>bno\<close>.\<close>

definition cached :: "'a bio_state_scheme \<Rightarrow> uint32 \<Rightarrow> nat \<Rightarrow> bool" where
  "cached s bno b \<longleftrightarrow> b < NBUF \<and> b_dev (bufs s b) = ROOTDEV \<and> b_blockno (bufs s b) = bno"

text \<open>What a reader of the block gets: the cached data, or what is on the disk.\<close>

definition content :: "'a bio_state_scheme \<Rightarrow> uint32 \<Rightarrow> block" where
  "content s bno =
     (case find (\<lambda>b. cached s bno b \<and> b_valid (bufs s b) \<noteq> 0) [0..<NBUF] of
        Some b \<Rightarrow> b_data (bufs s b)
      | None \<Rightarrow> disk s bno)"

text \<open>A buffer never used is empty; one that may be recycled holds what is on the disk.\<close>

definition buf_ok :: "buf \<Rightarrow> (uint32 \<Rightarrow> block) \<Rightarrow> bool" where
  "buf_ok x d \<longleftrightarrow> (b_dev x = ROOTDEV \<or> b_dev x = 0 \<and> b_valid x = 0 \<and> b_refcnt x = 0) \<and>
     (b_refcnt x = 0 \<and> b_valid x \<noteq> 0 \<longrightarrow> b_data x = d (b_blockno x))"

text \<open>The cache as process \<open>p\<close> finds it while it holds the locks of the buffers \<open>H\<close>.\<close>

definition cache :: "nat \<Rightarrow> nat set \<Rightarrow> 'a bio_state_scheme \<Rightarrow> bool" where
  "cache p H s \<longleftrightarrow> calm p s \<and> (\<exists>xs. lru (bufs s) xs) \<and> H \<subseteq> {..<NBUF} \<and>
     (\<forall>b<NBUF. buf_ok (bufs s b) (disk s)) \<and>
     (\<forall>a b n. cached s n a \<and> cached s n b \<longrightarrow> a = b) \<and>
     (\<forall>b<NBUF. if b \<in> H then b_refcnt (bufs s b) \<noteq> 0 \<and> sl_locked (sleeplocks s (SL_buf b)) \<noteq> 0 \<and>
                   sl_pid (sleeplocks s (SL_buf b)) = p_pid (procs s p)
               else sl_locked (sleeplocks s (SL_buf b)) = 0)"

lemma cacheD:
  assumes "cache p H s"
  shows "calm p s" "\<exists>xs. lru (bufs s) xs" "H \<subseteq> {..<NBUF}" "b < NBUF \<Longrightarrow> buf_ok (bufs s b) (disk s)"
    "cached s n a \<Longrightarrow> cached s n b \<Longrightarrow> a = b"
    "b \<in> H \<Longrightarrow> b_refcnt (bufs s b) \<noteq> 0" "b \<in> H \<Longrightarrow> sl_locked (sleeplocks s (SL_buf b)) \<noteq> 0"
    "b \<in> H \<Longrightarrow> sl_pid (sleeplocks s (SL_buf b)) = p_pid (procs s p)"
    "b < NBUF \<Longrightarrow> b \<notin> H \<Longrightarrow> sl_locked (sleeplocks s (SL_buf b)) = 0"
  using assms unfolding cache_def by (blast, blast, blast, blast, blast, (auto split: if_splits)+)

lemma ROOTDEV_nz [simp]: "ROOTDEV \<noteq> 0" "0 \<noteq> ROOTDEV"
  by (simp_all add: ROOTDEV_def)

lemma content_cached:
  assumes "cache p H s" "cached s n b" "b_valid (bufs s b) \<noteq> 0"
  shows "content s n = b_data (bufs s b)"
proof -
  let ?P = "\<lambda>b. cached s n b \<and> b_valid (bufs s b) \<noteq> 0"
  have "b \<in> set [0..<NBUF]" using assms(2) by (simp add: cached_def)
  then have "find ?P [0..<NBUF] \<noteq> None" using assms(2,3) by (auto simp: find_None_iff)
  then obtain c where c: "find ?P [0..<NBUF] = Some c" by blast
  then have "cached s n c" by (auto simp: find_Some_iff)
  then have "c = b" using cacheD(5) [OF assms(1)] assms(2) by blast
  then show ?thesis using c by (simp add: content_def)
qed

lemma content_disk:
  "(\<And>b. cached s n b \<Longrightarrow> b_valid (bufs s b) = 0) \<Longrightarrow> content s n = disk s n"
  by (auto simp: content_def find_Some_iff split: option.split)

lemma content_cong:
  assumes "\<And>b. b < NBUF \<Longrightarrow> (cached t n b \<and> b_valid (bufs t b) \<noteq> 0) = (cached s n b \<and> b_valid (bufs s b) \<noteq> 0)"
    "\<And>b. cached s n b \<Longrightarrow> b_valid (bufs s b) \<noteq> 0 \<Longrightarrow> b_data (bufs t b) = b_data (bufs s b)"
    "disk t n = disk s n"
  shows "content t n = content s n"
proof -
  have P: "(cached t n b \<and> b_valid (bufs t b) \<noteq> 0) = (cached s n b \<and> b_valid (bufs s b) \<noteq> 0)" for b
    using assms(1) [of b] by (cases "b < NBUF") (auto simp: cached_def)
  show ?thesis
  proof (cases "find (\<lambda>b. cached s n b \<and> b_valid (bufs s b) \<noteq> 0) [0..<NBUF]")
    case (Some c)
    then have "b_data (bufs t c) = b_data (bufs s c)" using assms(2) by (auto simp: find_Some_iff)
    then show ?thesis unfolding content_def P using Some by simp
  qed (simp add: content_def P assms(3))
qed

lemma bio_sl_comm [simp]: "upd_buf b f (upd_sl l g s) = upd_sl l g (upd_buf b f s)"
  by (simp add: upd_buf_def upd_sl_def)

lemma upd_buf_cong: "f (bufs s b) = g (bufs s b) \<Longrightarrow> upd_buf b f s = upd_buf b g s"
  by (simp add: upd_buf_def)

lemma cached_upd [simp]: "cached (upd_sl l g s) n b = cached s n b"
  by (simp add: cached_def)

text \<open>Buffer \<open>b\<close> is changed by \<open>G\<close> and locked.\<close>

lemma cache_take:
  assumes "cache p H s" "b < NBUF" "b \<notin> H"
    "b_next (G (bufs s b)) = b_next (bufs s b)" "b_prev (G (bufs s b)) = b_prev (bufs s b)"
    "b_dev (G (bufs s b)) = ROOTDEV" "b_refcnt (G (bufs s b)) \<noteq> 0"
    "\<And>c. cached s (b_blockno (G (bufs s b))) c \<Longrightarrow> c = b"
  shows "cache p (insert b H) (take_sl (SL_buf b) p (upd_buf b G s))"
    "lru (bufs s) xs \<Longrightarrow> lru (bufs (take_sl (SL_buf b) p (upd_buf b G s))) xs"
proof -
  let ?t = "take_sl (SL_buf b) p (upd_buf b G s)"
  note c = cacheD [OF assms(1)]
  show l: "lru (bufs ?t) xs" if "lru (bufs s) xs" for xs
    using that by (rule lru_cong) (simp_all add: assms(4,5))
  have cd: "cached (upd_buf b G s) n a \<longleftrightarrow> (if a = b then n = b_blockno (G (bufs s b)) else cached s n a)" for n a
    using assms(2,6) by (auto simp: cached_def)
  have "\<exists>xs. lru (bufs ?t) xs" using c(2) l by blast
  moreover have "buf_ok (bufs ?t a) (disk ?t)" if "a < NBUF" for a
    using c(4) [OF that] assms(6,7) by (simp add: buf_ok_def)
  moreover have "a1 = a2" if "cached ?t n a1" "cached ?t n a2" for a1 a2 n
    using that c(5) [of n a1 a2] assms(8) [of a1] assms(8) [of a2] unfolding cached_upd cd by (auto split: if_splits)
  moreover have "H \<subseteq> {..<NBUF}" by (rule c(3))
  ultimately show "cache p (insert b H) ?t"
    unfolding cache_def using c(1,6-9) assms(2,3,7) by (simp add: insert_subset) blast
qed

section \<open>Reading a block\<close>

lemma find_by_cache:
  assumes "cache p H s" "lru (bufs s) xs"
  shows "cached s n b \<Longrightarrow> find (\<lambda>b. b_dev (bufs s b) = ROOTDEV \<and> b_blockno (bufs s b) = n) xs = Some b"
    "\<nexists>b. cached s n b \<Longrightarrow> find (\<lambda>b. b_dev (bufs s b) = ROOTDEV \<and> b_blockno (bufs s b) = n) xs = None"
proof -
  let ?P = "\<lambda>b. b_dev (bufs s b) = ROOTDEV \<and> b_blockno (bufs s b) = n"
  have xs: "set xs = {..<NBUF}" using assms(2) by (simp add: lru_def)
  then have P: "c \<in> set xs \<Longrightarrow> ?P c = cached s n c" for c by (auto simp: cached_def)
  show "find ?P xs = None" if "\<nexists>b. cached s n b" using that P by (simp add: find_None_iff)
  show "find ?P xs = Some b" if b: "cached s n b"
  proof -
    have "b \<in> set xs" using b xs by (simp add: cached_def)
    then have "find ?P xs \<noteq> None" using b P by (auto simp: find_None_iff)
    then obtain c where c: "find ?P xs = Some c" by blast
    then have "c \<in> set xs" "?P c" by (auto simp: find_Some_iff)
    then have "c = b" using P cacheD(5) [OF assms(1) _ b] by blast
    then show ?thesis using c by simp
  qed
qed

lemma bget_cached:
  assumes "cache p H s" "cached s n b" "b \<notin> H"
  shows "bget ROOTDEV n s = Ret b (take_sl (SL_buf b) p (upd_buf b (b_refcnt_update (\<lambda>r. r + 1)) s))"
proof -
  note c = cacheD [OF assms(1)]
  obtain xs where xs: "lru (bufs s) xs" using c(2) by blast
  have "sl_locked (sleeplocks s (SL_buf b)) = 0" using c(9) assms(2,3) by (simp add: cached_def)
  then show ?thesis
    using c(1) lru_scans(1) [OF xs] find_by_cache(1) [OF assms(1) xs assms(2)]
    by (simp add: bget_def Let_def acquiresleep_free)
qed

definition recycled :: "uint32 \<Rightarrow> buf \<Rightarrow> buf" where
  "recycled n x = x\<lparr>b_dev := ROOTDEV, b_blockno := n, b_valid := 0, b_refcnt := 1\<rparr>"

lemma bget_recycle:
  assumes "cache p H s" "\<nexists>b. cached s n b" "lru (bufs s) xs" "find (\<lambda>b. b_refcnt (bufs s b) = 0) (rev xs) = Some b"
  shows "bget ROOTDEV n s = Ret b (take_sl (SL_buf b) p (upd_buf b (recycled n) s))" "b < NBUF" "b \<notin> H"
proof -
  note c = cacheD [OF assms(1)]
  have b: "b \<in> set xs" "b_refcnt (bufs s b) = 0" using assms(4) by (auto simp: find_Some_iff rev_nth)
  then show "b < NBUF" "b \<notin> H" using assms(3) c(6) by (auto simp: lru_def)
  then have "sl_locked (sleeplocks s (SL_buf b)) = 0" using c(9) by simp
  then show "bget ROOTDEV n s = Ret b (take_sl (SL_buf b) p (upd_buf b (recycled n) s))"
    using c(1) lru_scans [OF assms(3)] find_by_cache(2) [OF assms(1,3,2)] assms(4)
    by (simp add: bget_def Let_def acquiresleep_free recycled_def [abs_def])
qed

lemma bget_full:
  assumes "cache p H s" "\<nexists>b. cached s n b" "\<forall>b<NBUF. b_refcnt (bufs s b) \<noteq> 0"
  shows "bget ROOTDEV n s = Panic ''bget: no buffers''"
proof -
  note c = cacheD [OF assms(1)]
  obtain xs where xs: "lru (bufs s) xs" using c(2) by blast
  then have "find (\<lambda>b. b_refcnt (bufs s b) = 0) (rev xs) = None"
    using assms(3) by (auto simp: find_None_iff lru_def)
  then show ?thesis
    using c(1) lru_scans [OF xs] find_by_cache(2) [OF assms(1) xs assms(2)] by (simp add: bget_def Let_def)
qed

text \<open>
  What \<^verbatim>\<open>bread\<close> does: it takes the lock of one buffer, which then holds the block; nothing else of
  the state changes.
\<close>

definition bread_post :: "nat \<Rightarrow> nat set \<Rightarrow> uint32 \<Rightarrow> 'a bio_state_scheme \<Rightarrow> nat \<Rightarrow> 'a bio_state_scheme \<Rightarrow> bool" where
  "bread_post p H n s b s' \<longleftrightarrow> cache p (insert b H) s' \<and> b \<notin> H \<and> cached s' n b \<and> b_valid (bufs s' b) \<noteq> 0 \<and>
     b_data (bufs s' b) = content s n \<and> (cached s n b \<or> b_refcnt (bufs s b) = 0) \<and>
     b_refcnt (bufs s' b) = (if cached s n b then b_refcnt (bufs s b) + 1 else 1) \<and>
     (\<forall>c. c \<noteq> b \<longrightarrow> bufs s' c = bufs s c) \<and> (\<forall>m. content s' m = content s m) \<and>
     s' = s\<lparr>sleeplocks := sleeplocks s', bufs := bufs s'\<rparr> \<and> (\<forall>xs. lru (bufs s) xs \<longrightarrow> lru (bufs s') xs)"

lemma bread_post_take:
  assumes "cache p H s" "b < NBUF" "b \<notin> H"
    "b_next (G (bufs s b)) = b_next (bufs s b)" "b_prev (G (bufs s b)) = b_prev (bufs s b)"
    "b_dev (G (bufs s b)) = ROOTDEV" "b_blockno (G (bufs s b)) = n" "b_valid (G (bufs s b)) \<noteq> 0"
    "b_data (G (bufs s b)) = content s n" "b_refcnt (G (bufs s b)) \<noteq> 0"
    "b_refcnt (G (bufs s b)) = (if cached s n b then b_refcnt (bufs s b) + 1 else 1)"
    "\<And>c. cached s n c \<Longrightarrow> c = b" "cached s n b \<or> b_refcnt (bufs s b) = 0"
  shows "bread_post p H n s b (take_sl (SL_buf b) p (upd_buf b G s))"
proof -
  let ?t = "take_sl (SL_buf b) p (upd_buf b G s)"
  have cd: "cached (upd_buf b G s) m a \<longleftrightarrow> (if a = b then m = n else cached s m a)" for m a
    using assms(2,6,7) by (auto simp: cached_def)
  have ct: "cache p (insert b H) ?t" using cache_take(1) [of p H s b G] assms by simp
  have "content ?t m = content s m" for m
  proof (cases "m = n")
    case True
    have "content ?t n = b_data (bufs ?t b)" using assms(8) by (intro content_cached [OF ct]) (simp_all add: cd)
    then show ?thesis using True assms(9) by simp
  next
    case False
    show ?thesis
    proof (cases "cached s m b \<and> b_valid (bufs s b) \<noteq> 0")
      case True
      then have "b_refcnt (bufs s b) = 0" using False assms(13) by (auto simp: cached_def)
      then have "b_data (bufs s b) = disk s m" using True cacheD(4) [OF assms(1,2)] by (simp add: buf_ok_def cached_def)
      moreover have "content s m = b_data (bufs s b)" using True by (intro content_cached [OF assms(1)]) simp_all
      moreover have "content ?t m = disk ?t m"
      proof (rule content_disk)
        fix c assume "cached ?t m c"
        then have "c \<noteq> b" "cached s m c" using False by (auto simp: cd split: if_splits)
        then show "b_valid (bufs ?t c) = 0" using cacheD(5) [OF assms(1), of m c b] True by blast
      qed
      ultimately show ?thesis by simp
    next
      case False2: False
      show ?thesis
        by (rule content_cong) (use False False2 in \<open>auto simp: cd split: if_splits\<close>)
    qed
  qed
  moreover have "lru (bufs s) xs \<longrightarrow> lru (bufs ?t) xs" for xs
    using cache_take(2) [of p H s b G xs] assms(1-8,10,12) by simp
  moreover have "?t = s\<lparr>sleeplocks := sleeplocks ?t, bufs := bufs ?t\<rparr>" by (simp add: upd_buf_def upd_sl_def)
  moreover have "cached ?t n b" by (simp add: cd)
  ultimately show ?thesis
    unfolding bread_post_def using ct assms(3,13) by (simp add: assms(8,9,11))
qed

lemma bread_hit:
  assumes "cache p H s" "cached s n b" "b \<notin> H" "b_refcnt (bufs s b) \<noteq> - 1"
  shows "\<exists>s'. bread ROOTDEV n s = Ret b s' \<and> bread_post p H n s b s'"
proof -
  note b = assms(2)
  have H: "b \<notin> H" "b_refcnt (bufs s b) + 1 \<noteq> 0" "b < NBUF"
    using assms(2-4) by (auto simp: cached_def eq_neg_iff_add_eq_0)
  define G :: "buf \<Rightarrow> buf" where "G = (\<lambda>x. if b_valid x = 0 then (b_refcnt_update (\<lambda>r. r + 1) x)\<lparr>b_data := disk s n, b_disk := 0, b_valid := 1\<rparr>
    else b_refcnt_update (\<lambda>r. r + 1) x)"
  have "content s n = (if b_valid (bufs s b) = 0 then disk s n else b_data (bufs s b))"
  proof (cases "b_valid (bufs s b) = 0")
    case True
    then have "content s n = disk s n" by (intro content_disk) (metis cacheD(5) [OF assms(1)] b)
    then show ?thesis using True by simp
  qed (simp add: content_cached [OF assms(1) b])
  then have "bread_post p H n s b (take_sl (SL_buf b) p (upd_buf b G s))"
    using b H assms(1) cacheD(5) [OF assms(1)]
    by (intro bread_post_take) (auto simp: G_def cached_def)
  moreover have "bread ROOTDEV n s = Ret b (take_sl (SL_buf b) p (upd_buf b G s))"
  proof -
    have "upd_buf b G s = upd_buf b (\<lambda>x. (b_refcnt_update (\<lambda>r. r + 1) x)\<lparr>b_data := disk s n, b_disk := 0, b_valid := 1\<rparr>) s"
      if "b_valid (bufs s b) = 0" using that by (intro upd_buf_cong) (simp add: G_def)
    moreover have "upd_buf b G s = upd_buf b (b_refcnt_update (\<lambda>r. r + 1)) s" if "b_valid (bufs s b) \<noteq> 0"
      using that by (intro upd_buf_cong) (simp add: G_def)
    ultimately show ?thesis using bget_cached [OF assms(1) b H(1)] b
      by (simp add: bread_def disk_rw_def Let_def cached_def)
  qed
  ultimately show ?thesis by blast
qed

lemma bread_miss:
  assumes "cache p H s" "\<nexists>b. cached s n b" "lru (bufs s) xs" "find (\<lambda>b. b_refcnt (bufs s b) = 0) (rev xs) = Some b"
  shows "\<exists>s'. bread ROOTDEV n s = Ret b s' \<and> bread_post p H n s b s'"
proof -
  note b = bget_recycle [OF assms]
  have r: "b_refcnt (bufs s b) = 0" using assms(4) by (auto simp: find_Some_iff)
  define G :: "buf \<Rightarrow> buf" where "G = (\<lambda>x. (recycled n x)\<lparr>b_data := disk s n, b_disk := 0, b_valid := 1\<rparr>)"
  have "content s n = disk s n" using assms(2) by (intro content_disk) blast
  then have "bread_post p H n s b (take_sl (SL_buf b) p (upd_buf b G s))"
    using assms(2) b(2,3) r assms(1) by (intro bread_post_take) (auto simp: G_def recycled_def)
  moreover have "bread ROOTDEV n s = Ret b (take_sl (SL_buf b) p (upd_buf b G s))"
    using b(1) by (simp add: bread_def disk_rw_def Let_def G_def recycled_def)
  ultimately show ?thesis by blast
qed

lemma bread_ok:
  assumes "cache p H s" "\<And>b. cached s n b \<Longrightarrow> b \<notin> H \<and> b_refcnt (bufs s b) \<noteq> - 1"
    "(\<exists>b. cached s n b) \<or> (\<exists>b<NBUF. b_refcnt (bufs s b) = 0)"
  shows "\<exists>b s'. bread ROOTDEV n s = Ret b s' \<and> bread_post p H n s b s'"
proof (cases "\<exists>b. cached s n b")
  case True
  then show ?thesis using bread_hit [OF assms(1)] assms(2) by blast
next
  case False
  obtain xs where xs: "lru (bufs s) xs" using cacheD(2) [OF assms(1)] by blast
  have "find (\<lambda>b. b_refcnt (bufs s b) = 0) (rev xs) \<noteq> None"
    using False assms(3) xs by (auto simp: find_None_iff lru_def)
  then show ?thesis using bread_miss [OF assms(1) False xs] by blast
qed

section \<open>Writing and releasing a block\<close>

text \<open>A buffer without its place in the list.\<close>

definition core :: "buf \<Rightarrow> buf" where
  "core x = x\<lparr>b_prev := 0, b_next := 0\<rparr>"

lemma coreD:
  assumes "core x = core y"
  shows "b_valid x = b_valid y" "b_dev x = b_dev y" "b_blockno x = b_blockno y" "b_refcnt x = b_refcnt y"
    "b_data x = b_data y"
  using arg_cong [OF assms, of b_valid] arg_cong [OF assms, of b_dev] arg_cong [OF assms, of b_blockno]
    arg_cong [OF assms, of b_refcnt] arg_cong [OF assms, of b_data] by (simp_all add: core_def)

lemma core_front [simp]: "core (fronted b bs c) = core (bs c)" "core (unlinked b bs c) = core (bs c)"
  by (simp_all add: fronted_def unlinked_def Let_def core_def)

lemma core_links [simp]: "core (x\<lparr>b_prev := q\<rparr>) = core x" "core (x\<lparr>b_next := q\<rparr>) = core x"
  by (simp_all add: core_def)

lemma pid_wake_set [simp]: "p_pid (procs (wake_set ch A s) q) = p_pid (procs s q)"
  by (simp add: wake_set_def woken_def)

text \<open>A new state of the disk and of the buffer \<open>b\<close>, which is locked.\<close>

lemma cache_change:
  assumes "cache p H s" "b \<in> H" "b_next x = b_next (bufs s b)" "b_prev x = b_prev (bufs s b)"
    "b_dev x = b_dev (bufs s b)" "b_blockno x = b_blockno (bufs s b)" "b_refcnt x \<noteq> 0"
    "\<And>n. n \<noteq> b_blockno (bufs s b) \<Longrightarrow> d n = disk s n"
  shows "cache p H (s\<lparr>bufs := (bufs s)(b := x), disk := d, disk_trace := tr\<rparr>)"
proof -
  let ?t = "s\<lparr>bufs := (bufs s)(b := x), disk := d, disk_trace := tr\<rparr>"
  note c = cacheD [OF assms(1)]
  have b: "b < NBUF" "b_dev (bufs s b) = ROOTDEV" using assms(2) c(3,4,6) by (auto simp: buf_ok_def)
  have cd: "cached ?t n a = cached s n a" for n a using assms(5,6) by (auto simp: cached_def)
  have "\<exists>xs. lru (bufs ?t) xs" using c(2) lru_cong [where bs' = "bufs ?t"] assms(3,4) by fastforce
  moreover have "buf_ok (bufs ?t a) (disk ?t)" if a: "a < NBUF" for a
  proof (cases "a = b")
    case True
    then show ?thesis using b assms(5,7) by (simp add: buf_ok_def)
  next
    case False
    have "b_blockno (bufs s a) \<noteq> b_blockno (bufs s b)" if "b_dev (bufs s a) = ROOTDEV"
      using c(5) [of "b_blockno (bufs s b)" a b] that a b False by (auto simp: cached_def)
    then show ?thesis using c(4) [OF a] False assms(8) by (auto simp: buf_ok_def)
  qed
  moreover have "calm p ?t" using c(1) calm_cong [of ?t s] by simp
  ultimately show ?thesis
    unfolding cache_def cd using c(3,5-9) assms(2,7) by simp blast
qed

lemma bwrite_held:
  assumes "cache p H s" "b \<in> H"
  shows "bwrite b s = Ret () (s\<lparr>bufs := (bufs s)(b := (bufs s b)\<lparr>b_disk := 0\<rparr>),
      disk := (disk s)(b_blockno (bufs s b) := b_data (bufs s b)),
      disk_trace := disk_trace s @ [(b_blockno (bufs s b), b_data (bufs s b))]\<rparr>)"
  using cacheD(1,7,8) [OF assms(1)] assms(2)
  by (simp add: bwrite_def holdingsleep_calm disk_rw_def Let_def upd_buf_def)

definition less_ref :: "buf \<Rightarrow> buf" where
  "less_ref = b_refcnt_update (\<lambda>r. r - 1)"

definition released :: "nat \<Rightarrow> (nat \<Rightarrow> buf) \<Rightarrow> nat \<Rightarrow> buf" where
  "released b bs = (let bs = bs(b := less_ref (bs b)) in if b_refcnt (bs b) = 0 then fronted b (unlinked b bs) else bs)"

lemma core_released: "core (released b bs c) = core (if c = b then less_ref (bs b) else bs c)"
  by (simp add: released_def Let_def)

lemma lru_released:
  assumes "lru bs xs" "b < NBUF"
  shows "lru (released b bs) (if b_refcnt (bs b) = 1 then b # remove1 b xs else xs)"
proof -
  have "lru (bs(b := less_ref (bs b))) xs" using assms(1) by (rule lru_cong) (simp_all add: less_ref_def)
  moreover have "b_refcnt (less_ref (bs b)) = 0 \<longleftrightarrow> b_refcnt (bs b) = 1" by (simp add: less_ref_def)
  ultimately show ?thesis using front_lru [OF _ assms(2)] by (simp add: released_def Let_def)
qed

lemma bufs_comm [simp]:
  "bufs_update f (hold lk s) = hold lk (bufs_update f s)"
  "bufs_update f (upd_sl l g s) = upd_sl l g (bufs_update f s)"
  "bufs_update f (wake_set ch A s) = wake_set ch A (bufs_update f s)"
  by (simp_all add: lock_defs upd_sl_def wake_set_def cong: if_cong)

lemma unlink_state:
  "(let s = upd_buf (b_next (bufs s b)) (b_prev_update (\<lambda>_. b_prev (bufs s b))) s;
        s = upd_buf (b_prev (bufs s b)) (b_next_update (\<lambda>_. b_next (bufs s b))) s in k s) =
   k (s\<lparr>bufs := unlinked b (bufs s)\<rparr>)"
  by (simp add: Let_def unlinked_def upd_buf_def)

lemma front_state:
  "(let s = upd_buf b (b_next_update (\<lambda>_. b_next (bufs s bhead))) s;
        s = upd_buf b (b_prev_update (\<lambda>_. bhead)) s in push_head b s) =
   s\<lparr>bufs := fronted b (bufs s)\<rparr>"
  by (simp add: Let_def fronted_def upd_buf_def push_head_def)

lemma brelse_eq:
  "brelse b s =
     kbind (holdingsleep (SL_buf b) s) (\<lambda>h s.
     if \<not> h then Panic ''brelse''
     else kbind (releasesleep (SL_buf b) s) (\<lambda>_ s.
       kbind (acquire L_bcache s) (\<lambda>_ s. release L_bcache (s\<lparr>bufs := released b (bufs s)\<rparr>))))"
proof -
  have e: "(let s = upd_buf b (b_refcnt_update (\<lambda>r. r - 1)) s in
      Let (if b_refcnt (bufs s b) = 0 then s\<lparr>bufs := unlinked b (bufs s),
             bufs := fronted b (bufs (s\<lparr>bufs := unlinked b (bufs s)\<rparr>))\<rparr> else s) (release L_bcache)) =
      release L_bcache (s\<lparr>bufs := released b (bufs s)\<rparr>)" for s :: "'a bio_state_scheme"
    by (simp add: released_def less_ref_def Let_def upd_buf_def)
  show ?thesis unfolding brelse_def unlink_state front_state e ..
qed

lemma calm_bufs [simp]: "calm p (bufs_update f s) = calm p s"
  by (rule calm_cong) simp_all

lemma brelse_held:
  assumes "cache p H s" "b \<in> H"
  shows "brelse b s = Ret () (drop_sl (SL_buf b) (s\<lparr>bufs := released b (bufs s)\<rparr>))"
  using cacheD(1,7,8) [OF assms(1)] assms(2)
  by (simp add: brelse_eq holdingsleep_calm releasesleep_calm)

lemma cache_release:
  assumes "cache p H s" "b \<in> H" "b_refcnt (bufs s b) = 1 \<and> b_valid (bufs s b) \<noteq> 0 \<longrightarrow>
      b_data (bufs s b) = disk s (b_blockno (bufs s b))"
  shows "cache p (H - {b}) (drop_sl (SL_buf b) (s\<lparr>bufs := released b (bufs s)\<rparr>))"
proof -
  let ?t = "drop_sl (SL_buf b) (s\<lparr>bufs := released b (bufs s)\<rparr>)"
  note c = cacheD [OF assms(1)]
  have b: "b < NBUF" using c(3) assms(2) by auto
  have k: "core (bufs ?t a) = core (if a = b then less_ref (bufs s b) else bufs s a)" for a
    by (simp add: core_released)
  have f: "b_valid (bufs ?t a) = b_valid (bufs s a)" "b_dev (bufs ?t a) = b_dev (bufs s a)"
    "b_blockno (bufs ?t a) = b_blockno (bufs s a)" "b_data (bufs ?t a) = b_data (bufs s a)"
    "b_refcnt (bufs ?t a) = (if a = b then b_refcnt (bufs s b) - 1 else b_refcnt (bufs s a))" for a
    using coreD [OF k [of a]] by (simp_all add: less_ref_def split: if_splits)
  obtain xs where "lru (bufs s) xs" using c(2) by blast
  then have "\<exists>xs. lru (bufs ?t) xs" using lru_released [OF _ b] by (auto simp only: bio_hold bufs_comm) auto
  moreover have "buf_ok (bufs ?t a) (disk ?t)" if a: "a < NBUF" for a
  proof -
    have d: "disk ?t = disk s" by simp
    have "b_dev (bufs s b) = ROOTDEV" using c(4) [OF b] c(6) [OF assms(2)] by (auto simp: buf_ok_def)
    then show ?thesis using c(4) [OF a] assms(3) unfolding buf_ok_def f d by auto
  qed
  moreover have "cached ?t n a = cached s n a" for n a unfolding cached_def f by simp
  moreover have "calm p ?t" using c(1) by simp
  moreover have "(if a \<in> H - {b} then b_refcnt (bufs ?t a) \<noteq> 0 \<and> sl_locked (sleeplocks ?t (SL_buf a)) \<noteq> 0 \<and>
      sl_pid (sleeplocks ?t (SL_buf a)) = p_pid (procs ?t p) else sl_locked (sleeplocks ?t (SL_buf a)) = 0)"
    if "a < NBUF" for a
    using that c(6-9) [of a] unfolding f by auto
  ultimately show ?thesis unfolding cache_def using c(3,5) by blast
qed

section \<open>A thread that uses the cache alone\<close>

text \<open>
  Every reference to a buffer is a pin of one of the blocks \<open>N\<close> or the lock of one of the buffers
  \<open>H\<close> the thread holds.
\<close>

definition busy :: "nat \<Rightarrow> uint32 set \<Rightarrow> nat set \<Rightarrow> 'a bio_state_scheme \<Rightarrow> bool" where
  "busy p N H s \<longleftrightarrow> cache p H s \<and> finite N \<and>
     (\<forall>b<NBUF. b_refcnt (bufs s b) =
        (if b_dev (bufs s b) = ROOTDEV \<and> b_blockno (bufs s b) \<in> N then 1 else 0) + (if b \<in> H then 1 else 0)) \<and>
     (\<forall>n\<in>N. \<exists>b. cached s n b \<and> b_valid (bufs s b) \<noteq> 0)"

lemma busyD:
  assumes "busy p N H s"
  shows "cache p H s" "finite N" "n \<in> N \<Longrightarrow> \<exists>b. cached s n b \<and> b_valid (bufs s b) \<noteq> 0"
    "cached s n b \<Longrightarrow> b_refcnt (bufs s b) = (if n \<in> N then 1 else 0) + (if b \<in> H then 1 else 0)"
    "b < NBUF \<Longrightarrow> b_refcnt (bufs s b) =
        (if b_dev (bufs s b) = ROOTDEV \<and> b_blockno (bufs s b) \<in> N then 1 else 0) + (if b \<in> H then 1 else 0)"
  using assms unfolding busy_def cached_def by auto

lemma busy_clean_but:
  assumes "busy p N H s" "n \<notin> N" "\<forall>b\<in>H. \<not> cached s n b"
  shows "content s n = disk s n"
proof (cases "\<exists>b. cached s n b \<and> b_valid (bufs s b) \<noteq> 0")
  case True
  then obtain b where b: "cached s n b" "b_valid (bufs s b) \<noteq> 0" by blast
  then have "b \<notin> H" using assms(3) by blast
  then have "b_refcnt (bufs s b) = 0" using busyD(4) [OF assms(1) b(1)] assms(2) by simp
  then have "b_data (bufs s b) = disk s n"
    using b cacheD(4) [OF busyD(1) [OF assms(1)], of b] by (simp add: buf_ok_def cached_def)
  then show ?thesis using content_cached [OF busyD(1) [OF assms(1)] b] by simp
qed (auto intro: content_disk)

lemma busy_clean: "busy p N {} s \<Longrightarrow> n \<notin> N \<Longrightarrow> content s n = disk s n"
  by (rule busy_clean_but [where H = "{}"]) simp_all

lemma busy_free:
  assumes "busy p N H s" "card N + card H < NBUF"
  shows "\<exists>b<NBUF. b_refcnt (bufs s b) = 0"
proof (rule ccontr)
  assume n: "\<not> ?thesis"
  let ?A = "{b. b < NBUF \<and> b_dev (bufs s b) = ROOTDEV \<and> b_blockno (bufs s b) \<in> N}"
  note c = cacheD [OF busyD(1) [OF assms(1)]]
  have "{..<NBUF} \<subseteq> ?A \<union> H"
    using n busyD(5) [OF assms(1)] by (auto split: if_splits)
  moreover have fin: "finite H" using c(3) finite_subset by blast
  ultimately have "NBUF \<le> card (?A \<union> H)" using card_mono [of "?A \<union> H" "{..<NBUF}"] by simp
  also have "\<dots> \<le> card ?A + card H" by (rule card_Un_le)
  also have "card ?A \<le> card N"
  proof (rule card_inj_on_le)
    show "inj_on (\<lambda>b. b_blockno (bufs s b)) ?A" using c(5) by (auto simp: inj_on_def cached_def)
  qed (use busyD(2) [OF assms(1)] in auto)
  finally show False using assms(2) by simp
qed

text \<open>Only the cache, the disk and what was printed change.\<close>

definition bframe :: "'a bio_state_scheme \<Rightarrow> 'a bio_state_scheme \<Rightarrow> bool" where
  "bframe s t \<longleftrightarrow> t = s\<lparr>uart_out := uart_out t, procs := procs t, sleeplocks := sleeplocks t, bufs := bufs t,
     disk := disk t, disk_trace := disk_trace t\<rparr>"

lemma bframe_trans [trans]:
  assumes "bframe s t" "bframe t u"
  shows "bframe s u"
proof -
  have "u = t\<lparr>uart_out := uart_out u, procs := procs u, sleeplocks := sleeplocks u, bufs := bufs u, disk := disk u,
      disk_trace := disk_trace u\<rparr>"
    using assms(2) by (simp add: bframe_def)
  also have "\<dots> = s\<lparr>uart_out := uart_out u, procs := procs u, sleeplocks := sleeplocks u, bufs := bufs u, disk := disk u,
      disk_trace := disk_trace u\<rparr>"
    by (subst assms(1) [unfolded bframe_def]) simp
  finally show ?thesis unfolding bframe_def .
qed

lemma bframe_refl [simp]: "bframe s s"
  by (simp add: bframe_def)

lemma bread_post_busy:
  assumes "busy p N H s" "bread_post p H n s b t"
  shows "busy p N (insert b H) t"
proof -
  note c = busyD [OF assms(1)] and q = assms(2) [unfolded bread_post_def]
  have ct: "cached t n b" "b \<notin> H" "cache p (insert b H) t" using q by blast+
  have v: "b_valid (bufs t b) \<noteq> 0" "cached s n b \<or> b_refcnt (bufs s b) = 0" using q by blast+
  have other: "bufs t a = bufs s a" if "a \<noteq> b" for a using q that by blast
  have "n \<in> N \<longrightarrow> cached s n b"
  proof
    assume "n \<in> N"
    then obtain a where a: "cached s n a" using c(3) by blast
    have "a = b"
    proof (rule ccontr)
      assume "a \<noteq> b"
      then have "cached t n a" using other a unfolding cached_def by auto
      then show False using cacheD(5) [OF ct(3,1)] \<open>a \<noteq> b\<close> by blast
    qed
    then show "cached s n b" using a by simp
  qed
  moreover have "b_refcnt (bufs t b) = (if cached s n b then b_refcnt (bufs s b) + 1 else 1)" using q by blast
  ultimately have "b_refcnt (bufs t a) = (if b_dev (bufs t a) = ROOTDEV \<and> b_blockno (bufs t a) \<in> N then 1 else 0) +
      (if a \<in> insert b H then 1 else 0)" if "a < NBUF" for a
    using that c(4) [of n b] c(5) [OF that] other ct by (cases "a = b") (simp_all add: cached_def)
  moreover have "\<exists>b. cached t m b \<and> b_valid (bufs t b) \<noteq> 0" if m: "m \<in> N" for m
  proof -
    obtain a where a: "cached s m a" "b_valid (bufs s a) \<noteq> 0" using c(3) [OF m] by blast
    have "b_refcnt (bufs s a) \<noteq> 0" using c(4) [OF a(1)] m by auto
    then have "a = b \<Longrightarrow> m = n" using v(2) a(1) by (auto simp: cached_def)
    moreover have "cached t m a \<and> b_valid (bufs t a) \<noteq> 0" if "a \<noteq> b"
      using that a other by (simp add: cached_def)
    ultimately show ?thesis using v(1) ct(1) by (cases "a = b") blast+
  qed
  ultimately show ?thesis unfolding busy_def using c(2) ct(3) by blast
qed

lemma busy_bread:
  assumes "busy p N H s" "\<forall>b\<in>H. \<not> cached s n b" "n \<in> N \<or> card N + card H < NBUF"
  obtains b t where "bread ROOTDEV n s = Ret b t" "busy p N (insert b H) t" "b \<notin> H" "cached t n b"
    "b_valid (bufs t b) \<noteq> 0" "b_data (bufs t b) = content s n" "\<And>c. c \<noteq> b \<Longrightarrow> bufs t c = bufs s c"
    "\<And>m. content t m = content s m" "bframe s t" "disk t = disk s" "disk_trace t = disk_trace s"
proof -
  note c = busyD [OF assms(1)]
  have r: "b_refcnt (bufs s b) \<noteq> - 1" if "cached s n b" for b using c(4) [OF that] by simp
  have "(\<exists>b. cached s n b) \<or> (\<exists>b<NBUF. b_refcnt (bufs s b) = 0)"
    using assms(3) c(3) busy_free [OF assms(1)] by blast
  then obtain b t where bt: "bread ROOTDEV n s = Ret b t" "bread_post p H n s b t"
    using bread_ok [OF c(1)] assms(2) r by blast
  note q = bt(2) [unfolded bread_post_def]
  have t: "t = s\<lparr>sleeplocks := sleeplocks t, bufs := bufs t\<rparr>" using q by blast
  have d: "disk t = disk s" "disk_trace t = disk_trace s" "procs t = procs s" "uart_out t = uart_out s"
    by (subst t, simp)+
  have "bframe s t" unfolding bframe_def d by (subst t) simp
  then show ?thesis using that bt(1) q d bread_post_busy [OF assms(1) bt(2)] by blast
qed

text \<open>The data of a locked buffer is overwritten.\<close>

lemma upd_buf_full:
  "upd_buf b f s = s\<lparr>bufs := (bufs s)(b := f (bufs s b)), disk := disk s, disk_trace := disk_trace s\<rparr>"
  by (simp add: upd_buf_def)

lemma busy_change:
  assumes "busy p N H s" "b \<in> H" "core x = core ((bufs s b)\<lparr>b_data := d, b_disk := k\<rparr>)"
    "b_next x = b_next (bufs s b)" "b_prev x = b_prev (bufs s b)"
    "\<And>n. n \<noteq> b_blockno (bufs s b) \<Longrightarrow> d' n = disk s n"
  shows "busy p N H (s\<lparr>bufs := (bufs s)(b := x), disk := d', disk_trace := tr\<rparr>)"
proof -
  let ?t = "s\<lparr>bufs := (bufs s)(b := x), disk := d', disk_trace := tr\<rparr>"
  note c = busyD [OF assms(1)]
  have f: "b_valid x = b_valid (bufs s b)" "b_dev x = b_dev (bufs s b)" "b_blockno x = b_blockno (bufs s b)"
    "b_refcnt x = b_refcnt (bufs s b)" using coreD [OF assms(3)] by simp_all
  have "cache p H ?t" using f assms cacheD(6) [OF c(1) assms(2)] by (intro cache_change [OF c(1)]) simp_all
  moreover have cd: "cached ?t n a = cached s n a" "b_valid (bufs ?t a) = b_valid (bufs s a)" for n a
    using f by (auto simp: cached_def)
  moreover have "b_refcnt (bufs ?t a) = (if b_dev (bufs ?t a) = ROOTDEV \<and> b_blockno (bufs ?t a) \<in> N then 1 else 0) +
      (if a \<in> H then 1 else 0)" if "a < NBUF" for a
    using c(5) [OF that] f by (cases "a = b") simp_all
  ultimately show ?thesis unfolding busy_def cd using c(2,3) by blast
qed

lemma busy_fill:
  assumes "busy p N H s" "b \<in> H"
  shows "busy p N H (upd_buf b (b_data_update (\<lambda>_. d)) s)"
  unfolding upd_buf_full using assms by (intro busy_change [where d = d and k = "b_disk (bufs s b)"]) simp_all

lemma content_fill:
  assumes "cache p H s" "cache p H t" "cached s n b" "b_valid (bufs s b) \<noteq> 0"
    "t = upd_buf b (b_data_update (\<lambda>_. d)) s"
  shows "content t = (content s)(n := d)"
proof
  fix m
  have cd: "cached t m a = cached s m a" for m a using assms(5) by (auto simp: cached_def)
  show "content t m = ((content s)(n := d)) m"
  proof (cases "m = n")
    case True
    have "cached t n b" "b_valid (bufs t b) \<noteq> 0" using assms(3-5) cd by simp_all
    then have "content t n = b_data (bufs t b)" by (rule content_cached [OF assms(2)])
    then show ?thesis using True assms(5) by simp
  next
    case False
    have "content t m = content s m"
      by (rule content_cong) (use False assms(3,5) in \<open>auto simp: cd cached_def\<close>)
    then show ?thesis using False by simp
  qed
qed

lemma busy_bwrite:
  assumes "busy p N H s" "b \<in> H" "cached s n b" "b_valid (bufs s b) \<noteq> 0"
  obtains t where "bwrite b s = Ret () t" "busy p N H t" "bframe s t"
    "disk t = (disk s)(n := b_data (bufs s b))" "disk_trace t = disk_trace s @ [(n, b_data (bufs s b))]"
    "\<And>m. content t m = content s m" "\<And>c. core (bufs t c) = core ((bufs s c)\<lparr>b_disk := b_disk (bufs t c)\<rparr>)"
proof -
  let ?d = "b_data (bufs s b)"
  define t where "t = s\<lparr>bufs := (bufs s)(b := (bufs s b)\<lparr>b_disk := 0\<rparr>), disk := (disk s)(n := ?d),
    disk_trace := disk_trace s @ [(n, ?d)]\<rparr>"
  note c = busyD [OF assms(1)]
  have n: "b_blockno (bufs s b) = n" using assms(3) by (simp add: cached_def)
  have w: "bwrite b s = Ret () t" using bwrite_held [OF c(1) assms(2)] by (simp add: n t_def)
  have b: "busy p N H t"
    unfolding t_def using assms(1,2) n by (intro busy_change [where d = ?d and k = 0]) simp_all
  have cd: "cached t m a = cached s m a" "b_valid (bufs t a) = b_valid (bufs s a)"
    "b_data (bufs t a) = b_data (bufs s a)" for m a by (auto simp: t_def cached_def)
  have "content t m = content s m" for m
  proof (cases "m = n")
    case True
    have "content t n = b_data (bufs t b)"
      by (rule content_cached [OF busyD(1) [OF b]]) (use cd assms(3,4) in simp_all)
    then show ?thesis using True content_cached [OF c(1) assms(3,4)] cd by simp
  next
    case False
    then show ?thesis by (intro content_cong) (simp_all add: cd, simp add: t_def)
  qed
  moreover have "bframe s t" "disk t = (disk s)(n := ?d)" "disk_trace t = disk_trace s @ [(n, ?d)]"
    by (simp_all add: t_def bframe_def)
  moreover have "core (bufs t c) = core ((bufs s c)\<lparr>b_disk := b_disk (bufs t c)\<rparr>)" for c by (simp add: t_def)
  ultimately show ?thesis using that w b by blast
qed

lemma busy_brelse:
  assumes "busy p N H s" "b \<in> H" "cached s n b" "n \<in> N \<or> b_data (bufs s b) = disk s n"
  obtains t where "brelse b s = Ret () t" "busy p N (H - {b}) t" "bframe s t" "disk t = disk s"
    "disk_trace t = disk_trace s" "\<And>m. content t m = content s m" "\<And>c. c \<noteq> b \<Longrightarrow> core (bufs t c) = core (bufs s c)"
proof -
  define t where "t = drop_sl (SL_buf b) (s\<lparr>bufs := released b (bufs s)\<rparr>)"
  note c = busyD [OF assms(1)]
  have n: "b_blockno (bufs s b) = n" "b < NBUF" "b_dev (bufs s b) = ROOTDEV" using assms(3) by (simp_all add: cached_def)
  have "b_refcnt (bufs s b) = 1 \<Longrightarrow> n \<notin> N" using c(4) [OF assms(3)] assms(2) by auto
  then have ct: "cache p (H - {b}) t"
    unfolding t_def using assms(4) n by (intro cache_release [OF c(1) assms(2)]) blast
  have k: "core (bufs t a) = core (if a = b then less_ref (bufs s b) else bufs s a)" for a
    by (simp add: t_def core_released)
  have f: "b_valid (bufs t a) = b_valid (bufs s a)" "b_dev (bufs t a) = b_dev (bufs s a)"
    "b_blockno (bufs t a) = b_blockno (bufs s a)" "b_data (bufs t a) = b_data (bufs s a)"
    "b_refcnt (bufs t a) = (if a = b then b_refcnt (bufs s b) - 1 else b_refcnt (bufs s a))" for a
    using coreD [OF k [of a]] by (simp_all add: less_ref_def split: if_splits)
  have cd: "cached t m a = cached s m a" for m a by (simp add: cached_def f)
  have "b_refcnt (bufs t a) = (if b_dev (bufs t a) = ROOTDEV \<and> b_blockno (bufs t a) \<in> N then 1 else 0) +
      (if a \<in> H - {b} then 1 else 0)" if "a < NBUF" for a
    unfolding f using c(5) [OF that] c(5) [OF n(2)] assms(2) by (cases "a = b") simp_all
  then have "busy p N (H - {b}) t" unfolding busy_def using ct c(2,3) cd f(1) by simp
  moreover have d: "disk t = disk s" "disk_trace t = disk_trace s" by (simp_all add: t_def)
  moreover have "content t m = content s m" for m by (intro content_cong) (simp_all add: cd f d)
  moreover have "bframe s t" by (simp add: t_def bframe_def wake_set_def upd_sl_def)
  ultimately show ?thesis using that k brelse_held [OF c(1) assms(2)] unfolding t_def [symmetric] by simp
qed

lemma busy_bunpin:
  assumes "busy p N H s" "b \<in> H" "cached s n b" "n \<in> N"
  obtains t where "bunpin b s = Ret () t" "busy p (N - {n}) H t" "bframe s t" "disk t = disk s"
    "disk_trace t = disk_trace s" "\<And>m. content t m = content s m"
    "\<And>c. core (bufs t c) = core ((bufs s c)\<lparr>b_refcnt := b_refcnt (bufs t c)\<rparr>)"
proof -
  define t where "t = upd_buf b less_ref s"
  note c = busyD [OF assms(1)]
  have n: "b_blockno (bufs s b) = n" "b < NBUF" "b_dev (bufs s b) = ROOTDEV" using assms(3) by (simp_all add: cached_def)
  have r: "b_refcnt (bufs s b) = 2" using c(4) [OF assms(3)] assms(2,4) by simp
  have "cache p H t" unfolding t_def upd_buf_full
    by (rule cache_change [OF c(1) assms(2)]) (simp_all add: less_ref_def r)
  moreover have cd: "cached t m a = cached s m a" "b_valid (bufs t a) = b_valid (bufs s a)"
    "b_data (bufs t a) = b_data (bufs s a)" "b_dev (bufs t a) = b_dev (bufs s a)"
    "b_blockno (bufs t a) = b_blockno (bufs s a)" for m a
    by (auto simp: t_def cached_def less_ref_def)
  moreover have "b_refcnt (bufs t a) = (if b_dev (bufs t a) = ROOTDEV \<and> b_blockno (bufs t a) \<in> N - {n} then 1 else 0) +
      (if a \<in> H then 1 else 0)" if a: "a < NBUF" for a
  proof (cases "a = b")
    case True
    then show ?thesis using r n assms(2) cd by (simp add: t_def less_ref_def)
  next
    case False
    have "\<not> (b_dev (bufs s a) = ROOTDEV \<and> b_blockno (bufs s a) = n)"
      using cacheD(5) [OF c(1), of n a b] assms(3) False a by (auto simp: cached_def)
    then show ?thesis using c(5) [OF a] False by (auto simp: t_def)
  qed
  ultimately have "busy p (N - {n}) H t" unfolding busy_def using c(2,3) by simp
  moreover have "bunpin b s = Ret () t"
    using cacheD(1) [OF c(1)] by (simp add: bunpin_def Let_def t_def less_ref_def)
  moreover have "bframe s t" "disk t = disk s" "disk_trace t = disk_trace s" by (simp_all add: t_def bframe_def upd_buf_def)
  moreover have "content t m = content s m" for m by (intro content_cong) (simp_all add: cd, simp add: t_def)
  moreover have "core (bufs t c) = core ((bufs s c)\<lparr>b_refcnt := b_refcnt (bufs t c)\<rparr>)" for c
    by (simp add: t_def less_ref_def core_def)
  ultimately show ?thesis using that by blast
qed

section \<open>The cache at boot\<close>

lemma fronted_all:
  assumes "link bs bhead bhead" "distinct xs" "bhead \<notin> set xs"
  shows "successively (link (fold fronted xs bs)) (bhead # rev xs @ [bhead])"
  using assms(2,3)
proof (induction xs rule: rev_induct)
  case (snoc x xs)
  then show ?case using fronted_list [of "fold fronted xs bs" "rev xs" x] by simp
qed (simp add: assms(1))

lemma core_fold [simp]: "core (fold fronted xs bs b) = core (bs b)"
  by (induction xs arbitrary: bs) simp_all

abbreviation binit_turn :: "nat \<Rightarrow> 'a bio_state_scheme \<Rightarrow> 'a bio_state_scheme" where
  "binit_turn b s \<equiv>
     (let s = upd_buf b (b_next_update (\<lambda>_. b_next (bufs s bhead))) s;
          s = upd_buf b (b_prev_update (\<lambda>_. bhead)) s;
          s = initsleeplock (SL_buf b) ''buffer'' s
      in push_head b s)"

lemma binit_turn:
  "bufs (binit_turn x s) = fronted x (bufs s)"
  "sl_locked (sleeplocks (binit_turn x s) (SL_buf b)) = (if b = x then 0 else sl_locked (sleeplocks s (SL_buf b)))"
  by (simp_all add: Let_def fronted_def upd_buf_def push_head_def initsleeplock_def initlock_def upd_sl_def)

lemma binit_fold:
  "bufs (fold binit_turn xs s) = fold fronted xs (bufs s)"
  "b \<in> set xs \<or> sl_locked (sleeplocks s (SL_buf b)) = 0 \<Longrightarrow> sl_locked (sleeplocks (fold binit_turn xs s) (SL_buf b)) = 0"
proof -
  show "bufs (fold binit_turn xs s) = fold fronted xs (bufs s)"
    by (induction xs arbitrary: s) (simp_all only: fold_simps binit_turn)
  show "b \<in> set xs \<or> sl_locked (sleeplocks s (SL_buf b)) = 0 \<Longrightarrow> sl_locked (sleeplocks (fold binit_turn xs s) (SL_buf b)) = 0"
  proof (induction xs arbitrary: s)
    case (Cons x xs)
    have "b \<in> set xs \<or> sl_locked (sleeplocks (binit_turn x s) (SL_buf b)) = 0"
      unfolding binit_turn(2) using Cons.prems by auto
    then show ?case unfolding fold_simps by (rule Cons.IH)
  qed simp
qed

lemma binit_bufs:
  "lru (bufs (binit s)) (rev [0..<NBUF])" "core (bufs (binit s) b) = core (bufs s b)"
  "b < NBUF \<Longrightarrow> sl_locked (sleeplocks (binit s) (SL_buf b)) = 0"
proof -
  let ?s = "initlock L_bcache ''bcache'' s"
  let ?h = "upd_buf bhead (b_next_update (\<lambda>_. bhead)) (upd_buf bhead (b_prev_update (\<lambda>_. bhead)) ?s)"
  have e: "bufs (binit s) = fold fronted [0..<NBUF] (bufs ?h)" by (simp only: binit_def Let_def [of ?s] Let_def [of "upd_buf bhead _ _"] binit_fold)
  have "link (bufs ?h) bhead bhead" by (simp add: link_def)
  then show "lru (bufs (binit s)) (rev [0..<NBUF])" unfolding e lru_def using fronted_all by auto
  show "core (bufs (binit s) b) = core (bufs s b)" unfolding e by (simp add: initlock_def)
  show "b < NBUF \<Longrightarrow> sl_locked (sleeplocks (binit s) (SL_buf b)) = 0"
    by (simp only: binit_def Let_def [of ?s] Let_def [of "upd_buf bhead _ _"]) (rule binit_fold, simp)
qed

lemma calm_init: "calm p s \<Longrightarrow> calm p (initlock lk nm s)"
  by (simp add: calm_def initlock_def lock_free_def cpu_defs)

definition inited :: "'a bio_state_scheme \<Rightarrow> 'a bio_state_scheme \<Rightarrow> bool" where
  "inited s t \<longleftrightarrow> t = s\<lparr>locks := locks t, sleeplocks := sleeplocks t, bufs := bufs t\<rparr>"

lemma inited_trans:
  assumes "inited s t" "inited t u"
  shows "inited s u"
proof -
  have "u = t\<lparr>locks := locks u, sleeplocks := sleeplocks u, bufs := bufs u\<rparr>" using assms(2) by (simp add: inited_def)
  also have "\<dots> = s\<lparr>locks := locks u, sleeplocks := sleeplocks u, bufs := bufs u\<rparr>"
    by (subst assms(1) [unfolded inited_def]) simp
  finally show ?thesis unfolding inited_def .
qed

lemma binit_frame:
  "inited s (binit s)" "calm p s \<Longrightarrow> calm p (binit s)"
proof -
  have t: "inited s (binit_turn b s)" "calm p s \<Longrightarrow> calm p (binit_turn b s)" for b and s :: "'a bio_state_scheme"
  proof -
    show "inited s (binit_turn b s)"
      by (simp add: inited_def Let_def push_head_def initsleeplock_def upd_buf_def upd_sl_def initlock_def)
    have "calm p (binit_turn b s) = calm p (initlock (L_sleep (SL_buf b)) ''sleep lock'' s)"
      by (rule calm_cong) (simp_all add: Let_def push_head_def initsleeplock_def upd_buf_def upd_sl_def initlock_def)
    then show "calm p s \<Longrightarrow> calm p (binit_turn b s)" using calm_init by blast
  qed
  have f: "inited s (fold binit_turn xs s)" "calm p s \<Longrightarrow> calm p (fold binit_turn xs s)" for xs and s :: "'a bio_state_scheme"
  proof -
    show "inited s (fold binit_turn xs s)"
    proof (induction xs arbitrary: s)
      case (Cons x xs)
      show ?case unfolding fold_simps by (rule inited_trans [OF t(1) Cons.IH])
    qed (simp add: inited_def)
    show "calm p s \<Longrightarrow> calm p (fold binit_turn xs s)"
    proof (induction xs arbitrary: s)
      case (Cons x xs)
      show ?case unfolding fold_simps by (rule Cons.IH [OF t(2) [OF Cons.prems]])
    qed simp
  qed
  let ?s = "initlock L_bcache ''bcache'' s"
  let ?h = "upd_buf bhead (b_next_update (\<lambda>_. bhead)) (upd_buf bhead (b_prev_update (\<lambda>_. bhead)) ?s)"
  have e: "binit s = fold binit_turn [0..<NBUF] ?h" by (simp only: binit_def Let_def [of ?s] Let_def [of "upd_buf bhead _ _"])
  have "inited s ?h" by (simp add: inited_def initlock_def upd_buf_def)
  then show "inited s (binit s)" unfolding e by (rule inited_trans [OF _ f(1)])
  show "calm p (binit s)" if "calm p s" unfolding e using calm_init [OF that] by (intro f(2)) simp
qed

text \<open>The buffers are zeroed memory when \<^verbatim>\<open>binit\<close> runs.\<close>

definition blank_buf :: "buf \<Rightarrow> bool" where
  "blank_buf x \<longleftrightarrow> b_dev x = 0 \<and> b_valid x = 0 \<and> b_refcnt x = 0"

lemma binit_busy:
  assumes "\<forall>b<NBUF. blank_buf (bufs s b)" "calm p t" "bufs t = bufs (binit s)"
    "\<forall>b<NBUF. sleeplocks t (SL_buf b) = sleeplocks (binit s) (SL_buf b)"
  shows "busy p {} {} t"
proof -
  have z: "b_dev (bufs t b) = 0" "b_valid (bufs t b) = 0" "b_refcnt (bufs t b) = 0" if "b < NBUF" for b
    using assms(1,3) coreD [OF binit_bufs(2) [of s b]] that by (simp_all add: blank_buf_def)
  then have "\<not> cached t n b" for n b by (auto simp: cached_def)
  moreover have "buf_ok (bufs t b) (disk t)" if "b < NBUF" for b using z [OF that] by (simp add: buf_ok_def)
  moreover have "\<exists>xs. lru (bufs t) xs" using binit_bufs(1) assms(3) by auto
  moreover have "sl_locked (sleeplocks t (SL_buf b)) = 0" if "b < NBUF" for b
    using that assms(4) binit_bufs(3) by simp
  ultimately show ?thesis unfolding busy_def cache_def using assms(2) z by simp
qed

section \<open>Properties\<close>

text \<open>
  C19: \<^verbatim>\<open>bread\<close> returns a buffer that this process has locked and no other buffer has for the block,
  with the current content of the block: what the cache had for it, else what the disk has, in which
  case the buffer taken is the least recently used one nobody refers to.  The contents of all blocks
  stay as they were.  \<^verbatim>\<open>bread\<close> panics when and only when the block is not cached and every
  buffer is in use.
\<close>

theorem bread_coherent:
  assumes "cache p H s" "\<forall>b. cached s n b \<longrightarrow> b \<notin> H \<and> b_refcnt (bufs s b) \<noteq> - 1" "lru (bufs s) xs"
  shows "case find (\<lambda>b. cached s n b) xs of
      Some b \<Rightarrow> (\<exists>t. bread ROOTDEV n s = Ret b t \<and> bread_post p H n s b t)
    | None \<Rightarrow> (case find (\<lambda>b. b_refcnt (bufs s b) = 0) (rev xs) of
        Some b \<Rightarrow> (\<exists>t. bread ROOTDEV n s = Ret b t \<and> bread_post p H n s b t)
      | None \<Rightarrow> bread ROOTDEV n s = Panic ''bget: no buffers'')"
proof (cases "find (\<lambda>b. cached s n b) xs")
  case None
  then have c: "\<nexists>b. cached s n b" using assms(3) by (auto simp: find_None_iff lru_def cached_def)
  show ?thesis
  proof (cases "find (\<lambda>b. b_refcnt (bufs s b) = 0) (rev xs)")
    case f: None
    then have "\<forall>b<NBUF. b_refcnt (bufs s b) \<noteq> 0" using assms(3) by (auto simp: find_None_iff lru_def)
    then show ?thesis using None f bget_full [OF assms(1) c] by (simp add: bread_def)
  next
    case (Some b)
    then show ?thesis using None bread_miss [OF assms(1) c assms(3) Some] by simp
  qed
next
  case (Some b)
  then have "cached s n b" by (auto simp: find_Some_iff)
  then show ?thesis using Some bread_hit [OF assms(1)] assms(2) by simp
qed

definition run_bio :: bio_state where
  "run_bio = sl_state.extend (vm_state.extend (proc_state.extend
       (boot_procs\<lparr>cpus := (\<lambda>_. idle_cpu\<lparr>cpu_proc := Some 1, intena := True\<rparr>)\<rparr>) (vm_state.fields 0 (\<lambda>_. 0)))
       (sl_state.fields (\<lambda>_. \<lparr>sl_locked = 0, sl_name = [], sl_pid = 0\<rparr>)))
     (bio_state.fields (\<lambda>_. \<lparr>b_valid = 0, b_disk = 0, b_dev = 0, b_blockno = 0, b_refcnt = 0, b_prev = 0, b_next = 0,
        b_data = (\<lambda>_. 0)\<rparr>) (\<lambda>_ _. 0) [])"

lemma run_bio_simps:
  "disk run_bio = (\<lambda>_ _. 0)" "uart_ready run_bio" "calm 1 run_bio" "blank_buf (bufs run_bio b)"
  by (simp_all add: run_bio_def bio_state.defs sl_state.defs vm_state.defs proc_state.defs boot_procs_def boot_kmem_def
      kmem_state.defs cons_state.defs idle_console_def uart_ready_def calm_def cpu_defs lock_free_def open_lock_def
      idle_cpu_def blank_buf_def LSR_TX_IDLE_def)

lemma run_binit_simps:
  "disk (binit run_bio) = (\<lambda>_ _. 0)" "uart_ready (binit run_bio)" "calm 1 (binit run_bio)"
proof -
  note e = binit_frame(1) [of run_bio, unfolded inited_def]
  show "disk (binit run_bio) = (\<lambda>_ _. 0)" by (subst e) (simp add: run_bio_simps)
  show "uart_ready (binit run_bio)" by (subst e) (use run_bio_simps(2) in \<open>simp add: uart_ready_def\<close>)
  show "calm 1 (binit run_bio)" by (rule binit_frame(2) [OF run_bio_simps(3)])
qed

lemma run_binit_busy: "busy 1 {} {} (binit run_bio)"
  using binit_busy [of run_bio 1 "binit run_bio"] run_bio_simps(4) run_binit_simps(3) by simp

theorem bread_coherent_witness:
  "\<exists>t. bread ROOTDEV 5 (binit run_bio) = Ret 0 t \<and> cached t 5 0 \<and> b_data (bufs t 0) = (\<lambda>_. 0)"
proof -
  let ?s = "binit run_bio"
  note b = busyD [OF run_binit_busy]
  have z: "b_refcnt (bufs ?s b) = 0" "b_dev (bufs ?s b) = 0" for b
    using coreD [OF binit_bufs(2) [of run_bio b]] run_bio_simps(4) [of b] by (simp_all add: blank_buf_def)
  then have c: "\<not> cached ?s n b" for n b by (simp add: cached_def)
  have "find (\<lambda>b. b_refcnt (bufs ?s b) = 0) (rev (rev [0..<NBUF])) = Some 0"
    using z by (simp add: NBUF_def MAXOPBLOCKS_def upt_conv_Cons)
  moreover have "find (\<lambda>b. cached ?s 5 b) (rev [0..<NBUF]) = None" using c by (simp add: find_None_iff)
  ultimately obtain t where t: "bread ROOTDEV 5 ?s = Ret 0 t" "bread_post 1 {} 5 ?s 0 t"
    using bread_coherent [OF b(1) _ binit_bufs(1) [of run_bio], of 5] c by auto
  have "content ?s 5 = (\<lambda>_. 0)" using content_disk [of ?s 5] c run_binit_simps(1) by simp
  then show ?thesis using t unfolding bread_post_def by (intro exI [of _ t]) simp
qed

end
