(* ===== verification/LogRecovery.thy ===== *)
theory LogRecovery
  imports Log BufferCache
begin

text \<open>
  The log makes a transaction atomic with respect to crashes.  A crash keeps the disk as a prefix of
  the writes of \<^verbatim>\<open>commit\<close> has left it (a single block is written atomically) and forgets everything
  else; at boot \<^verbatim>\<open>recover_from_log\<close> runs on that disk with an empty cache.
\<close>

section \<open>Block numbers of the log\<close>

definition hdr :: "'a log_state_scheme \<Rightarrow> uint32" where
  "hdr s = word_of_int (log_start s)"

definition logno :: "'a log_state_scheme \<Rightarrow> nat \<Rightarrow> uint32" where
  "logno s i = word_of_int (log_start s + int i + 1)"

definition home :: "'a log_state_scheme \<Rightarrow> nat \<Rightarrow> uint32" where
  "home s i = word_of_int (lh_block (log_lh s) i)"

lemma bframe_log:
  assumes "bframe s t"
  shows "log_lh t = log_lh s" "log_start t = log_start s" "log_dev t = log_dev s" "hdr t = hdr s"
    "logno t i = logno s i" "home t i = home s i" "uart_ready t = uart_ready s"
    "log_outstanding t = log_outstanding s" "log_committing t = log_committing s"
proof -
  have e: "t = s\<lparr>uart_out := uart_out t, procs := procs t, sleeplocks := sleeplocks t, bufs := bufs t,
     disk := disk t, disk_trace := disk_trace t\<rparr>" using assms by (simp add: bframe_def)
  have "uart_lsr t = uart_lsr s" "panicking t = panicking s" "panicked t = panicked s" by (subst e, simp)+
  then show "uart_ready t = uart_ready s" by (simp add: uart_ready_def)
  show l: "log_lh t = log_lh s" "log_start t = log_start s" "log_dev t = log_dev s"
    and "log_outstanding t = log_outstanding s" "log_committing t = log_committing s" by (subst e, simp)+
  from l show "hdr t = hdr s" "logno t i = logno s i" "home t i = home s i"
    by (simp_all add: hdr_def logno_def home_def)
qed

lemma bframe_lh:
  assumes "bframe s u"
  shows "bframe (log_lh_update f s) (log_lh_update f u)"
proof -
  have "log_lh_update f u = log_lh_update f (s\<lparr>uart_out := uart_out u, procs := procs u, sleeplocks := sleeplocks u,
      bufs := bufs u, disk := disk u, disk_trace := disk_trace u\<rparr>)"
    by (rule arg_cong [OF assms [unfolded bframe_def]])
  then show ?thesis unfolding bframe_def by simp
qed

lemma cached_core: "core (bufs t b) = core (bufs s b) \<Longrightarrow> cached t n b = cached s n b"
  using coreD [of "bufs t b" "bufs s b"] by (simp add: cached_def)

section \<open>Sequences of block writes\<close>

definition apply_writes :: "(uint32 \<Rightarrow> block) \<Rightarrow> (uint32 \<times> block) list \<Rightarrow> uint32 \<Rightarrow> block" where
  "apply_writes d ws = fold (\<lambda>(n, x) d. d(n := x)) ws d"

lemma apply_writes_simps [simp]:
  "apply_writes d [] = d" "apply_writes d ((n, x) # ws) = apply_writes (d(n := x)) ws"
  "apply_writes d (vs @ ws) = apply_writes (apply_writes d vs) ws"
  by (simp_all add: apply_writes_def)

lemma apply_writes_other: "m \<notin> fst ` set ws \<Longrightarrow> apply_writes d ws m = d m"
proof (induction ws arbitrary: d)
  case (Cons w ws)
  then show ?case by (cases w) simp
qed simp

lemma apply_writes_at:
  assumes "i < n" "inj_on f {..<n}"
  shows "apply_writes d (map (\<lambda>i. (f i, g i)) [0..<n]) (f i) = g i"
  using assms
proof (induction n)
  case (Suc n)
  show ?case
  proof (cases "i = n")
    case False
    then have "f n \<noteq> f i" using Suc.prems by (auto dest: inj_onD)
    moreover have "inj_on f {..<n}" using Suc.prems(2) by (rule inj_on_subset) auto
    ultimately show ?thesis using Suc.IH Suc.prems(1) False by simp
  qed simp
qed simp

text \<open>
  \<open>t\<close> is a state in which the blocks \<open>ws\<close> have been written, by a thread that holds no buffer;
  \<open>N\<close> are the pinned blocks.
\<close>

definition wrote :: "nat \<Rightarrow> uint32 set \<Rightarrow> (uint32 \<times> block) list \<Rightarrow> 'a bio_state_scheme \<Rightarrow> 'a bio_state_scheme \<Rightarrow> bool" where
  "wrote p N ws s t \<longleftrightarrow> busy p N {} t \<and> bframe s t \<and> disk t = apply_writes (disk s) ws \<and>
     disk_trace t = disk_trace s @ ws \<and> content t = apply_writes (content s) ws"

lemma wroteD:
  assumes "wrote p N ws s t"
  shows "busy p N {} t" "bframe s t" "disk t = apply_writes (disk s) ws" "disk_trace t = disk_trace s @ ws"
    "content t = apply_writes (content s) ws"
  using assms by (simp_all add: wrote_def)

lemma wrote_refl: "busy p N {} s \<Longrightarrow> wrote p N [] s s"
  by (simp add: wrote_def)

lemma wrote_trans: "wrote p N vs s t \<Longrightarrow> wrote p M ws t u \<Longrightarrow> wrote p M (vs @ ws) s u"
  unfolding wrote_def using bframe_trans by auto

section \<open>Writing a locked buffer\<close>

lemma fill_write:
  assumes "busy p N H s" "to \<in> H" "cached s dst to" "b_valid (bufs s to) \<noteq> 0"
  obtains t where "bwrite to (upd_buf to (b_data_update (\<lambda>_. d)) s) = Ret () t" "busy p N H t" "bframe s t"
    "disk t = (disk s)(dst := d)" "disk_trace t = disk_trace s @ [(dst, d)]" "content t = (content s)(dst := d)"
    "cached t dst to" "b_data (bufs t to) = d" "\<forall>c. c \<noteq> to \<longrightarrow> core (bufs t c) = core ((bufs s c)\<lparr>b_disk := b_disk (bufs t c)\<rparr>)"
proof -
  let ?u = "upd_buf to (b_data_update (\<lambda>_. d)) s"
  have u: "busy p N H ?u" using assms(1,2) by (rule busy_fill)
  have cu: "cached ?u dst to" using assms(3) by (simp add: cached_def)
  have v: "b_valid (bufs ?u to) \<noteq> 0" using assms(4) by simp
  have content_u: "content ?u = (content s)(dst := d)"
    using assms(3,4) busyD(1) [OF assms(1)] busyD(1) [OF u] by (intro content_fill) simp_all
  obtain t where t: "bwrite to ?u = Ret () t" "busy p N H t" "bframe ?u t"
    "disk t = (disk ?u)(dst := b_data (bufs ?u to))" "disk_trace t = disk_trace ?u @ [(dst, b_data (bufs ?u to))]"
    "\<And>m. content t m = content ?u m" "\<And>c. core (bufs t c) = core ((bufs ?u c)\<lparr>b_disk := b_disk (bufs t c)\<rparr>)"
    by (rule busy_bwrite [OF u assms(2) cu v]) (rule that, assumption+)
  have "bframe s ?u" by (simp add: bframe_def upd_buf_def)
  then have "bframe s t" using t(3) by (rule bframe_trans)
  moreover have "cached t dst to" "b_data (bufs t to) = d"
    using coreD [OF t(7) [of to]] cu by (simp_all add: cached_def)
  moreover have "\<forall>c. c \<noteq> to \<longrightarrow> core (bufs t c) = core ((bufs s c)\<lparr>b_disk := b_disk (bufs t c)\<rparr>)" using t(7) by simp
  ultimately show ?thesis using that t content_u by (simp add: fun_eq_iff)
qed

lemma copy_fill:
  assumes "busy p N H s" "from \<in> H" "to \<in> H" "cached s src from" "cached s dst to" "src \<noteq> dst"
    "b_valid (bufs s to) \<noteq> 0" "b_data (bufs s from) = d"
  obtains t where "bwrite to (upd_buf to (b_data_update (\<lambda>_. d)) s) = Ret () t" "busy p N H t" "bframe s t"
    "disk t = (disk s)(dst := d)" "disk_trace t = disk_trace s @ [(dst, d)]" "content t = (content s)(dst := d)"
    "cached t src from" "cached t dst to" "b_data (bufs t to) = d" "b_data (bufs t from) = d"
proof -
  obtain t where t: "bwrite to (upd_buf to (b_data_update (\<lambda>_. d)) s) = Ret () t" "busy p N H t" "bframe s t"
    "disk t = (disk s)(dst := d)" "disk_trace t = disk_trace s @ [(dst, d)]" "content t = (content s)(dst := d)"
    "cached t dst to" "b_data (bufs t to) = d"
    "\<forall>c. c \<noteq> to \<longrightarrow> core (bufs t c) = core ((bufs s c)\<lparr>b_disk := b_disk (bufs t c)\<rparr>)"
    by (rule fill_write [OF assms(1,3,5,7)]) (rule that, assumption+)
  have "from \<noteq> to" using assms(4-6) by (auto simp: cached_def)
  then have k: "core (bufs t from) = core ((bufs s from)\<lparr>b_disk := b_disk (bufs t from)\<rparr>)" using t(9) by blast
  have "cached t src from" "b_data (bufs t from) = d" using coreD [OF k] assms(4,8) by (simp_all add: cached_def)
  then show ?thesis using that t by blast
qed

text \<open>Locking the buffers of two blocks.\<close>

lemma bread_two:
  assumes "busy p N {} s" "x \<noteq> y" "x \<in> N \<or> card N < NBUF" "y \<in> N \<or> card N < NBUF - 1"
  obtains a u b t where "bread ROOTDEV x s = Ret a u" "bread ROOTDEV y u = Ret b t" "busy p N {a, b} t" "bframe s u" "bframe s t"
    "a \<noteq> b" "cached t x a" "cached t y b" "b_valid (bufs t a) \<noteq> 0" "b_valid (bufs t b) \<noteq> 0"
    "b_data (bufs t a) = content s x" "b_data (bufs t b) = content s y" "content t = content s"
    "disk t = disk s" "disk_trace t = disk_trace s"
proof -
  have c1: "x \<in> N \<or> card N + card ({} :: nat set) < NBUF" using assms(3) by simp
  have e1: "\<forall>b\<in>{}. \<not> cached s x b" by simp
  obtain a u where u: "bread ROOTDEV x s = Ret a u" "busy p N {a} u" "cached u x a" "b_valid (bufs u a) \<noteq> 0"
    "b_data (bufs u a) = content s x" "\<And>m. content u m = content s m" "bframe s u" "disk u = disk s" "disk_trace u = disk_trace s"
    by (rule busy_bread [OF assms(1) e1 c1]) (rule that, assumption+)
  have c2: "y \<in> N \<or> card N + card {a} < NBUF" using assms(4) by auto
  have e2: "\<forall>b\<in>{a}. \<not> cached u y b" using u(3) assms(2) by (auto simp: cached_def)
  obtain b t where t: "bread ROOTDEV y u = Ret b t" "busy p N (insert b {a}) t" "b \<notin> {a}" "cached t y b"
    "b_valid (bufs t b) \<noteq> 0" "b_data (bufs t b) = content u y" "\<And>c. c \<noteq> b \<Longrightarrow> bufs t c = bufs u c"
    "\<And>m. content t m = content u m" "bframe u t" "disk t = disk u" "disk_trace t = disk_trace u"
    by (rule busy_bread [OF u(2) e2 c2]) (rule that, assumption+)
  have a: "bufs t a = bufs u a" "a \<noteq> b" using t(3,7) by auto
  have "busy p N {a, b} t" using t(2) by (simp add: insert_commute)
  moreover have "bframe s t" using u(7) t(9) by (rule bframe_trans)
  moreover have "cached t x a" using u(3) a by (simp add: cached_def)
  ultimately show ?thesis using that [of a u b t] u t a by (simp add: fun_eq_iff)
qed

text \<open>Releasing them.\<close>

lemma brelse_two:
  assumes "busy p N {a, b} s" "a \<noteq> b" "cached s x a" "cached s y b"
    "x \<in> N \<or> b_data (bufs s a) = disk s x" "y \<in> N \<or> b_data (bufs s b) = disk s y"
  obtains u t where "brelse a s = Ret () u" "brelse b u = Ret () t" "busy p N {} t" "bframe s u" "bframe s t"
    "disk t = disk s" "disk_trace t = disk_trace s" "content t = content s"
proof -
  obtain u where u: "brelse a s = Ret () u" "busy p N ({a, b} - {a}) u" "bframe s u" "disk u = disk s"
    "disk_trace u = disk_trace s" "\<And>m. content u m = content s m" "\<And>c. c \<noteq> a \<Longrightarrow> core (bufs u c) = core (bufs s c)"
    by (rule busy_brelse [OF assms(1) insertI1 assms(3,5)]) (rule that, assumption+)
  have k: "core (bufs u b) = core (bufs s b)" using u(7) assms(2) by simp
  have b: "cached u y b" "b_data (bufs u b) = b_data (bufs s b)" "b \<in> {a, b} - {a}"
    using cached_core [OF k] coreD(5) [OF k] assms(2,4) by simp_all
  have e: "y \<in> N \<or> b_data (bufs u b) = disk u y" using assms(6) b(2) u(4) by simp
  obtain t where t: "brelse b u = Ret () t" "busy p N ({a, b} - {a} - {b}) t" "bframe u t" "disk t = disk u"
    "disk_trace t = disk_trace u" "\<And>m. content t m = content u m"
    by (rule busy_brelse [OF u(2) b(3,1) e]) (rule that, assumption+)
  have "{a, b} - {a} - {b} = {}" by auto
  then have "busy p N {} t" using t(2) by (simp only:)
  moreover have "bframe s t" using u(3) t(3) by (rule bframe_trans)
  ultimately show ?thesis using that u t by (simp add: fun_eq_iff)
qed

lemma write_log_turn:
  assumes "busy p N {} s" "log_dev s = 1" "home s i \<in> N" "logno s i \<notin> N" "card N < NBUF"
  shows "\<exists>t. kbind (bread_int (log_dev s) (log_start s + int i + 1) s) (\<lambda>to s.
       kbind (bread_int (log_dev s) (lh_block (log_lh s) i) s) (\<lambda>from s.
       let s = upd_buf to (b_data_update (\<lambda>_. b_data (bufs s from))) s in
       kbind (bwrite to s) (\<lambda>_ s.
       kbind (brelse from s) (\<lambda>_ s.
       brelse to s)))) = Ret () t \<and> wrote p N [(logno s i, content s (home s i))] s t"
proof -
  have ne: "logno s i \<noteq> home s i" using assms(3,4) by auto
  obtain a u b t where t: "bread ROOTDEV (logno s i) s = Ret a u" "bread ROOTDEV (home s i) u = Ret b t" "busy p N {a, b} t"
    "bframe s u" "bframe s t" "a \<noteq> b" "cached t (logno s i) a" "cached t (home s i) b" "b_valid (bufs t a) \<noteq> 0"
    "b_data (bufs t b) = content s (home s i)" "content t = content s" "disk t = disk s" "disk_trace t = disk_trace s"
    by (rule bread_two [OF assms(1) ne disjI2 [OF assms(5)] disjI1 [OF assms(3)]]) (rule that, assumption+)
  let ?d = "content s (home s i)"
  obtain w where w: "bwrite a (upd_buf a (b_data_update (\<lambda>_. ?d)) t) = Ret () w" "busy p N {a, b} w" "bframe t w"
    "disk w = (disk t)(logno s i := ?d)" "disk_trace w = disk_trace t @ [(logno s i, ?d)]"
    "content w = (content t)(logno s i := ?d)" "cached w (home s i) b" "cached w (logno s i) a" "b_data (bufs w a) = ?d"
    by (rule copy_fill [OF t(3) insertI2 [OF singletonI] insertI1 t(8,7) ne [symmetric] t(9,10)]) (rule that, assumption+)
  have r: "busy p N {b, a} w" using w(2) by (simp add: insert_commute)
  have e: "logno s i \<in> N \<or> b_data (bufs w a) = disk w (logno s i)" using w(4,9) by simp
  obtain v z where z: "brelse b w = Ret () v" "brelse a v = Ret () z" "busy p N {} z" "bframe w z"
    "disk z = disk w" "disk_trace z = disk_trace w" "content z = content w"
    by (rule brelse_two [OF r t(6) [symmetric] w(7,8) disjI1 [OF assms(3)] e]) (rule that, assumption+)
  have "bframe s z" using t(5) w(3) z(4) bframe_trans by blast
  then have "wrote p N [(logno s i, ?d)] s z"
    unfolding wrote_def using z w t by simp
  moreover have "log_dev u = 1" "home u i = home s i" using bframe_log [OF t(4)] assms(2) by simp_all
  ultimately show ?thesis
    unfolding logno_def [symmetric] using t(1,2,10) w(1) z(1,2) assms(2)
    by (simp add: ROOTDEV_def Let_def home_def [symmetric])
qed

text \<open>The turn of \<^verbatim>\<open>install_trans\<close> after the message; \<open>N'\<close> are the blocks pinned afterwards.\<close>

lemma install_turn:
  assumes "busy p N {} s" "log_dev s = 1" "logno s i \<notin> N" "logno s i \<noteq> home s i" "card N < NBUF"
    "if r = 0 then home s i \<in> N else N = {}"
  shows "\<exists>t. kbind (bread_int (log_dev s) (log_start s + int i + 1) s) (\<lambda>lbuf s.
       kbind (bread_int (log_dev s) (lh_block (log_lh s) i) s) (\<lambda>dbuf s.
       let s = upd_buf dbuf (b_data_update (\<lambda>_. b_data (bufs s lbuf))) s in
       kbind (bwrite dbuf s) (\<lambda>_ s.
       kbind (if r = (0 :: int) then bunpin dbuf s else Ret () s) (\<lambda>_ s.
       kbind (brelse lbuf s) (\<lambda>_ s.
       brelse dbuf s))))) = Ret () t \<and> wrote p (N - {home s i}) [(home s i, content s (logno s i))] s t"
proof -
  have y: "home s i \<in> N \<or> card N < NBUF - 1" using assms(6) by (auto simp: NBUF_def MAXOPBLOCKS_def split: if_splits)
  obtain a u b t where t: "bread ROOTDEV (logno s i) s = Ret a u" "bread ROOTDEV (home s i) u = Ret b t" "busy p N {a, b} t"
    "bframe s u" "bframe s t" "a \<noteq> b" "cached t (logno s i) a" "cached t (home s i) b" "b_valid (bufs t b) \<noteq> 0"
    "b_data (bufs t a) = content s (logno s i)" "content t = content s" "disk t = disk s" "disk_trace t = disk_trace s"
    by (rule bread_two [OF assms(1,4) disjI2 [OF assms(5)] y]) (rule that, assumption+)
  let ?d = "content s (logno s i)"
  obtain w where w: "bwrite b (upd_buf b (b_data_update (\<lambda>_. ?d)) t) = Ret () w" "busy p N {a, b} w" "bframe t w"
    "disk w = (disk t)(home s i := ?d)" "disk_trace w = disk_trace t @ [(home s i, ?d)]"
    "content w = (content t)(home s i := ?d)" "cached w (logno s i) a" "cached w (home s i) b" "b_data (bufs w b) = ?d"
    "b_data (bufs w a) = ?d"
    by (rule copy_fill [OF t(3) insertI1 insertI2 [OF singletonI] t(7,8) assms(4) t(9,10)]) (rule that, assumption+)
  obtain x where x: "(if r = (0 :: int) then bunpin b w else Ret () w) = Ret () x" "busy p (N - {home s i}) {a, b} x"
    "bframe w x" "disk x = disk w" "disk_trace x = disk_trace w" "content x = content w"
    "cached x (logno s i) a" "cached x (home s i) b" "b_data (bufs x b) = ?d" "b_data (bufs x a) = ?d"
  proof (cases "r = 0")
    case True
    then have N: "home s i \<in> N" using assms(6) by simp
    obtain x where x: "bunpin b w = Ret () x" "busy p (N - {home s i}) {a, b} x" "bframe w x" "disk x = disk w"
      "disk_trace x = disk_trace w" "\<And>m. content x m = content w m"
      "\<And>c. core (bufs x c) = core ((bufs w c)\<lparr>b_refcnt := b_refcnt (bufs x c)\<rparr>)"
      by (rule busy_bunpin [OF w(2) insertI2 [OF singletonI] w(8) N]) (rule that, assumption+)
    show ?thesis
      by (rule that [of x]) (use True x coreD [OF x(7) [of a]] coreD [OF x(7) [of b]] w in \<open>simp_all add: cached_def fun_eq_iff\<close>)
  qed (use that [of w] w assms(6) in simp)
  have e: "logno s i \<in> N - {home s i} \<or> b_data (bufs x a) = disk x (logno s i)"
    using x(4,10) w(4) t(12) assms(3,4) busy_clean [OF assms(1)] by simp
  have e': "home s i \<in> N - {home s i} \<or> b_data (bufs x b) = disk x (home s i)" using x(4,9) w(4) by simp
  obtain v z where z: "brelse a x = Ret () v" "brelse b v = Ret () z" "busy p (N - {home s i}) {} z" "bframe x z"
    "disk z = disk x" "disk_trace z = disk_trace x" "content z = content x"
    by (rule brelse_two [OF x(2) t(6) x(7,8) e e']) (rule that, assumption+)
  have "bframe s z" using t(5) w(3) x(3) z(4) bframe_trans by blast
  then have "wrote p (N - {home s i}) [(home s i, ?d)] s z"
    unfolding wrote_def using z x w t by simp
  moreover have "log_dev u = 1" "home u i = home s i" using bframe_log [OF t(4)] assms(2) by simp_all
  ultimately show ?thesis
    unfolding logno_def [symmetric] using t(1,2,10) w(1) x(1) z(1,2) assms(2)
    by (simp add: ROOTDEV_def Let_def home_def [symmetric])
qed

section \<open>The header block\<close>

text \<open>The header block \<open>d\<close> overwritten with the header \<open>lh\<close>.\<close>

definition head_block :: "logheader \<Rightarrow> block \<Rightarrow> block" where
  "head_block lh d = fold (\<lambda>i. wr32 (4 + 4 * i) (word_of_int (lh_block lh i))) [0..<nat (lh_n lh)]
     (wr32 0 (word_of_int (lh_n lh)) d)"

lemma head_fold:
  "j < n \<Longrightarrow> rd32 (fold (\<lambda>i. wr32 (4 + 4 * i) (f i)) [0..<n] d) (4 + 4 * j) = f j"
  "rd32 (fold (\<lambda>i. wr32 (4 + 4 * i) (f i)) [0..<n] d) 0 = rd32 d 0"
proof -
  show "rd32 (fold (\<lambda>i. wr32 (4 + 4 * i) (f i)) [0..<n] d) 0 = rd32 d 0" by (induction n) simp_all
  show "rd32 (fold (\<lambda>i. wr32 (4 + 4 * i) (f i)) [0..<n] d) (4 + 4 * j) = f j" if "j < n" using that
  proof (induction n)
    case (Suc n)
    then show ?case by (cases "j = n") simp_all
  qed simp
qed

lemma head_block_reads:
  "rd32 (head_block lh d) 0 = word_of_int (lh_n lh)"
  "j < nat (lh_n lh) \<Longrightarrow> rd32 (head_block lh d) (4 + 4 * j) = word_of_int (lh_block lh j)"
  by (simp_all add: head_block_def head_fold)

lemma b_data_id: "upd_buf b (b_data_update (\<lambda>x. x)) s = s"
proof -
  have "b_data_update (\<lambda>x. x) y = y" for y :: buf by (rule buf.equality) simp_all
  then show ?thesis unfolding upd_buf_def by (simp only: fun_upd_triv) simp
qed

lemma write_head_loop:
  "\<forall>i\<in>set is. i < LOGBLOCKS \<Longrightarrow>
   kfor is (\<lambda>i s. if i < LOGBLOCKS
      then Ret () (upd_buf b (b_data_update (wr32 (4 + 4 * i) (word_of_int (lh_block (log_lh s) i)))) s) else Undef) s =
   Ret () (upd_buf b (b_data_update (fold (\<lambda>i. wr32 (4 + 4 * i) (word_of_int (lh_block (log_lh s) i))) is)) s)"
proof (induction "is" arbitrary: s)
  case Nil
  then show ?case by (simp add: id_def b_data_id)
next
  case (Cons i "is")
  have "log_lh (upd_buf b f s) = log_lh s" for f by (simp add: upd_buf_def)
  then show ?case using Cons by (simp add: comp_def)
qed

lemma write_head_ok:
  assumes "busy p N {} s" "log_dev s = 1" "hdr s \<notin> N" "card N < NBUF" "0 \<le> lh_n (log_lh s)" "lh_n (log_lh s) \<le> int LOGBLOCKS"
  shows "\<exists>t. write_head s = Ret () t \<and> wrote p N [(hdr s, head_block (log_lh s) (content s (hdr s)))] s t"
proof -
  let ?d = "head_block (log_lh s) (content s (hdr s))"
  have c: "hdr s \<in> N \<or> card N + card ({} :: nat set) < NBUF" using assms(4) by simp
  have h: "\<forall>b\<in>{}. \<not> cached s (hdr s) b" by simp
  obtain b u where u: "bread ROOTDEV (hdr s) s = Ret b u" "busy p N {b} u" "cached u (hdr s) b" "b_valid (bufs u b) \<noteq> 0"
    "b_data (bufs u b) = content s (hdr s)" "\<And>m. content u m = content s m" "bframe s u" "disk u = disk s" "disk_trace u = disk_trace s"
    by (rule busy_bread [OF assms(1) h c]) (rule that, assumption+)
  obtain w where w: "bwrite b (upd_buf b (b_data_update (\<lambda>_. ?d)) u) = Ret () w" "busy p N {b} w" "bframe u w"
    "disk w = (disk u)(hdr s := ?d)" "disk_trace w = disk_trace u @ [(hdr s, ?d)]" "content w = (content u)(hdr s := ?d)"
    "cached w (hdr s) b" "b_data (bufs w b) = ?d"
    by (rule fill_write [OF u(2) singletonI u(3,4)]) (rule that, assumption+)
  have e: "hdr s \<in> N \<or> b_data (bufs w b) = disk w (hdr s)" using w(4,8) by simp
  obtain t where t: "brelse b w = Ret () t" "busy p N ({b} - {b}) t" "bframe w t" "disk t = disk w"
    "disk_trace t = disk_trace w" "\<And>m. content t m = content w m"
    by (rule busy_brelse [OF w(2) singletonI w(7) e]) (rule that, assumption+)
  have "bframe s t" using u(7) w(3) t(3) bframe_trans by blast
  then have wr: "wrote p N [(hdr s, ?d)] s t"
    unfolding wrote_def using t w u by (simp add: fun_eq_iff)
  let ?n = "lh_n (log_lh s)"
  define v where "v = upd_buf b (b_data_update (wr32 0 (word_of_int ?n))) u"
  have l: "log_lh v = log_lh s" "log_lh u = log_lh s" using bframe_log(1) [OF u(7)] by (simp_all add: v_def upd_buf_def)
  have "upd_buf b (b_data_update (fold (\<lambda>i. wr32 (4 + 4 * i) (word_of_int (lh_block (log_lh s) i))) [0..<nat ?n])) v =
      upd_buf b (b_data_update (\<lambda>_. ?d)) u"
    unfolding v_def by (simp, rule upd_buf_cong, cases "bufs u b") (use u(5) in \<open>simp add: head_block_def\<close>)
  then have "kfor [0..<nat ?n] (\<lambda>i s. if i < LOGBLOCKS
      then Ret () (upd_buf b (b_data_update (wr32 (4 + 4 * i) (word_of_int (lh_block (log_lh s) i)))) s) else Undef) v =
      Ret () (upd_buf b (b_data_update (\<lambda>_. ?d)) u)"
    using write_head_loop [of "[0..<nat ?n]" b v] assms(6) l by (simp add: zless_nat_eq_int_zless)
  then have "write_head s = Ret () t"
    unfolding write_head_def using u(1) w(1) t(1) assms(2) l by (simp add: hdr_def ROOTDEV_def Let_def v_def)
  then show ?thesis using wr by blast
qed

section \<open>A transaction ready to commit\<close>

abbreviation nlog :: "'a log_state_scheme \<Rightarrow> nat" where
  "nlog s \<equiv> nat (lh_n (log_lh s))"

definition log_area :: "'a log_state_scheme \<Rightarrow> uint32 set" where
  "log_area s = insert (hdr s) (logno s ` {..<LOGBLOCKS})"

lemma logno_inj: "inj_on (logno s) {..<LOGBLOCKS}"
proof (rule inj_onI)
  fix i j assume ij: "i \<in> {..<LOGBLOCKS}" "j \<in> {..<LOGBLOCKS}" "logno s i = logno s j"
  then have "(of_nat i :: uint32) = of_nat j" by (simp add: logno_def)
  then show "i = j" using ij(1,2) by (auto simp: LOGBLOCKS_def MAXOPBLOCKS_def word_of_nat_eq_iff take_bit_nat_eq_self)
qed

lemma hdr_logno: "i < LOGBLOCKS \<Longrightarrow> logno s i \<noteq> hdr s"
proof
  assume "i < LOGBLOCKS" "logno s i = hdr s"
  then have "(of_nat (Suc i) :: uint32) = of_nat 0" by (simp add: logno_def hdr_def algebra_simps)
  then show False using \<open>i < LOGBLOCKS\<close>
    by (subst (asm) word_of_nat_eq_iff) (simp add: LOGBLOCKS_def MAXOPBLOCKS_def take_bit_nat_eq_self)
qed

text \<open>
  The blocks of the transaction are distinct, outside the log, and pinned in the cache, with room for
  one more buffer; nothing else is in use.
\<close>

definition trans_ok :: "nat \<Rightarrow> 'a log_state_scheme \<Rightarrow> bool" where
  "trans_ok p s \<longleftrightarrow> busy p (home s ` {..<nlog s}) {} s \<and> log_dev s = 1 \<and> 0 \<le> lh_n (log_lh s) \<and> nlog s < NBUF \<and>
     inj_on (home s) {..<nlog s} \<and> (\<forall>i<nlog s. home s i \<notin> log_area s)"

lemma trans_okD:
  assumes "trans_ok p s"
  shows "busy p (home s ` {..<nlog s}) {} s" "log_dev s = 1" "0 \<le> lh_n (log_lh s)" "nlog s < NBUF" "nlog s < LOGBLOCKS"
    "inj_on (home s) {..<nlog s}" "i < nlog s \<Longrightarrow> home s i \<notin> log_area s" "inj_on (logno s) {..<nlog s}"
proof -
  show n: "nlog s < NBUF" "nlog s < LOGBLOCKS" using assms by (simp_all add: trans_ok_def NBUF_def LOGBLOCKS_def)
  show "inj_on (logno s) {..<nlog s}" using n(2) by (intro inj_on_subset [OF logno_inj]) auto
qed (use assms in \<open>simp_all add: trans_ok_def\<close>)

lemma logno_area: "i < LOGBLOCKS \<Longrightarrow> logno s i \<in> log_area s"
  by (simp add: log_area_def)

lemma trans_apart:
  assumes "trans_ok p s"
  shows "i < nlog s \<Longrightarrow> j < nlog s \<Longrightarrow> logno s i \<noteq> home s j" "hdr s \<notin> home s ` {..<nlog s}"
    "i < nlog s \<Longrightarrow> logno s i \<notin> home s ` {..<nlog s}" "card (home s ` {..<nlog s}) < NBUF"
    "i < nlog s \<Longrightarrow> logno s i \<noteq> hdr s"
proof -
  note ok = trans_okD [OF assms]
  show ne: "logno s i \<noteq> home s j" if "i < nlog s" "j < nlog s" for i j
    using logno_area [of i s] ok(7) [OF that(2)] that(1) ok(5) by auto
  then show "i < nlog s \<Longrightarrow> logno s i \<notin> home s ` {..<nlog s}" by auto
  have "home s j \<noteq> hdr s" if "j < nlog s" for j using ok(7) [OF that] by (simp add: log_area_def)
  then show "hdr s \<notin> home s ` {..<nlog s}" by fastforce
  show "card (home s ` {..<nlog s}) < NBUF" using card_image [OF ok(6)] ok(4) by simp
  show "logno s i \<noteq> hdr s" if "i < nlog s" using that ok(5) by (intro hdr_logno) simp
qed

definition log_writes :: "'a log_state_scheme \<Rightarrow> nat \<Rightarrow> (uint32 \<times> block) list" where
  "log_writes s n = map (\<lambda>i. (logno s i, content s (home s i))) [0..<n]"

lemma write_log_ok:
  assumes "trans_ok p s"
  shows "\<exists>t. write_log s = Ret () t \<and> wrote p (home s ` {..<nlog s}) (log_writes s (nlog s)) s t"
  unfolding write_log_def
proof (rule kfor_upt [where P = "\<lambda>i. wrote p (home s ` {..<nlog s}) (log_writes s i) s"])
  let ?N = "home s ` {..<nlog s}"
  note ok = trans_okD [OF assms]
  show "wrote p ?N (log_writes s 0) s s" using ok(1) by (simp add: log_writes_def wrote_refl)
  fix i t assume i: "i < nlog s" and w: "wrote p ?N (log_writes s i) s t"
  note b = bframe_log [OF wroteD(2) [OF w]]
  have a: "home s i \<in> ?N" "logno s i \<notin> ?N" "card ?N < NBUF"
    using i trans_apart(3,4) [OF assms] by auto
  have "logno s j \<noteq> home s i" if "j < i" for j using trans_apart(1) [OF assms _ i, of j] i that by simp
  then have "home s i \<notin> fst ` set (log_writes s i)" by (fastforce simp: log_writes_def)
  then have c: "content t (home s i) = content s (home s i)" using wroteD(5) [OF w] by (simp add: apply_writes_other)
  obtain u where u: "kbind (bread_int (log_dev t) (log_start t + int i + 1) t) (\<lambda>to s.
       kbind (bread_int (log_dev s) (lh_block (log_lh s) i) s) (\<lambda>from s.
       let s = upd_buf to (b_data_update (\<lambda>_. b_data (bufs s from))) s in
       kbind (bwrite to s) (\<lambda>_ s. kbind (brelse from s) (\<lambda>_ s. brelse to s)))) = Ret () u"
    "wrote p ?N [(logno s i, content s (home s i))] t u"
    using write_log_turn [OF wroteD(1) [OF w], of i] a ok(2) b c by auto
  have "wrote p ?N (log_writes s (Suc i)) s u"
    using wrote_trans [OF w u(2)] by (simp add: log_writes_def)
  then show "\<exists>u. kbind (bread_int (log_dev t) (log_start t + int i + 1) t) (\<lambda>to s.
       kbind (bread_int (log_dev s) (lh_block (log_lh s) i) s) (\<lambda>from s.
       let s = upd_buf to (b_data_update (\<lambda>_. b_data (bufs s from))) s in
       kbind (bwrite to s) (\<lambda>_ s. kbind (brelse from s) (\<lambda>_ s. brelse to s)))) = Ret () u \<and>
    wrote p ?N (log_writes s (Suc i)) s u" using u(1) by blast
qed

section \<open>Installing the blocks of the log\<close>

lemma sent_frame [simp]:
  "busy p N H (sent txt s) = busy p N H s" "content (sent txt s) = content s" "bframe s (sent txt s)"
proof -
  have c: "cached (sent txt s) n b = cached s n b" for n b by (simp add: cached_def)
  have "calm p (sent txt s) = calm p s" by (rule calm_cong) simp_all
  then show "busy p N H (sent txt s) = busy p N H s" by (simp add: busy_def cache_def c)
  show "content (sent txt s) = content s" by (rule ext, rule content_cong) (simp_all add: c)
  show "bframe s (sent txt s)" by (simp add: bframe_def)
qed

lemma recovering_text:
  "\<exists>txt. printf_text ''recovering tail %d dst %d\<newline>'' [PWord x, PWord y] = Some txt"
  by (simp add: directive_of_def char_at_def directive_text_def)

lemma recovering_message:
  assumes "busy p N {} s" "uart_ready s"
  shows "\<exists>t. printf ''recovering tail %d dst %d\<newline>'' [PWord x, PWord y] s = Ret 0 t \<and> wrote p N [] s t"
proof -
  have "calm p s" using cacheD(1) [OF busyD(1) [OF assms(1)]] .
  then show ?thesis
    using recovering_text [of x y] assms by (auto simp: printf_eq wrote_def)
qed

definition home_writes :: "'a log_state_scheme \<Rightarrow> nat \<Rightarrow> (uint32 \<times> block) list" where
  "home_writes s n = map (\<lambda>i. (home s i, content s (logno s i))) [0..<n]"

definition pinned :: "int \<Rightarrow> 'a log_state_scheme \<Rightarrow> nat \<Rightarrow> uint32 set" where
  "pinned r s i = (if r = 0 then home s ` {i..<nlog s} else {})"

lemma pinned_Suc: "inj_on (home s) {..<nlog s} \<Longrightarrow> i < nlog s \<Longrightarrow> pinned r s i - {home s i} = pinned r s (Suc i)"
proof -
  assume a: "inj_on (home s) {..<nlog s}" "i < nlog s"
  then have "{i..<nlog s} = insert i {Suc i..<nlog s}" by auto
  moreover have "home s i \<notin> home s ` {Suc i..<nlog s}" using a by (auto dest: inj_onD)
  ultimately show ?thesis by (auto simp: pinned_def)
qed

text \<open>One turn of the loop, with its message.\<close>

lemma install_body:
  assumes "busy p N {} s" "log_dev s = 1" "logno s i \<notin> N" "logno s i \<noteq> home s i" "card N < NBUF"
    "if r = 0 then home s i \<in> N else N = {}" "r \<noteq> 0 \<longrightarrow> uart_ready s"
  shows "\<exists>t. kbind (if r \<noteq> (0 :: int)
              then printf ''recovering tail %d dst %d\<newline>''
                     [PWord (of_nat i), PWord (of_cint (lh_block (log_lh s) i))] s
              else Ret 0 s) (\<lambda>_ s.
       kbind (bread_int (log_dev s) (log_start s + int i + 1) s) (\<lambda>lbuf s.
       kbind (bread_int (log_dev s) (lh_block (log_lh s) i) s) (\<lambda>dbuf s.
       let s = upd_buf dbuf (b_data_update (\<lambda>_. b_data (bufs s lbuf))) s in
       kbind (bwrite dbuf s) (\<lambda>_ s.
       kbind (if r = 0 then bunpin dbuf s else Ret () s) (\<lambda>_ s.
       kbind (brelse lbuf s) (\<lambda>_ s.
       brelse dbuf s)))))) = Ret () t \<and> wrote p (N - {home s i}) [(home s i, content s (logno s i))] s t"
proof -
  obtain u where u: "(if r \<noteq> 0
              then printf ''recovering tail %d dst %d\<newline>''
                     [PWord (of_nat i), PWord (of_cint (lh_block (log_lh s) i))] s
              else Ret 0 s) = Ret 0 u" "wrote p N [] s u"
    using recovering_message [OF assms(1)] wrote_refl [OF assms(1)] assms(7) by (cases "r = 0") auto
  note b = bframe_log [OF wroteD(2) [OF u(2)]]
  have "content u (logno s i) = content s (logno s i)" using wroteD(5) [OF u(2)] by simp
  then have "\<exists>t. kbind (bread_int (log_dev u) (log_start u + int i + 1) u) (\<lambda>lbuf s.
       kbind (bread_int (log_dev s) (lh_block (log_lh s) i) s) (\<lambda>dbuf s.
       let s = upd_buf dbuf (b_data_update (\<lambda>_. b_data (bufs s lbuf))) s in
       kbind (bwrite dbuf s) (\<lambda>_ s.
       kbind (if r = 0 then bunpin dbuf s else Ret () s) (\<lambda>_ s.
       kbind (brelse lbuf s) (\<lambda>_ s.
       brelse dbuf s))))) = Ret () t \<and> wrote p (N - {home s i}) [(home s i, content s (logno s i))] u t"
    using install_turn [OF wroteD(1) [OF u(2)], of i r] assms b by simp
  then show ?thesis
    unfolding u(1) kbind.simps using wrote_trans [OF u(2)] by auto
qed

lemma install_ok:
  assumes "busy p (pinned r s 0) {} s" "log_dev s = 1" "r = 0 \<longrightarrow> nlog s < NBUF" "inj_on (home s) {..<nlog s}"
    "\<forall>i<nlog s. \<forall>j<nlog s. logno s i \<noteq> home s j" "r \<noteq> 0 \<longrightarrow> uart_ready s"
  shows "\<exists>t. install_trans r s = Ret () t \<and> wrote p {} (home_writes s (nlog s)) s t"
proof -
  have "\<exists>t. install_trans r s = Ret () t \<and> wrote p (pinned r s (nlog s)) (home_writes s (nlog s)) s t"
    unfolding install_trans_def
  proof (rule kfor_upt [where P = "\<lambda>i. wrote p (pinned r s i) (home_writes s i) s"], goal_cases)
    case 1
    show ?case using assms(1) by (simp add: home_writes_def wrote_refl)
  next
    case (2 i t)
    note w = wroteD [OF 2(2)] and b = bframe_log [OF wroteD(2) [OF 2(2)]]
    have "\<forall>j<i. home s j \<noteq> logno s i" using assms(5) 2(1) by (metis order.strict_trans)
    then have "logno s i \<notin> fst ` set (home_writes s i)" by (fastforce simp: home_writes_def)
    then have c: "content t (logno s i) = content s (logno s i)" using w(5) by (simp add: apply_writes_other)
    have "card (pinned r s i) \<le> (if r = 0 then nlog s else 0)"
      unfolding pinned_def using card_image_le [of "{i..<nlog s}" "home s"] by auto
    then have "card (pinned r s i) < NBUF" using assms(3) by (simp add: NBUF_def MAXOPBLOCKS_def split: if_splits)
    moreover have "logno s i \<notin> pinned r s i" using assms(5) 2(1) by (auto simp: pinned_def)
    moreover have "logno s i \<noteq> home s i" using assms(5) 2(1) by blast
    moreover have "if r = 0 then home s i \<in> pinned r s i else pinned r s i = {}" using 2(1) by (simp add: pinned_def)
    ultimately have turn: "logno t i \<notin> pinned r s i" "logno t i \<noteq> home t i" "card (pinned r s i) < NBUF"
      "if r = 0 then home t i \<in> pinned r s i else pinned r s i = {}" "r \<noteq> 0 \<longrightarrow> uart_ready t" "log_dev t = 1"
      using b assms(2,6) by (auto split: if_splits)
    have next_writes: "wrote p (pinned r s (Suc i)) (home_writes s (Suc i)) s u"
      if "wrote p (pinned r s i - {home t i}) [(home t i, content t (logno t i))] t u" for u
      using wrote_trans [OF 2(2) that] b c pinned_Suc [OF assms(4) 2(1), of r] by (simp add: home_writes_def)
    show ?case
      by (rule ex_forward [OF install_body [OF w(1) turn(6,1-5)]]) (blast intro: next_writes)
  qed
  moreover have "pinned r s (nlog s) = {}" by (simp add: pinned_def)
  ultimately show ?thesis by simp
qed

section \<open>The writes of a commit\<close>

lemma lh_frame [simp]:
  "busy p N H (log_lh_update f s) = busy p N H s" "content (log_lh_update f s) = content s"
  "hdr (log_lh_update f s) = hdr s" "logno (log_lh_update f s) = logno s"
  "uart_ready (log_lh_update f s) = uart_ready s"
proof -
  have c: "cached (log_lh_update f s) n b = cached s n b" for n b by (simp add: cached_def)
  have "calm p (log_lh_update f s) = calm p s" by (rule calm_cong) simp_all
  then show "busy p N H (log_lh_update f s) = busy p N H s" by (simp add: busy_def cache_def c)
  show "content (log_lh_update f s) = content s" by (rule ext, rule content_cong) (simp_all add: c)
qed (simp_all add: hdr_def logno_def uart_ready_def fun_eq_iff)

definition head_on :: "'a log_state_scheme \<Rightarrow> block" where
  "head_on s = head_block (log_lh s) (disk s (hdr s))"

definition head_off :: "'a log_state_scheme \<Rightarrow> block" where
  "head_off s = head_block ((log_lh s)\<lparr>lh_n := 0\<rparr>) (head_on s)"

definition install_writes :: "'a log_state_scheme \<Rightarrow> (uint32 \<times> block) list" where
  "install_writes s = map (\<lambda>i. (home s i, content s (home s i))) [0..<nlog s]"

definition commit_writes :: "'a log_state_scheme \<Rightarrow> (uint32 \<times> block) list" where
  "commit_writes s = log_writes s (nlog s) @ [(hdr s, head_on s)] @ install_writes s @ [(hdr s, head_off s)]"

lemma not_written:
  assumes "trans_ok p s"
  shows "hdr s \<notin> fst ` set (log_writes s (nlog s))" "hdr s \<notin> fst ` set (install_writes s)"
    "i < nlog s \<Longrightarrow> home s i \<notin> fst ` set (log_writes s (nlog s))"
    "i < nlog s \<Longrightarrow> logno s i \<notin> fst ` set (install_writes s)"
proof -
  note ap = trans_apart [OF assms]
  have e: "fst ` set (log_writes s (nlog s)) = logno s ` {..<nlog s}" "fst ` set (install_writes s) = home s ` {..<nlog s}"
    by (simp_all add: log_writes_def install_writes_def image_image atLeast0LessThan)
  show "hdr s \<notin> fst ` set (log_writes s (nlog s))" unfolding e using ap(5) by (metis imageE lessThan_iff)
  show "hdr s \<notin> fst ` set (install_writes s)" unfolding e by (rule ap(2))
  show "home s i \<notin> fst ` set (log_writes s (nlog s))" if "i < nlog s"
    unfolding e using ap(1) [OF _ that] by (metis imageE lessThan_iff)
  show "logno s i \<notin> fst ` set (install_writes s)" if "i < nlog s" unfolding e using that by (rule ap(3))
qed

lemma commit_ok:
  assumes "trans_ok p s" "0 < nlog s"
  shows "\<exists>t. commit s = Ret () t \<and> busy p {} {} t \<and> disk t = apply_writes (disk s) (commit_writes s) \<and>
    disk_trace t = disk_trace s @ commit_writes s \<and> content t = apply_writes (content s) (commit_writes s) \<and>
    lh_n (log_lh t) = 0 \<and> bframe (s\<lparr>log_lh := log_lh t\<rparr>) t"
proof -
  let ?N = "home s ` {..<nlog s}" and ?h1 = "[(hdr s, head_on s)]" and ?h0 = "[(hdr s, head_off s)]"
  note ok = trans_okD [OF assms(1)] and ap = trans_apart [OF assms(1)] and nw = not_written [OF assms(1)]
  obtain a where a: "write_log s = Ret () a" "wrote p ?N (log_writes s (nlog s)) s a" using write_log_ok [OF assms(1)] by blast
  note la = bframe_log [OF wroteD(2) [OF a(2)]]
  have "content a (hdr s) = disk s (hdr s)"
    using wroteD(5) [OF a(2)] nw(1) busy_clean [OF ok(1) ap(2)] by (simp add: apply_writes_other)
  moreover have "lh_n (log_lh s) \<le> int LOGBLOCKS" using ok(5) by linarith
  ultimately obtain b where b: "write_head a = Ret () b" "wrote p ?N ?h1 a b"
    using write_head_ok [OF wroteD(1) [OF a(2)]] la(1,3,4) ok(2,3) ap(2,4) by (auto simp: head_on_def)
  note lb = bframe_log [OF wroteD(2) [OF b(2)]] and sb = wrote_trans [OF a(2) b(2)]
  have "content b (logno s i) = content s (home s i)" if "i < nlog s" for i
    using wroteD(5) [OF sb] apply_writes_at [OF that ok(8), of "content s"] ap(5) [OF that] by (simp add: log_writes_def)
  then have hw: "home_writes b (nlog b) = install_writes s"
    by (simp add: home_writes_def install_writes_def la lb)
  have hb: "home b = home s" by (simp add: fun_eq_iff la lb)
  have "busy p (pinned 0 b 0) {} b" using wroteD(1) [OF b(2)] by (simp add: pinned_def la lb atLeast0LessThan)
  then obtain c where c: "install_trans 0 b = Ret () c" "wrote p {} (install_writes s) b c"
    using install_ok [of p 0 b] ok(2,4,6) ap(1) hw hb by (auto simp: la lb)
  note lc = bframe_log [OF wroteD(2) [OF c(2)]] and sc = wrote_trans [OF sb c(2)]
  let ?c = "c\<lparr>log_lh := (log_lh c)\<lparr>lh_n := 0\<rparr>\<rparr>"
  have "content c (hdr s) = head_on s"
    using wroteD(5) [OF c(2)] wroteD(5) [OF b(2)] nw(2) by (simp add: apply_writes_other)
  then obtain d where d: "write_head ?c = Ret () d" "wrote p {} ?h0 ?c d"
    using write_head_ok [of p "{}" ?c] wroteD(1) [OF c(2)] la lb lc ok(2)
    by (auto simp: head_off_def NBUF_def MAXOPBLOCKS_def)
  have "commit s = Ret () d" using a(1) b(1) c(1) d(1) assms(2) by (simp add: commit_def Let_def)
  moreover have ld: "log_lh d = (log_lh c)\<lparr>lh_n := 0\<rparr>" using bframe_log(1) [OF wroteD(2) [OF d(2)]] by simp
  moreover have "bframe (s\<lparr>log_lh := log_lh d\<rparr>) d"
    using bframe_trans [OF bframe_lh [OF wroteD(2) [OF sc], of "\<lambda>_. log_lh d"]] wroteD(2) [OF d(2)] ld by simp
  ultimately show ?thesis
    using wroteD [OF d(2)] wroteD [OF sc] by (intro exI [of _ d]) (simp add: commit_writes_def)
qed

section \<open>Recovery\<close>

definition head_of :: "block \<Rightarrow> logheader \<Rightarrow> logheader" where
  "head_of d lh = lh\<lparr>lh_n := sint (rd32 d 0),
     lh_block := fold (\<lambda>i f. f(i := sint (rd32 d (4 + 4 * i)))) [0..<nat (sint (rd32 d 0))] (lh_block lh)\<rparr>"

lemma lh_block_head_of:
  "i < nat (sint (rd32 d 0)) \<Longrightarrow> lh_block (head_of d lh) i = sint (rd32 d (4 + 4 * i))"
proof -
  have "fold (\<lambda>i f. f(i := g i)) [0..<n] f i = g i" if "i < n" for g :: "nat \<Rightarrow> int" and f n
    using that by (induction n) (auto simp: less_Suc_eq)
  then show "i < nat (sint (rd32 d 0)) \<Longrightarrow> lh_block (head_of d lh) i = sint (rd32 d (4 + 4 * i))"
    by (simp add: head_of_def)
qed

lemma read_head_loop:
  "\<forall>i\<in>set is. i < LOGBLOCKS \<Longrightarrow>
   kfor is (\<lambda>i s. if i < LOGBLOCKS
        then Ret () (s\<lparr>log_lh := (log_lh s)\<lparr>lh_block := (lh_block (log_lh s))(i := g i)\<rparr>\<rparr>) else Undef) s =
   Ret () (s\<lparr>log_lh := (log_lh s)\<lparr>lh_block := fold (\<lambda>i f. f(i := g i)) is (lh_block (log_lh s))\<rparr>\<rparr>)"
  by (induction "is" arbitrary: s) simp_all

lemma read_head_ok:
  assumes "busy p {} {} s" "log_dev s = 1" "nat (sint (rd32 (disk s (hdr s)) 0)) \<le> LOGBLOCKS"
  shows "\<exists>t. read_head s = Ret () t \<and> wrote p {} [] (s\<lparr>log_lh := head_of (disk s (hdr s)) (log_lh s)\<rparr>) t"
proof -
  let ?d = "disk s (hdr s)"
  have c: "hdr s \<in> {} \<or> card ({} :: uint32 set) + card ({} :: nat set) < NBUF" by (simp add: NBUF_def MAXOPBLOCKS_def)
  have h: "\<forall>b\<in>{}. \<not> cached s (hdr s) b" by simp
  obtain b u where u: "bread ROOTDEV (hdr s) s = Ret b u" "busy p {} {b} u" "cached u (hdr s) b"
    "b_data (bufs u b) = content s (hdr s)" "\<And>m. content u m = content s m" "bframe s u" "disk u = disk s" "disk_trace u = disk_trace s"
    by (rule busy_bread [OF assms(1) h c]) (rule that, assumption+)
  let ?s = "s\<lparr>log_lh := head_of ?d (log_lh s)\<rparr>"
  have d: "b_data (bufs u b) = ?d" using u(4) busy_clean [OF assms(1)] by simp
  define v where "v = u\<lparr>log_lh := head_of ?d (log_lh u)\<rparr>"
  have v: "busy p {} {b} v" "cached v (hdr s) b" using u(2,3) by (simp_all add: v_def cached_def)
  have e: "hdr s \<in> {} \<or> b_data (bufs v b) = disk v (hdr s)" using d u(7) by (simp add: v_def)
  obtain t where t: "brelse b v = Ret () t" "busy p {} ({b} - {b}) t" "bframe v t" "disk t = disk v"
    "disk_trace t = disk_trace v" "\<And>m. content t m = content v m"
    by (rule busy_brelse [OF v(1) singletonI v(2) e]) (rule that, assumption+)
  have l: "log_lh u = log_lh s" using bframe_log(1) [OF u(6)] .
  have "bframe ?s v" using bframe_lh [OF u(6)] unfolding v_def l .
  then have "bframe ?s t" using t(3) by (rule bframe_trans)
  then have "wrote p {} [] ?s t" using t u by (simp add: wrote_def v_def fun_eq_iff)
  moreover have "read_head s = Ret () t"
    unfolding read_head_def using u(1) d t(1) assms(2,3)
    by (simp add: hdr_def ROOTDEV_def Let_def v_def head_of_def read_head_loop cong: if_cong)
  ultimately show ?thesis by blast
qed

text \<open>
  The disk a crash leaves may hold a committed transaction: \<open>n\<close> blocks of the log with the
  numbers of their home blocks.
\<close>

definition disk_home :: "(uint32 \<Rightarrow> block) \<Rightarrow> uint32 \<Rightarrow> nat \<Rightarrow> uint32" where
  "disk_home d h i = rd32 (d h) (4 + 4 * i)"

definition boot_ok :: "nat \<Rightarrow> 'a log_state_scheme \<Rightarrow> bool" where
  "boot_ok p r \<longleftrightarrow> busy p {} {} r \<and> log_dev r = 1 \<and> uart_ready r"

lemma recover_ok:
  assumes "boot_ok p r" "rd32 (disk r (hdr r)) 0 = of_nat n" "n < LOGBLOCKS"
    "inj_on (disk_home (disk r) (hdr r)) {..<n}" "\<forall>i<n. disk_home (disk r) (hdr r) i \<notin> log_area r"
  shows "\<exists>t. recover_from_log r = Ret () t \<and> boot_ok p t \<and> rd32 (disk t (hdr r)) 0 = 0 \<and> lh_n (log_lh t) = 0 \<and>
    (\<forall>m. m \<noteq> hdr r \<longrightarrow> disk t m =
      apply_writes (disk r) (map (\<lambda>i. (disk_home (disk r) (hdr r) i, disk r (logno r i))) [0..<n]) m)"
proof -
  let ?h = "disk_home (disk r) (hdr r)"
  have b: "busy p {} {} r" "log_dev r = 1" "uart_ready r" using assms(1) by (simp_all add: boot_ok_def)
  have n: "sint (rd32 (disk r (hdr r)) 0) = int n"
    using assms(2,3) by (simp add: LOGBLOCKS_def MAXOPBLOCKS_def signed_of_nat signed_take_bit_int_eq_self)
  obtain u where u: "read_head r = Ret () u" "wrote p {} [] (r\<lparr>log_lh := head_of (disk r (hdr r)) (log_lh r)\<rparr>) u"
    using read_head_ok [OF b(1,2)] n assms(3) by auto
  note w = wroteD [OF u(2)] and lu = bframe_log [OF wroteD(2) [OF u(2)]]
  have nu: "nlog u = n" using lu(1) n by (simp add: head_of_def)
  have hu: "home u i = ?h i" if "i < n" for i
    using that lu(1) n by (simp add: home_def lh_block_head_of disk_home_def)
  have cu: "content u m = disk r m" for m using w(5) busy_clean [OF b(1)] by simp
  have "logno r i \<noteq> ?h j" if "i < n" "j < n" for i j
    using assms(3,5) that logno_area [of i r] by auto
  then have "\<forall>i<nlog u. \<forall>j<nlog u. logno u i \<noteq> home u j" using hu nu lu(5) by simp
  moreover have "inj_on (home u) {..<nlog u}" using assms(4) hu nu by (auto simp: inj_on_def)
  moreover have "home_writes u n = map (\<lambda>i. (?h i, disk r (logno r i))) [0..<n]"
    using hu cu lu(5) by (simp add: home_writes_def)
  ultimately obtain c where c: "install_trans 1 u = Ret () c"
    "wrote p {} (map (\<lambda>i. (?h i, disk r (logno r i))) [0..<n]) u c"
    using install_ok [of p 1 u] w(1) lu(3,7) b nu by (auto simp: pinned_def)
  note lc = bframe_log [OF wroteD(2) [OF c(2)]]
  let ?c = "c\<lparr>log_lh := (log_lh c)\<lparr>lh_n := 0\<rparr>\<rparr>"
  obtain d where d: "write_head ?c = Ret () d" "wrote p {} [(hdr r, head_block (log_lh ?c) (content ?c (hdr r)))] ?c d"
    using write_head_ok [of p "{}" ?c] wroteD(1) [OF c(2)] lu(3,4) lc(3,4) b(2) by (auto simp: NBUF_def MAXOPBLOCKS_def)
  note ld = bframe_log [OF wroteD(2) [OF d(2)]]
  have "recover_from_log r = Ret () d" using u(1) c(1) d(1) by (simp add: recover_from_log_def Let_def)
  moreover have "boot_ok p d" using wroteD(1) [OF d(2)] ld(3,7) lc(3,7) lu(3,7) b by (simp add: boot_ok_def)
  moreover have "rd32 (disk d (hdr r)) 0 = 0" using wroteD(3) [OF d(2)] by (simp add: head_block_reads)
  ultimately show ?thesis
    using wroteD(3) [OF d(2)] wroteD(3) [OF c(2)] w(3) ld(1) by (intro exI [of _ d]) simp
qed

section \<open>The disk at a crash\<close>

abbreviation crash_disk :: "'a log_state_scheme \<Rightarrow> nat \<Rightarrow> uint32 \<Rightarrow> block" where
  "crash_disk s k \<equiv> apply_writes (disk s) (take k (commit_writes s))"

lemma length_commit: "length (commit_writes s) = 2 * nlog s + 2"
  by (simp add: commit_writes_def log_writes_def install_writes_def)

lemma take_writes:
  "fst ` set (take k (log_writes s (nlog s))) \<subseteq> logno s ` {..<nlog s}"
  "fst ` set (take k (install_writes s)) \<subseteq> home s ` {..<nlog s}"
  "fst ` set (log_writes s (nlog s)) \<subseteq> logno s ` {..<nlog s}"
proof -
  show "fst ` set (log_writes s (nlog s)) \<subseteq> logno s ` {..<nlog s}" by (auto simp: log_writes_def)
  show "fst ` set (take k (log_writes s (nlog s))) \<subseteq> logno s ` {..<nlog s}"
    using set_take_subset [of k "log_writes s (nlog s)"] by (auto simp: log_writes_def)
  show "fst ` set (take k (install_writes s)) \<subseteq> home s ` {..<nlog s}"
    using set_take_subset [of k "install_writes s"] by (auto simp: install_writes_def)
qed

lemma apply_writes_outside: "fst ` set ws \<subseteq> A \<Longrightarrow> m \<notin> A \<Longrightarrow> apply_writes d ws m = d m"
  by (rule apply_writes_other) blast

lemma logno_sub: "trans_ok p s \<Longrightarrow> logno s ` {..<nlog s} \<subseteq> log_area s"
  using trans_okD(5) [of p s] by (auto simp: log_area_def)

lemma crash_before:
  assumes "trans_ok p s" "k \<le> nlog s"
  shows "crash_disk s k (hdr s) = disk s (hdr s)" "m \<notin> log_area s \<Longrightarrow> crash_disk s k m = disk s m"
proof -
  have e: "take k (commit_writes s) = take k (log_writes s (nlog s))"
    using assms(2) by (simp add: commit_writes_def log_writes_def)
  show "crash_disk s k (hdr s) = disk s (hdr s)"
    unfolding e using trans_apart(5) [OF assms(1)] by (intro apply_writes_outside [OF take_writes(1)]) fastforce
  show "m \<notin> log_area s \<Longrightarrow> crash_disk s k m = disk s m"
    unfolding e using logno_sub [OF assms(1)] by (intro apply_writes_outside [OF take_writes(1)]) blast
qed

lemma crash_between:
  assumes "trans_ok p s" "nlog s < k" "k \<le> 2 * nlog s + 1"
  shows "crash_disk s k (hdr s) = head_on s" "i < nlog s \<Longrightarrow> crash_disk s k (logno s i) = content s (home s i)"
    "m \<notin> log_area s \<Longrightarrow> m \<notin> home s ` {..<nlog s} \<Longrightarrow> crash_disk s k m = disk s m"
proof -
  note ap = trans_apart [OF assms(1)] and ok = trans_okD [OF assms(1)]
  have "k - Suc (nlog s) \<le> nlog s" using assms(3) by simp
  moreover have "k - nlog s = Suc (k - Suc (nlog s))" using assms(2) by simp
  ultimately have e: "take k (commit_writes s) =
      log_writes s (nlog s) @ (hdr s, head_on s) # take (k - Suc (nlog s)) (install_writes s)"
    using assms(2,3) by (simp add: commit_writes_def log_writes_def install_writes_def)
  show "crash_disk s k (hdr s) = head_on s"
    unfolding e using apply_writes_outside [OF take_writes(2) ap(2)] by simp
  show "crash_disk s k (logno s i) = content s (home s i)" if i: "i < nlog s"
  proof -
    have "apply_writes (disk s) (log_writes s (nlog s)) (logno s i) = content s (home s i)"
      unfolding log_writes_def by (rule apply_writes_at [OF i ok(8)])
    then show ?thesis
      unfolding e using apply_writes_outside [OF take_writes(2) ap(3) [OF i]] ap(5) [OF i] by simp
  qed
  show "crash_disk s k m = disk s m" if m: "m \<notin> log_area s" "m \<notin> home s ` {..<nlog s}"
  proof -
    have "m \<noteq> hdr s" "m \<notin> logno s ` {..<nlog s}" using m(1) logno_sub [OF assms(1)] by (auto simp: log_area_def)
    then show ?thesis
      unfolding e using apply_writes_outside [OF take_writes(2) m(2)] apply_writes_outside [OF take_writes(3)] by simp
  qed
qed

lemma crash_after:
  assumes "trans_ok p s"
  shows "apply_writes (disk s) (commit_writes s) (hdr s) = head_off s"
    "m \<notin> log_area s \<Longrightarrow> apply_writes (disk s) (commit_writes s) m = content s m"
proof -
  let ?d = "apply_writes (disk s) (log_writes s (nlog s))"
  show "apply_writes (disk s) (commit_writes s) (hdr s) = head_off s" by (simp add: commit_writes_def)
  show "apply_writes (disk s) (commit_writes s) m = content s m" if m: "m \<notin> log_area s"
  proof -
    have n: "m \<noteq> hdr s" "m \<notin> logno s ` {..<nlog s}" using m logno_sub [OF assms] by (auto simp: log_area_def)
    have "apply_writes (?d(hdr s := head_on s)) (install_writes s) m = content s m"
    proof (cases "m \<in> home s ` {..<nlog s}")
      case True
      then show ?thesis unfolding install_writes_def using apply_writes_at [OF _ trans_okD(6) [OF assms]] by auto
    next
      case False
      then have "m \<notin> fst ` set (install_writes s)" by (auto simp: install_writes_def)
      then show ?thesis
        using n apply_writes_outside [OF take_writes(3) n(2)] busy_clean [OF trans_okD(1) [OF assms] False]
        by (simp add: apply_writes_other)
    qed
    then show ?thesis using n(1) by (simp add: commit_writes_def)
  qed
qed

lemma recover_before:
  assumes "trans_ok p s" "rd32 (disk s (hdr s)) 0 = 0" "boot_ok q r" "log_start r = log_start s"
    "disk r (hdr s) = disk s (hdr s) \<or> disk r (hdr s) = head_off s"
  shows "\<exists>u. recover_from_log r = Ret () u \<and> rd32 (disk u (hdr s)) 0 = 0 \<and> (\<forall>m. m \<noteq> hdr s \<longrightarrow> disk u m = disk r m)"
proof -
  have h: "hdr r = hdr s" using assms(4) by (simp add: hdr_def)
  have "rd32 (disk r (hdr r)) 0 = of_nat 0" using assms(2,5) by (auto simp: h head_off_def head_block_reads)
  then show ?thesis using recover_ok [OF assms(3), of 0] by (auto simp: h LOGBLOCKS_def MAXOPBLOCKS_def)
qed

lemma recover_between:
  assumes "trans_ok p s" "boot_ok q r" "log_start r = log_start s" "disk r (hdr s) = head_on s"
    "\<forall>i<nlog s. disk r (logno s i) = content s (home s i)"
    "\<forall>m. m \<notin> log_area s \<longrightarrow> m \<notin> home s ` {..<nlog s} \<longrightarrow> disk r m = disk s m"
  shows "\<exists>u. recover_from_log r = Ret () u \<and> rd32 (disk u (hdr s)) 0 = 0 \<and>
    (\<forall>m. m \<notin> log_area s \<longrightarrow> disk u m = content s m)"
proof -
  note ok = trans_okD [OF assms(1)]
  have h: "hdr r = hdr s" "logno r = logno s" "log_area r = log_area s"
    using assms(3) by (simp_all add: hdr_def logno_def log_area_def fun_eq_iff)
  have d: "disk_home (disk r) (hdr r) i = home s i" if "i < nlog s" for i
    using that assms(4) by (simp add: disk_home_def h head_on_def head_block_reads home_def)
  then have a: "inj_on (disk_home (disk r) (hdr r)) {..<nlog s}" using ok(6) by (auto simp: inj_on_def)
  have b: "\<forall>i<nlog s. disk_home (disk r) (hdr r) i \<notin> log_area r" using d ok(7) h(3) by auto
  have c: "rd32 (disk r (hdr r)) 0 = of_nat (nlog s)"
    using assms(4) ok(3) by (simp add: h head_on_def head_block_reads)
  have e: "map (\<lambda>i. (disk_home (disk r) (hdr r) i, disk r (logno r i))) [0..<nlog s] = install_writes s"
    using d assms(5) by (simp add: install_writes_def h)
  obtain u where u: "recover_from_log r = Ret () u" "rd32 (disk u (hdr s)) 0 = 0"
    "\<forall>m. m \<noteq> hdr s \<longrightarrow> disk u m = apply_writes (disk r) (install_writes s) m"
    using recover_ok [OF assms(2) c ok(5) a b, unfolded e] unfolding h(1) by blast
  have "disk u m = content s m" if m: "m \<notin> log_area s" for m
  proof (cases "m \<in> home s ` {..<nlog s}")
    case True
    then have "apply_writes (disk r) (install_writes s) m = content s m"
      unfolding install_writes_def using apply_writes_at [OF _ ok(6)] by auto
    then show ?thesis using u(3) m by (simp add: log_area_def)
  next
    case False
    then have "m \<notin> fst ` set (install_writes s)" by (auto simp: install_writes_def)
    then show ?thesis using u(3) m False assms(6) busy_clean [OF ok(1) False] by (simp add: log_area_def apply_writes_other)
  qed
  then show ?thesis using u by blast
qed

lemma recover_crash:
  assumes "trans_ok p s" "rd32 (disk s (hdr s)) 0 = 0" "k \<le> length (commit_writes s)"
    "boot_ok q r" "log_start r = log_start s" "disk r = crash_disk s k"
  shows "\<exists>u. recover_from_log r = Ret () u \<and> rd32 (disk u (hdr s)) 0 = 0 \<and>
        (\<forall>m. m \<notin> log_area s \<longrightarrow> disk u m = (if k \<le> nlog s then disk s m else content s m))"
proof -
  consider "k \<le> nlog s" | "nlog s < k" "k \<le> 2 * nlog s + 1" | "k = 2 * nlog s + 2"
    using assms(3) length_commit [of s] by linarith
  then show ?thesis
  proof cases
    case 1
    then show ?thesis using recover_before [OF assms(1,2,4,5)] crash_before [OF assms(1) 1] assms(6) by (auto simp: log_area_def)
  next
    case 2
    then show ?thesis using recover_between [OF assms(1,4,5)] crash_between [OF assms(1) 2] assms(6) by auto
  next
    case 3
    then have "take k (commit_writes s) = commit_writes s" using length_commit [of s] by simp
    then show ?thesis
      using recover_before [OF assms(1,2,4,5)] crash_after [OF assms(1)] assms(6) 3 by (auto simp: log_area_def)
  qed
qed

end
