(* ===== verification/Transaction.thy ===== *)
theory Transaction
  imports LogRecovery
begin

text \<open>
  System calls use the file system through transactions: \<^verbatim>\<open>begin_op\<close>, changes of blocks each followed
  by \<^verbatim>\<open>log_write\<close>, \<^verbatim>\<open>end_op\<close>.  From the cache \<^verbatim>\<open>binit\<close> sets up on, such a sequence of at most
  \<open>MAXOPBLOCKS\<close> changes happens entirely or not at all, whenever the machine crashes.
\<close>

section \<open>Logging a block\<close>

lemma busy_pin:
  assumes "busy p N H s" "b \<in> H" "cached s n b" "n \<notin> N" "b_valid (bufs s b) \<noteq> 0" "t = upd_buf b (b_refcnt_update (\<lambda>r. r + 1)) s"
  shows "busy p (insert n N) H t" "content t = content s" "cached t m a = cached s m a"
proof -
  note c = busyD [OF assms(1)]
  have n: "b_blockno (bufs s b) = n" "b < NBUF" "b_dev (bufs s b) = ROOTDEV" using assms(3) by (simp_all add: cached_def)
  have r: "b_refcnt (bufs s b) = 1" using c(4) [OF assms(3)] assms(2,4) by simp
  have ct: "cache p H t" unfolding assms(6) upd_buf_full
    by (rule cache_change [OF c(1) assms(2)]) (simp_all add: r)
  have cd: "cached t m a = cached s m a" "b_valid (bufs t a) = b_valid (bufs s a)"
    "b_data (bufs t a) = b_data (bufs s a)" "b_dev (bufs t a) = b_dev (bufs s a)"
    "b_blockno (bufs t a) = b_blockno (bufs s a)" for m a
    by (auto simp: assms(6) cached_def)
  show "cached t m a = cached s m a" by (rule cd)
  have "b_refcnt (bufs t a) = (if b_dev (bufs t a) = ROOTDEV \<and> b_blockno (bufs t a) \<in> insert n N then 1 else 0) +
      (if a \<in> H then 1 else 0)" if a: "a < NBUF" for a
  proof (cases "a = b")
    case True
    then show ?thesis using r n assms(2) cd by (simp add: assms(6))
  next
    case False
    have "\<not> (b_dev (bufs s a) = ROOTDEV \<and> b_blockno (bufs s a) = n)"
      using cacheD(5) [OF c(1), of n a b] assms(3) False a by (auto simp: cached_def)
    then show ?thesis using c(5) [OF a] False by (auto simp: assms(6))
  qed
  then show "busy p (insert n N) H t"
    unfolding busy_def cd using ct c(2,3) assms(3,5) by blast
  show "content t = content s" by (rule ext, intro content_cong) (simp_all add: cd, simp add: assms(6))
qed

lemma log_hold [simp]:
  "log_lh (hold lk s) = log_lh s" "log_outstanding (hold lk s) = log_outstanding s"
  "log_committing (hold lk s) = log_committing s" "log_lh_update f (hold lk s) = hold lk (log_lh_update f s)"
  "log_outstanding_update g (hold lk s) = hold lk (log_outstanding_update g s)"
  "log_committing_update g (hold lk s) = hold lk (log_committing_update g s)"
  "log_lh (upd_buf b h s) = log_lh s" "log_lh_update f (upd_buf b h s) = upd_buf b h (log_lh_update f s)"
  "calm p (log_lh_update f s) = calm p s" "calm p (log_outstanding_update g s) = calm p s"
  "calm p (log_committing_update g s) = calm p s"
proof -
  show "calm p (log_lh_update f s) = calm p s" "calm p (log_outstanding_update g s) = calm p s"
    "calm p (log_committing_update g s) = calm p s" by (rule calm_cong, simp_all)+
qed (simp_all add: lock_defs upd_buf_def)

lemma log_slot_new: "\<forall>i<nlog s. home s i \<noteq> n \<Longrightarrow> log_slot (log_lh s) n = nlog s"
proof -
  assume "\<forall>i<nlog s. home s i \<noteq> n"
  then have "find (\<lambda>i. word_of_int (lh_block (log_lh s) i) = n) [0..<nlog s] = None" by (auto simp: find_None_iff home_def)
  then show ?thesis by (simp add: log_slot_def)
qed

lemma log_slot_old:
  assumes "n \<in> home s ` {..<nlog s}"
  shows "log_slot (log_lh s) n < nlog s" "home s (log_slot (log_lh s) n) = n"
proof -
  have "find (\<lambda>i. word_of_int (lh_block (log_lh s) i) = n) [0..<nlog s] \<noteq> None"
    using assms by (auto simp: find_None_iff home_def)
  then obtain i where i: "find (\<lambda>i. word_of_int (lh_block (log_lh s) i) = n) [0..<nlog s] = Some i" by blast
  then have "log_slot (log_lh s) n = i" by (simp add: log_slot_def)
  then show "log_slot (log_lh s) n < nlog s" "home s (log_slot (log_lh s) n) = n"
    using i by (auto simp: find_Some_iff home_def)
qed

definition logged :: "nat \<Rightarrow> 'a log_state_scheme \<Rightarrow> 'a log_state_scheme" where
  "logged b s =
     (let n = b_blockno (bufs s b); i = log_slot (log_lh s) n;
          s = s\<lparr>log_lh := (log_lh s)\<lparr>lh_block := (lh_block (log_lh s))(i := sint n)\<rparr>\<rparr>
      in if int i = lh_n (log_lh s)
         then upd_buf b (b_refcnt_update (\<lambda>r. r + 1)) (s\<lparr>log_lh := (log_lh s)\<lparr>lh_n := lh_n (log_lh s) + 1\<rparr>\<rparr>)
         else s)"

lemma log_write_eq:
  "calm p s \<Longrightarrow> lh_n (log_lh s) < int LOGBLOCKS \<Longrightarrow> 1 \<le> log_outstanding s \<Longrightarrow> log_write b s = Ret () (logged b s)"
  by (simp add: log_write_def logged_def bpin_def Let_def)

text \<open>
  The log is not being committed: the blocks logged so far are distinct, outside the log, and
  pinned; the thread holds the buffers \<open>H\<close>.  With a transaction open there is a system call to charge
  changes to.
\<close>

definition log_ok :: "nat \<Rightarrow> nat set \<Rightarrow> 'a log_state_scheme \<Rightarrow> bool" where
  "log_ok p H s \<longleftrightarrow> busy p (home s ` {..<nlog s}) H s \<and> log_dev s = 1 \<and> 0 \<le> lh_n (log_lh s) \<and>
     inj_on (home s) {..<nlog s} \<and> (\<forall>i<nlog s. home s i \<notin> log_area s) \<and> log_committing s = 0"

definition trans_open :: "nat \<Rightarrow> nat set \<Rightarrow> 'a log_state_scheme \<Rightarrow> bool" where
  "trans_open p H s \<longleftrightarrow> log_ok p H s \<and> 1 \<le> log_outstanding s"

lemmas open_defs = trans_open_def log_ok_def

lemma open_log_ok: "trans_open p H s \<Longrightarrow> log_ok p H s"
  by (simp add: trans_open_def)

text \<open>Nothing but the cache and the header in memory changes.\<close>

definition lframe :: "'a log_state_scheme \<Rightarrow> 'a log_state_scheme \<Rightarrow> bool" where
  "lframe s t \<longleftrightarrow> bframe (s\<lparr>log_lh := log_lh t\<rparr>) t \<and> disk t = disk s \<and> disk_trace t = disk_trace s"

lemma lframeD:
  assumes "lframe s t"
  shows "log_start t = log_start s" "disk t = disk s" "disk_trace t = disk_trace s" "log_outstanding t = log_outstanding s"
    "hdr t = hdr s" "log_area t = log_area s"
proof -
  have b: "bframe (s\<lparr>log_lh := log_lh t\<rparr>) t" using assms by (simp add: lframe_def)
  show "disk t = disk s" "disk_trace t = disk_trace s" using assms by (simp_all add: lframe_def)
  show "log_start t = log_start s" "log_outstanding t = log_outstanding s" "hdr t = hdr s"
    using bframe_log(2,8,4) [OF b] by simp_all
  show "log_area t = log_area s" using bframe_log(4,5) [OF b] by (simp add: log_area_def)
qed

lemma lframe_bframe: "bframe s t \<Longrightarrow> disk t = disk s \<Longrightarrow> disk_trace t = disk_trace s \<Longrightarrow> lframe s t"
  using bframe_log(1) [of s t] by (simp add: lframe_def)

lemma lframe_trans:
  assumes "lframe s t" "lframe t u"
  shows "lframe s u"
proof -
  have "bframe (s\<lparr>log_lh := log_lh u\<rparr>) (t\<lparr>log_lh := log_lh u\<rparr>)"
    using bframe_lh [of "s\<lparr>log_lh := log_lh t\<rparr>" t "\<lambda>_. log_lh u"] assms(1) by (simp add: lframe_def)
  then show ?thesis using assms bframe_trans by (auto simp: lframe_def)
qed

lemma log_write_ok:
  assumes "trans_open p H s" "b \<in> H" "cached s n b" "b_valid (bufs s b) \<noteq> 0" "n \<notin> log_area s" "nlog s < LOGBLOCKS"
  shows "\<exists>t. log_write b s = Ret () t \<and> trans_open p H t \<and> home t ` {..<nlog t} = insert n (home s ` {..<nlog s}) \<and> nlog t \<le> Suc (nlog s) \<and>
    content t = content s \<and> lframe s t \<and> (\<forall>m a. cached t m a = cached s m a) \<and>
    (\<forall>a. b_data (bufs t a) = b_data (bufs s a) \<and> b_valid (bufs t a) = b_valid (bufs s a)) \<and> (\<forall>a. a \<noteq> b \<longrightarrow> bufs t a = bufs s a)"
proof -
  have o: "busy p (home s ` {..<nlog s}) H s" "log_dev s = 1" "0 \<le> lh_n (log_lh s)" "inj_on (home s) {..<nlog s}"
    "\<forall>i<nlog s. home s i \<notin> log_area s" "1 \<le> log_outstanding s" "log_committing s = 0"
    using assms(1) by (simp_all add: open_defs)
  have n: "b_blockno (bufs s b) = n" using assms(3) by (simp add: cached_def)
  have w: "log_write b s = Ret () (logged b s)"
    using cacheD(1) [OF busyD(1) [OF o(1)]] assms(6) o(6) by (intro log_write_eq) auto
  show ?thesis
  proof (cases "n \<in> home s ` {..<nlog s}")
    case True
    note i = log_slot_old [OF True]
    let ?i = "log_slot (log_lh s) n"
    define t where "t = s\<lparr>log_lh := (log_lh s)\<lparr>lh_block := (lh_block (log_lh s))(?i := sint n)\<rparr>\<rparr>"
    have l: "logged b s = t" using i(1) o(3) by (simp add: logged_def Let_def n t_def)
    have h: "home t = home s" using i(2) by (auto simp: home_def t_def)
    have f: "nlog t = nlog s" "log_area t = log_area s" by (simp_all add: t_def log_area_def)
    have "trans_open p H t" unfolding open_defs h f using o by (simp add: t_def)
    moreover have "content t = content s" "lframe s t" by (simp_all add: t_def lframe_def)
    ultimately show ?thesis using w l True by (intro exI [of _ t]) (simp add: h f insert_absorb, simp add: t_def cached_def)
  next
    case False
    let ?h = "s\<lparr>log_lh := (log_lh s)\<lparr>lh_block := (lh_block (log_lh s))(nlog s := sint n), lh_n := lh_n (log_lh s) + 1\<rparr>\<rparr>"
    define t where "t = upd_buf b (b_refcnt_update (\<lambda>r. r + 1)) ?h"
    have "log_slot (log_lh s) n = nlog s" using False by (intro log_slot_new) auto
    then have l: "logged b s = t" using o(3) by (simp add: logged_def Let_def n t_def)
    have h: "home t = (home s)(nlog s := n)" by (auto simp: home_def t_def)
    have f: "nlog t = Suc (nlog s)" "log_area t = log_area s" using o(3) by (simp_all add: t_def log_area_def hdr_def logno_def upd_buf_def)
    have N: "home t ` {..<nlog t} = insert n (home s ` {..<nlog s})" by (auto simp: h f less_Suc_eq)
    have b: "busy p (home s ` {..<nlog s}) H ?h" "cached ?h n b" "b_valid (bufs ?h b) \<noteq> 0"
      using o(1) assms(3,4) by (simp_all add: cached_def)
    note q = busy_pin [OF b(1) assms(2) b(2) False b(3) t_def]
    have "inj_on (home t) {..<nlog t}" using o(4) False by (auto simp: h f inj_on_def less_Suc_eq)
    moreover have "\<forall>i<nlog t. home t i \<notin> log_area t" using o(5) assms(5) by (auto simp: h f less_Suc_eq)
    ultimately have "trans_open p H t" unfolding open_defs N using q(1) o by (simp add: t_def upd_buf_def)
    moreover have "content t = content s" "lframe s t" using q(2) by (simp_all add: lframe_def bframe_def t_def upd_buf_def)
    ultimately show ?thesis using w l N f by (intro exI [of _ t]) (simp, simp add: t_def cached_def)
  qed
qed

section \<open>A transaction\<close>

text \<open>The way the file system changes a block: read it, change the buffer, log it, release it.\<close>

definition update_block :: "uint32 \<times> (block \<Rightarrow> block) \<Rightarrow> 'a log_state_scheme \<Rightarrow> (unit, 'a log_state_scheme) kres" where
  "update_block u s =
     kbind (bread ROOTDEV (fst u) s) (\<lambda>b s.
     let s = upd_buf b (b_data_update (snd u)) s in
     kbind (log_write b s) (\<lambda>_ s.
     brelse b s))"

definition transaction :: "(uint32 \<times> (block \<Rightarrow> block)) list \<Rightarrow> 'a log_state_scheme \<Rightarrow> (unit, 'a log_state_scheme) kres" where
  "transaction us s =
     kbind (begin_op s) (\<lambda>_ s.
     kbind (kfor us update_block s) (\<lambda>_ s.
     end_op s))"

definition updates :: "(uint32 \<times> (block \<Rightarrow> block)) list \<Rightarrow> (uint32 \<Rightarrow> block) \<Rightarrow> uint32 \<Rightarrow> block" where
  "updates us d = fold (\<lambda>(n, f) d. d(n := f (d n))) us d"

lemma log_ok_frame:
  assumes "log_ok p H s" "bframe s t" "busy p (home s ` {..<nlog s}) K t"
  shows "log_ok p K t"
proof -
  have "home t = home s" "log_area t = log_area s" using bframe_log [OF assms(2)] by (auto simp: log_area_def)
  then show ?thesis using assms bframe_log(1,3,9) [OF assms(2)] by (simp add: log_ok_def)
qed

lemma log_bread:
  assumes "log_ok p H s" "\<forall>b\<in>H. \<not> cached s n b" "nlog s + card H < NBUF"
  obtains b t where "bread ROOTDEV n s = Ret b t" "log_ok p (insert b H) t" "b \<notin> H" "cached t n b"
    "b_valid (bufs t b) \<noteq> 0" "b_data (bufs t b) = content s n" "content t = content s" "lframe s t"
    "nlog t = nlog s" "home t = home s" "\<And>c. c \<noteq> b \<Longrightarrow> bufs t c = bufs s c"
proof -
  let ?N = "home s ` {..<nlog s}"
  have o: "busy p ?N H s" using assms(1) by (simp add: log_ok_def)
  have "card ?N \<le> nlog s" using card_image_le [of "{..<nlog s}" "home s"] by simp
  then have c: "n \<in> ?N \<or> card ?N + card H < NBUF" using assms(3) by simp
  obtain b t where t: "bread ROOTDEV n s = Ret b t" "busy p ?N (insert b H) t" "b \<notin> H" "cached t n b" "b_valid (bufs t b) \<noteq> 0"
    "b_data (bufs t b) = content s n" "\<And>c. c \<noteq> b \<Longrightarrow> bufs t c = bufs s c"
    "\<And>m. content t m = content s m" "bframe s t" "disk t = disk s" "disk_trace t = disk_trace s"
    by (rule busy_bread [OF o assms(2) c]) (rule that, assumption+)
  have h: "content t = content s" "nlog t = nlog s" "home t = home s" using t(8) bframe_log(1,6) [OF t(9)] by (auto simp: fun_eq_iff)
  show thesis
    by (rule that [OF t(1) log_ok_frame [OF assms(1) t(9,2)] t(3-6) h(1) lframe_bframe [OF t(9-11)] h(2,3) t(7)])
qed

lemma log_brelse:
  assumes "log_ok p H s" "b \<in> H" "cached s n b" "n \<in> home s ` {..<nlog s} \<or> b_data (bufs s b) = disk s n"
  obtains t where "brelse b s = Ret () t" "log_ok p (H - {b}) t" "content t = content s" "lframe s t"
    "nlog t = nlog s" "home t = home s" "\<And>c. c \<noteq> b \<Longrightarrow> core (bufs t c) = core (bufs s c)"
proof -
  have o: "busy p (home s ` {..<nlog s}) H s" using assms(1) by (simp add: log_ok_def)
  obtain t where t: "brelse b s = Ret () t" "busy p (home s ` {..<nlog s}) (H - {b}) t" "bframe s t" "disk t = disk s"
    "disk_trace t = disk_trace s" "\<And>m. content t m = content s m" "\<And>c. c \<noteq> b \<Longrightarrow> core (bufs t c) = core (bufs s c)"
    by (rule busy_brelse [OF o assms(2-4)]) (rule that, assumption+)
  have h: "content t = content s" "nlog t = nlog s" "home t = home s" using t(6) bframe_log(1,6) [OF t(3)] by (auto simp: fun_eq_iff)
  show thesis
    by (rule that [OF t(1) log_ok_frame [OF assms(1) t(3,2)] h(1) lframe_bframe [OF t(3-5)] h(2,3) t(7)])
qed

lemma open_bread:
  assumes "trans_open p H s" "\<forall>b\<in>H. \<not> cached s n b" "nlog s + card H < NBUF"
  obtains b t where "bread ROOTDEV n s = Ret b t" "trans_open p (insert b H) t" "b \<notin> H" "cached t n b"
    "b_valid (bufs t b) \<noteq> 0" "b_data (bufs t b) = content s n" "content t = content s" "lframe s t"
    "nlog t = nlog s" "home t = home s" "\<And>c. c \<noteq> b \<Longrightarrow> bufs t c = bufs s c"
proof -
  obtain b t where t: "bread ROOTDEV n s = Ret b t" "log_ok p (insert b H) t" "b \<notin> H" "cached t n b"
    "b_valid (bufs t b) \<noteq> 0" "b_data (bufs t b) = content s n" "content t = content s" "lframe s t"
    "nlog t = nlog s" "home t = home s" "\<And>c. c \<noteq> b \<Longrightarrow> bufs t c = bufs s c"
    by (rule log_bread [OF open_log_ok [OF assms(1)] assms(2,3)]) (rule that, assumption+)
  have "trans_open p (insert b H) t" using t(2) assms(1) lframeD(4) [OF t(8)] by (simp add: trans_open_def)
  then show thesis by (rule that [OF t(1) _ t(3-11)])
qed

lemma open_brelse:
  assumes "trans_open p H s" "b \<in> H" "cached s n b" "n \<in> home s ` {..<nlog s} \<or> b_data (bufs s b) = disk s n"
  obtains t where "brelse b s = Ret () t" "trans_open p (H - {b}) t" "content t = content s" "lframe s t"
    "nlog t = nlog s" "home t = home s" "\<And>c. c \<noteq> b \<Longrightarrow> core (bufs t c) = core (bufs s c)"
proof -
  obtain t where t: "brelse b s = Ret () t" "log_ok p (H - {b}) t" "content t = content s" "lframe s t"
    "nlog t = nlog s" "home t = home s" "\<And>c. c \<noteq> b \<Longrightarrow> core (bufs t c) = core (bufs s c)"
    by (rule log_brelse [OF open_log_ok [OF assms(1)] assms(2-4)]) (rule that, assumption+)
  have "trans_open p (H - {b}) t" using t(2) assms(1) lframeD(4) [OF t(4)] by (simp add: trans_open_def)
  then show thesis by (rule that [OF t(1) _ t(3-7)])
qed

lemma open_fill:
  assumes "trans_open p H s" "b \<in> H" "cached s n b" "b_valid (bufs s b) \<noteq> 0" "t = upd_buf b (b_data_update f) s"
  shows "trans_open p H t" "content t = (content s)(n := f (content s n))" "lframe s t" "nlog t = nlog s" "home t = home s"
    "cached t m c = cached s m c" "b_valid (bufs t c) = b_valid (bufs s c)"
proof -
  have o: "busy p (home s ` {..<nlog s}) H s" using assms(1) by (simp add: open_defs)
  have d: "b_data (bufs s b) = content s n" using content_cached [OF busyD(1) [OF o] assms(3,4)] by simp
  have e: "t = upd_buf b (b_data_update (\<lambda>_. f (content s n))) s" unfolding assms(5) by (rule upd_buf_cong) (simp flip: d)
  have b: "busy p (home s ` {..<nlog s}) H t" unfolding e by (rule busy_fill [OF o assms(2)])
  have f: "bframe s t" by (simp add: assms(5) bframe_def upd_buf_def)
  show "trans_open p H t"
    using log_ok_frame [OF open_log_ok [OF assms(1)] f b] assms(1) bframe_log(8) [OF f] by (simp add: trans_open_def)
  show "content t = (content s)(n := f (content s n))" by (rule content_fill [OF busyD(1) [OF o] busyD(1) [OF b] assms(3,4) e])
  show "lframe s t" by (rule lframe_bframe [OF f]) (simp_all add: assms(5))
  show "nlog t = nlog s" "home t = home s" using bframe_log(1,6) [OF f] by (auto simp: fun_eq_iff)
  show "cached t m c = cached s m c" "b_valid (bufs t c) = b_valid (bufs s c)" by (auto simp: assms(5) cached_def)
qed

text \<open>Only the list of the cache changes: what a thread that reads a block and releases it leaves behind.\<close>

definition kept :: "nat \<Rightarrow> nat set \<Rightarrow> 'a log_state_scheme \<Rightarrow> 'a log_state_scheme \<Rightarrow> bool" where
  "kept p H s t \<longleftrightarrow> log_ok p H t \<and> content t = content s \<and> lframe s t \<and> nlog t = nlog s \<and> home t = home s \<and>
     (\<forall>c\<in>H. core (bufs t c) = core (bufs s c))"

lemma keptD:
  assumes "kept p H s t"
  shows "log_ok p H t" "content t = content s" "lframe s t" "nlog t = nlog s" "home t = home s"
    "c \<in> H \<Longrightarrow> core (bufs t c) = core (bufs s c)"
  using assms by (simp_all add: kept_def)

lemma kept_refl: "log_ok p H s \<Longrightarrow> kept p H s s"
  by (simp add: kept_def lframe_bframe)

lemma kept_open: "kept p H s t \<Longrightarrow> trans_open p H s \<Longrightarrow> trans_open p H t"
  using lframeD(4) [of s t] by (simp add: kept_def trans_open_def)

lemma kept_trans: "kept p H s t \<Longrightarrow> kept p H t u \<Longrightarrow> kept p H s u"
  using lframe_trans by (auto simp: kept_def)

lemma log_read:
  assumes "log_ok p H s" "\<forall>b\<in>H. \<not> cached s n b" "nlog s + card H < NBUF"
  obtains b a t where "bread ROOTDEV n s = Ret b a" "log_ok p (insert b H) a" "b \<notin> H" "cached a n b"
    "b_valid (bufs a b) \<noteq> 0" "b_data (bufs a b) = content s n" "content a = content s" "lframe s a"
    "nlog a = nlog s" "home a = home s" "\<And>c. c \<noteq> b \<Longrightarrow> bufs a c = bufs s c"
    "n \<in> home a ` {..<nlog a} \<or> b_data (bufs a b) = disk a n" "brelse b a = Ret () t" "kept p H s t"
proof -
  obtain b a where a: "bread ROOTDEV n s = Ret b a" "log_ok p (insert b H) a" "b \<notin> H" "cached a n b" "b_valid (bufs a b) \<noteq> 0"
    "b_data (bufs a b) = content s n" "content a = content s" "lframe s a" "nlog a = nlog s" "home a = home s"
    "\<And>c. c \<noteq> b \<Longrightarrow> bufs a c = bufs s c"
    by (rule log_bread [OF assms]) (rule that, assumption+)
  have o: "busy p (home s ` {..<nlog s}) H s" using assms(1) by (simp add: log_ok_def)
  have "content s n = disk s n" if "n \<notin> home s ` {..<nlog s}" by (rule busy_clean_but [OF o that assms(2)])
  then have r: "n \<in> home a ` {..<nlog a} \<or> b_data (bufs a b) = disk a n"
    using a(6,9,10) lframeD(2) [OF a(8)] by auto
  obtain t where t: "brelse b a = Ret () t" "log_ok p (insert b H - {b}) t" "content t = content a" "lframe a t"
    "nlog t = nlog a" "home t = home a" "\<And>c. c \<noteq> b \<Longrightarrow> core (bufs t c) = core (bufs a c)"
    by (rule log_brelse [OF a(2) insertI1 a(4) r]) (rule that, assumption+)
  have "core (bufs t c) = core (bufs s c)" if "c \<in> H" for c
  proof -
    have "c \<noteq> b" using that a(3) by blast
    then show ?thesis using t(7) a(11) by simp
  qed
  then have k: "kept p H s t"
    using t(2,3,5,6) a(3,7,9,10) lframe_trans [OF a(8) t(4)] by (simp add: kept_def)
  show thesis by (rule that [OF a r t(1) k])
qed

lemma open_update:
  assumes "trans_open p (insert b H) a" "b \<notin> H" "cached a n b" "b_valid (bufs a b) \<noteq> 0" "n \<notin> log_area a" "nlog a < NBUF"
  obtains w t where "log_write b (upd_buf b (b_data_update f) a) = Ret () w" "brelse b w = Ret () t" "trans_open p H t"
    "nlog t \<le> Suc (nlog a)" "home t ` {..<nlog t} = insert n (home a ` {..<nlog a})"
    "content t = (content a)(n := f (content a n))" "lframe a t" "\<And>c. c \<noteq> b \<Longrightarrow> core (bufs t c) = core (bufs a c)"
proof -
  define v where "v = upd_buf b (b_data_update f) a"
  note v = open_fill [OF assms(1) insertI1 assms(3,4) v_def]
  have l: "nlog v < LOGBLOCKS" "n \<notin> log_area v" "cached v n b" "b_valid (bufs v b) \<noteq> 0"
    using assms(3-6) v(4,6,7) lframeD(6) [OF v(3)] by (simp_all add: NBUF_def LOGBLOCKS_def)
  obtain w where w: "log_write b v = Ret () w" "trans_open p (insert b H) w" "home w ` {..<nlog w} = insert n (home v ` {..<nlog v})"
    "nlog w \<le> Suc (nlog v)" "content w = content v" "lframe v w" "\<forall>m a. cached w m a = cached v m a" "\<forall>c. c \<noteq> b \<longrightarrow> bufs w c = bufs v c"
    using log_write_ok [OF v(1) insertI1 l(3,4,2,1)] by (elim exE conjE) (rule that, assumption+)
  have cw: "cached w n b" using w(7) l(3) by simp
  have nw: "n \<in> home w ` {..<nlog w} \<or> b_data (bufs w b) = disk w n" using w(3) by simp
  obtain t where t: "brelse b w = Ret () t" "trans_open p (insert b H - {b}) t" "content t = content w" "lframe w t"
    "nlog t = nlog w" "home t = home w" "\<And>c. c \<noteq> b \<Longrightarrow> core (bufs t c) = core (bufs w c)"
    by (rule open_brelse [OF w(2) insertI1 cw nw]) (rule that, assumption+)
  have "core (bufs t c) = core (bufs a c)" if "c \<noteq> b" for c using that t(7) w(8) by (simp add: v_def)
  moreover have "lframe a t" using v(3) w(6) t(4) lframe_trans by blast
  moreover have "trans_open p H t" using t(2) assms(2) by simp
  moreover have "nlog t \<le> Suc (nlog a)" "home t ` {..<nlog t} = insert n (home a ` {..<nlog a})"
    "content t = (content a)(n := f (content a n))"
    using t(3,5,6) w(3-5) v(2,4,5) by simp_all
  ultimately show thesis using w(1) t(1) by (intro that [of w t]) (simp_all add: v_def)
qed

lemma update_ok:
  assumes "trans_open p H s" "\<forall>b\<in>H. \<not> cached s (fst u) b" "fst u \<notin> log_area s" "nlog s + card H < NBUF"
  shows "\<exists>t. update_block u s = Ret () t \<and> trans_open p H t \<and> nlog t \<le> Suc (nlog s) \<and>
    home t ` {..<nlog t} = insert (fst u) (home s ` {..<nlog s}) \<and>
    content t = (content s)(fst u := snd u (content s (fst u))) \<and> lframe s t \<and> (\<forall>c\<in>H. core (bufs t c) = core (bufs s c))"
proof -
  let ?n = "fst u"
  obtain b a where a: "bread ROOTDEV ?n s = Ret b a" "trans_open p (insert b H) a" "b \<notin> H" "cached a ?n b" "b_valid (bufs a b) \<noteq> 0"
    "b_data (bufs a b) = content s ?n" "content a = content s" "lframe s a" "nlog a = nlog s" "home a = home s"
    "\<And>c. c \<noteq> b \<Longrightarrow> bufs a c = bufs s c"
    by (rule open_bread [OF assms(1,2,4)]) (rule that, assumption+)
  have l: "?n \<notin> log_area a" "nlog a < NBUF" using assms(3,4) a(9) lframeD(6) [OF a(8)] by simp_all
  obtain w t where t: "log_write b (upd_buf b (b_data_update (snd u)) a) = Ret () w" "brelse b w = Ret () t" "trans_open p H t"
    "nlog t \<le> Suc (nlog a)" "home t ` {..<nlog t} = insert ?n (home a ` {..<nlog a})"
    "content t = (content a)(?n := snd u (content a ?n))" "lframe a t" "\<And>c. c \<noteq> b \<Longrightarrow> core (bufs t c) = core (bufs a c)"
    by (rule open_update [OF a(2-5) l]) (rule that, assumption+)
  have "update_block u s = Ret () t" using a(1) t(1,2) by (simp add: update_block_def Let_def)
  moreover have "core (bufs t c) = core (bufs s c)" if "c \<in> H" for c
  proof -
    have "c \<noteq> b" using that a(3) by blast
    then show ?thesis using t(8) a(11) by simp
  qed
  moreover have "lframe s t" using a(8) t(7) lframe_trans by blast
  ultimately show ?thesis using t(3-6) a(7,9,10) by (intro exI [of _ t]) simp
qed

lemma updates_ok:
  assumes "trans_open p {} s" "\<forall>u\<in>set us. fst u \<notin> log_area s" "nlog s + length us \<le> NBUF"
  shows "\<exists>t. kfor us update_block s = Ret () t \<and> trans_open p {} t \<and> nlog t \<le> nlog s + length us \<and>
    home t ` {..<nlog t} = fst ` set us \<union> home s ` {..<nlog s} \<and>
    content t = updates us (content s) \<and> lframe s t"
  using assms
proof (induction us arbitrary: s)
  case Nil
  then show ?case by (simp add: updates_def lframe_def)
next
  case (Cons u us)
  obtain t where t: "update_block u s = Ret () t" "trans_open p {} t" "nlog t \<le> Suc (nlog s)"
    "content t = (content s)(fst u := snd u (content s (fst u)))" "lframe s t"
    "home t ` {..<nlog t} = insert (fst u) (home s ` {..<nlog s})"
    using update_ok [OF Cons.prems(1), of u] Cons.prems(2,3) by auto
  have "log_area t = log_area s" using lframeD(6) [OF t(5)] .
  then have "\<forall>u\<in>set us. fst u \<notin> log_area t" using Cons.prems(2) by simp
  moreover have "nlog t + length us \<le> NBUF" using Cons.prems(3) t(3) by simp
  ultimately obtain v where v: "kfor us update_block t = Ret () v" "trans_open p {} v" "nlog v \<le> nlog t + length us"
    "content v = updates us (content t)" "lframe t v" "home v ` {..<nlog v} = fst ` set us \<union> home t ` {..<nlog t}"
    using Cons.IH [OF t(2)] by blast
  have "kfor (u # us) update_block s = Ret () v" using t(1) v(1) by simp
  moreover have "content v = updates (u # us) (content s)" using v(4) t(4) by (cases u) (simp add: updates_def)
  moreover have "lframe s v" using lframe_trans [OF t(5) v(5)] .
  ultimately show ?case using v(2,3,6) t(3,6) by (intro exI [of _ v]) simp
qed

text \<open>No transaction is open and none is waiting on the disk.\<close>

definition log_idle :: "nat \<Rightarrow> 'a log_state_scheme \<Rightarrow> bool" where
  "log_idle p s \<longleftrightarrow> busy p {} {} s \<and> log_dev s = 1 \<and> lh_n (log_lh s) = 0 \<and> log_outstanding s = 0 \<and>
     log_committing s = 0 \<and> rd32 (disk s (hdr s)) 0 = 0"

lemma lc_frame [simp]:
  "busy p N H (log_outstanding_update f s) = busy p N H s" "busy p N H (log_committing_update f s) = busy p N H s"
  "content (log_outstanding_update f s) = content s" "content (log_committing_update f s) = content s"
  "home (log_outstanding_update f s) = home s" "home (log_committing_update f s) = home s"
  "log_area (log_outstanding_update f s) = log_area s" "log_area (log_committing_update f s) = log_area s"
  "hdr (log_outstanding_update f s) = hdr s" "hdr (log_committing_update f s) = hdr s"
proof -
  have c: "cached (log_outstanding_update f s) n b = cached s n b" "cached (log_committing_update f s) n b = cached s n b" for n b
    by (simp_all add: cached_def)
  show "busy p N H (log_outstanding_update f s) = busy p N H s" "busy p N H (log_committing_update f s) = busy p N H s"
    by (simp_all add: busy_def cache_def c)
  show "content (log_outstanding_update f s) = content s" "content (log_committing_update f s) = content s"
    by (rule ext, rule content_cong, simp_all add: c)+
qed (simp_all add: home_def log_area_def hdr_def logno_def fun_eq_iff)

lemma begin_op_ok:
  assumes "log_idle p s"
  shows "begin_op s = Ret () (s\<lparr>log_outstanding := 1\<rparr>)" "trans_open p {} (s\<lparr>log_outstanding := 1\<rparr>)"
proof -
  have "calm p s" using assms cacheD(1) [OF busyD(1)] unfolding log_idle_def by blast
  then show "begin_op s = Ret () (s\<lparr>log_outstanding := 1\<rparr>)"
    using assms by (simp add: log_idle_def begin_op_def begin_op_loop_def Let_def LOGBLOCKS_def)
  show "trans_open p {} (s\<lparr>log_outstanding := 1\<rparr>)" using assms by (simp add: log_idle_def open_defs)
qed

lemma wake_frame [simp]:
  "busy p N H (wake_set ch A s) = busy p N H s" "log_dev (wake_set ch A s) = log_dev s"
  "log_lh (wake_set ch A s) = log_lh s" "log_outstanding (wake_set ch A s) = log_outstanding s"
  "log_committing (wake_set ch A s) = log_committing s" "log_start (wake_set ch A s) = log_start s"
  "hdr (wake_set ch A s) = hdr s" "home (wake_set ch A s) = home s" "log_area (wake_set ch A s) = log_area s"
proof -
  have c: "cached (wake_set ch A s) n b = cached s n b" for n b by (simp add: cached_def)
  show "busy p N H (wake_set ch A s) = busy p N H s" by (simp add: busy_def cache_def c)
qed (simp_all add: wake_set_def hdr_def home_def log_area_def logno_def fun_eq_iff)

lemma end_op_eq:
  assumes "calm p s" "log_outstanding s = 1" "log_committing s = 0"
    "commit (s\<lparr>log_outstanding := 0, log_committing := 1\<rparr>) = Ret () t" "calm p t"
  shows "end_op s = Ret () (wake_set Chan_log {..<NPROC} (t\<lparr>log_committing := 0\<rparr>))"
  using assms by (simp add: end_op_def Let_def wakeup_calm image_iff)

text \<open>What a crash after the first \<open>k\<close> writes leaves, recovered: \<open>d\<close> are the blocks recovery has to give.\<close>

definition recovers_to :: "'a log_state_scheme \<Rightarrow> (uint32 \<Rightarrow> block) \<Rightarrow> (uint32 \<Rightarrow> block) \<Rightarrow> bool" where
  "recovers_to s c d \<longleftrightarrow> (\<forall>q (r :: 'a log_state_scheme). boot_ok q r \<and> log_start r = log_start s \<and> disk r = c \<longrightarrow>
     (\<exists>u. recover_from_log r = Ret () u \<and> rd32 (disk u (hdr s)) 0 = 0 \<and> (\<forall>m. m \<notin> log_area s \<longrightarrow> disk u m = d m)))"

lemma commit_crash:
  assumes "trans_ok p s" "rd32 (disk s (hdr s)) 0 = 0" "log_start z = log_start s"
  shows "\<exists>t tr c. commit s = Ret () t \<and> busy p {} {} t \<and> bframe (s\<lparr>log_lh := log_lh t\<rparr>) t \<and> lh_n (log_lh t) = 0 \<and>
    rd32 (disk t (hdr s)) 0 = 0 \<and> disk_trace t = disk_trace s @ tr \<and> (\<forall>m. m \<notin> log_area s \<longrightarrow> disk t m = content s m) \<and>
    recovers_to z (disk t) (content s) \<and>
    (\<forall>k\<le>length tr. recovers_to z (apply_writes (disk s) (take k tr)) (if k \<le> c then disk s else content s))"
proof -
  have z: "hdr z = hdr s" "log_area z = log_area s" using assms(3) by (simp_all add: hdr_def log_area_def logno_def)
  show ?thesis
  proof (cases "nlog s = 0")
    case True
    have b: "busy p {} {} s" "0 \<le> lh_n (log_lh s)" using trans_okD(1,3) [OF assms(1)] True by simp_all
    have content_s: "content s = disk s" using busy_clean [OF b(1)] by (simp add: fun_eq_iff)
    have "recovers_to z (disk s) (disk s)"
      unfolding recovers_to_def z assms(3) using recover_before [OF assms(1,2)] by (force simp: log_area_def)
    moreover have "commit s = Ret () s" using True by (simp add: commit_def)
    ultimately show ?thesis
      using b True assms(2) busy_clean [OF b(1)] content_s by (intro exI [of _ s] exI [of _ "[]"] exI [of _ 0]) simp
  next
    case False
    obtain t where t: "commit s = Ret () t" "busy p {} {} t" "disk t = apply_writes (disk s) (commit_writes s)"
      "disk_trace t = disk_trace s @ commit_writes s" "lh_n (log_lh t) = 0" "bframe (s\<lparr>log_lh := log_lh t\<rparr>) t"
      using commit_ok [OF assms(1)] False by auto
    have R: "recovers_to z (crash_disk s k) (if k \<le> nlog s then disk s else content s)" if "k \<le> length (commit_writes s)" for k
      unfolding recovers_to_def z assms(3) using recover_crash [OF assms(1,2) that] by (cases "k \<le> nlog s") auto
    have "recovers_to z (disk t) (content s)" using R [of "length (commit_writes s)"] length_commit [of s] t(3) by simp
    moreover have "rd32 (disk t (hdr s)) 0 = 0"
      using t(3) crash_after(1) [OF assms(1)] by (simp add: head_off_def head_block_reads)
    ultimately show ?thesis
      using t crash_after(2) [OF assms(1)] R
      by (intro exI [of _ t] exI [of _ "commit_writes s"] exI [of _ "nlog s"]) simp
  qed
qed

text \<open>
  C1: A transaction, \<^verbatim>\<open>begin_op\<close> to \<^verbatim>\<open>end_op\<close>, of at most \<open>MAXOPBLOCKS\<close> changes of blocks outside the log
  returns with its changes on the disk; and if the machine crashes after any number \<open>k\<close> of the block
  writes it sends to the disk, \<^verbatim>\<open>recover_from_log\<close> on what is on the disk then returns and leaves
  all of the changes or none: none up to some write \<open>c\<close>, all from there on, and all once \<^verbatim>\<open>end_op\<close>
  has returned.
\<close>

theorem transaction_atomic:
  assumes "log_idle p s" "length us \<le> MAXOPBLOCKS" "\<forall>u\<in>set us. fst u \<notin> log_area s"
  shows "\<exists>t tr c. transaction us s = Ret () t \<and> log_idle p t \<and> disk_trace t = disk_trace s @ tr \<and>
    (\<forall>m. m \<notin> log_area s \<longrightarrow> disk t m = updates us (disk s) m) \<and> recovers_to s (disk t) (updates us (disk s)) \<and>
    (\<forall>k\<le>length tr. recovers_to s (apply_writes (disk s) (take k tr)) (if k \<le> c then disk s else updates us (disk s)))"
proof -
  let ?s = "s\<lparr>log_outstanding := 1\<rparr>"
  note b = begin_op_ok [OF assms(1)]
  have i: "busy p {} {} s" "lh_n (log_lh s) = 0" "rd32 (disk s (hdr s)) 0 = 0" using assms(1) by (simp_all add: log_idle_def)
  have "nlog ?s + length us \<le> NBUF" using assms(2) i(2) by (simp add: NBUF_def MAXOPBLOCKS_def)
  then obtain v where v: "kfor us update_block ?s = Ret () v" "trans_open p {} v" "nlog v \<le> nlog ?s + length us"
    "content v = updates us (content ?s)" "lframe ?s v"
    using updates_ok [OF b(2), of us] assms(3) by auto
  let ?v = "v\<lparr>log_outstanding := 0, log_committing := 1\<rparr>"
  have h: "log_start v = log_start s" "hdr v = hdr s" "log_area v = log_area s" "disk v = disk s" "disk_trace v = disk_trace s"
    using lframeD [OF v(5)] by simp_all
  have cs: "content s = disk s" using busy_clean [OF i(1)] by (simp add: fun_eq_iff)
  have "nlog v < NBUF" using v(3) assms(2) i(2) by (simp add: NBUF_def MAXOPBLOCKS_def)
  then have "trans_ok p ?v" using v(2) by (simp add: trans_ok_def open_defs)
  moreover have "rd32 (disk ?v (hdr ?v)) 0 = 0" using i(3) h by simp
  ultimately obtain t tr c where t: "commit ?v = Ret () t" "busy p {} {} t" "bframe (?v\<lparr>log_lh := log_lh t\<rparr>) t"
    "lh_n (log_lh t) = 0" "rd32 (disk t (hdr s)) 0 = 0" "disk_trace t = disk_trace s @ tr"
    "\<forall>m. m \<notin> log_area s \<longrightarrow> disk t m = updates us (disk s) m" "recovers_to s (disk t) (updates us (disk s))"
    "\<forall>k\<le>length tr. recovers_to s (apply_writes (disk s) (take k tr)) (if k \<le> c then disk s else updates us (disk s))"
    using commit_crash [of p ?v s] h v(4) cs by (auto cong: if_cong)
  let ?t = "wake_set Chan_log {..<NPROC} (t\<lparr>log_committing := 0\<rparr>)"
  have vo: "busy p (home v ` {..<nlog v}) {} v" "log_outstanding v = 1" "log_committing v = 0" "log_dev v = 1"
    using v(2) lframeD(4) [OF v(5)] by (simp_all add: open_defs)
  have "end_op v = Ret () ?t"
    using end_op_eq [OF cacheD(1) [OF busyD(1) [OF vo(1)]] vo(2,3) t(1) cacheD(1) [OF busyD(1) [OF t(2)]]] .
  then have "transaction us s = Ret () ?t" using b(1) v(1) by (simp add: transaction_def)
  moreover have "log_idle p ?t" using t(2,4,5) vo(4) bframe_log(3,4,8) [OF t(3)] h by (simp add: log_idle_def)
  ultimately show ?thesis using t(6-9) by (intro exI [of _ ?t] exI [of _ tr] exI [of _ c]) simp
qed

section \<open>A full log\<close>

lemma all_pinned:
  assumes "busy p N {} s" "card N = NBUF" "b < NBUF"
  shows "b_refcnt (bufs s b) \<noteq> 0 \<and> b_blockno (bufs s b) \<in> N"
proof -
  define B where "B = {b. b < NBUF \<and> b_dev (bufs s b) = ROOTDEV \<and> b_blockno (bufs s b) \<in> N}"
  have "N \<subseteq> (\<lambda>b. b_blockno (bufs s b)) ` B" using busyD(3) [OF assms(1)] by (force simp: B_def cached_def)
  then have "NBUF \<le> card B" using surj_card_le [of B N] assms(2) by (simp add: B_def)
  moreover have "B \<subseteq> {..<NBUF}" by (auto simp: B_def)
  ultimately have "B = {..<NBUF}" using card_seteq [of "{..<NBUF}" B] by simp
  then have "b \<in> B" using assms(3) by simp
  then show ?thesis using busyD(5) [OF assms(1) assms(3)] by (simp add: B_def)
qed

lemma commit_full:
  assumes o: "busy p (home s ` {..<nlog s}) {} s" "log_dev s = 1" "\<forall>i<nlog s. home s i \<notin> log_area s"
    and c: "card (home s ` {..<nlog s}) = NBUF"
  shows "commit s = Panic ''bget: no buffers''"
proof -
  note a = all_pinned [OF o(1) c]
  have "logno s 0 \<notin> home s ` {..<nlog s}" using o(3) logno_area [of 0 s] by (auto simp: LOGBLOCKS_def MAXOPBLOCKS_def)
  then have "\<nexists>b. cached s (logno s 0) b" using a unfolding cached_def by metis
  then have "bget ROOTDEV (logno s 0) s = Panic ''bget: no buffers''"
    using a by (intro bget_full [OF busyD(1) [OF o(1)]]) auto
  moreover have "0 < lh_n (log_lh s)" using c by (cases "nlog s = 0") (auto simp: NBUF_def MAXOPBLOCKS_def)
  moreover then have "[0..<nlog s] = 0 # [1..<nlog s]" by (simp add: upt_conv_Cons)
  ultimately show ?thesis
    using o(2) by (simp add: commit_def write_log_def bread_def logno_def ROOTDEV_def)
qed

text \<open>Three system calls in progress that change, together, the blocks \<open>us\<close>.\<close>

definition three_ops :: "(uint32 \<times> (block \<Rightarrow> block)) list \<Rightarrow> 'a log_state_scheme \<Rightarrow> (unit, 'a log_state_scheme) kres" where
  "three_ops us s =
     kbind (kfor [0, 1, 2 :: nat] (\<lambda>_. begin_op) s) (\<lambda>_ s.
     kbind (kfor us update_block s) (\<lambda>_ s.
     kfor [0, 1, 2 :: nat] (\<lambda>_. end_op) s))"

lemma begin_again:
  assumes "calm p s" "log_committing s = 0" "lh_n (log_lh s) + (log_outstanding s + 1) * int MAXOPBLOCKS \<le> int LOGBLOCKS"
  shows "begin_op s = Ret () (s\<lparr>log_outstanding := log_outstanding s + 1\<rparr>)"
  using assms by (simp add: begin_op_def begin_op_loop_def Let_def)

lemma end_early:
  assumes "calm p s" "log_committing s = 0" "2 \<le> log_outstanding s"
  shows "end_op s = Ret () (wake_set Chan_log {..<NPROC} (s\<lparr>log_outstanding := log_outstanding s - 1\<rparr>))"
  using assms by (simp add: end_op_def Let_def wakeup_calm image_iff)

lemma end_last_full:
  assumes "calm p s" "log_committing s = 0" "log_outstanding s = 1"
    "commit (s\<lparr>log_outstanding := 0, log_committing := 1\<rparr>) = Panic e"
  shows "end_op s = Panic e"
  using assms by (simp add: end_op_def Let_def wakeup_calm image_iff)

text \<open>
  C20: The log admits three system calls of \<open>MAXOPBLOCKS\<close> blocks each, as many blocks as the cache has
  buffers.  When they change that many distinct blocks, every buffer is pinned and the last
  \<^verbatim>\<open>end_op\<close> panics in \<^verbatim>\<open>bget\<close>, because \<^verbatim>\<open>write_log\<close> finds no buffer for the first log block.
\<close>

theorem full_log_panics:
  assumes "log_idle p s" "distinct (map fst us)" "length us = 3 * MAXOPBLOCKS" "\<forall>u\<in>set us. fst u \<notin> log_area s"
  shows "three_ops us s = Panic ''bget: no buffers''"
proof -
  let ?s = "s\<lparr>log_outstanding := 3\<rparr>"
  have i: "busy p {} {} s" "log_dev s = 1" "lh_n (log_lh s) = 0" "log_outstanding s = 0" "log_committing s = 0"
    using assms(1) by (simp_all add: log_idle_def)
  have c: "calm p s" using cacheD(1) [OF busyD(1) [OF i(1)]] .
  have b: "kfor [0, 1, 2 :: nat] (\<lambda>_. begin_op) s = Ret () ?s"
    using i c by (simp add: begin_again [where p = p] LOGBLOCKS_def MAXOPBLOCKS_def)
  have "trans_open p {} ?s" using i by (simp add: open_defs)
  then obtain v where v: "kfor us update_block ?s = Ret () v" "trans_open p {} v"
    "home v ` {..<nlog v} = fst ` set us \<union> home ?s ` {..<nlog ?s}" "lframe ?s v"
    using updates_ok [of p ?s us] assms(3,4) i(3) by (auto simp: NBUF_def)
  have o: "busy p (home v ` {..<nlog v}) {} v" "log_dev v = 1" "\<forall>i<nlog v. home v i \<notin> log_area v"
    "log_outstanding v = 3" "log_committing v = 0"
    using v(2) lframeD(4) [OF v(4)] by (simp_all add: open_defs)
  have cv: "calm p v" using cacheD(1) [OF busyD(1) [OF o(1)]] .
  have "card (fst ` set us) = NBUF" using distinct_card [OF assms(2)] assms(3) by (simp add: NBUF_def)
  then have "card (home v ` {..<nlog v}) = NBUF" using v(3) i(3) by simp
  moreover define w where "w = wake_set Chan_log {..<NPROC} (wake_set Chan_log {..<NPROC} (v\<lparr>log_outstanding := 2\<rparr>)\<lparr>log_outstanding := 1\<rparr>)"
  ultimately have "commit (w\<lparr>log_outstanding := 0, log_committing := 1\<rparr>) = Panic ''bget: no buffers''"
    using o by (intro commit_full [where p = p]) simp_all
  moreover have "calm p w" "log_committing w = 0" "log_outstanding w = 1" using cv o(5) by (simp_all add: w_def)
  ultimately have "end_op w = Panic ''bget: no buffers''" using end_last_full by blast
  then show ?thesis
    using b v(1) cv o(4,5) by (simp add: three_ops_def end_early [where p = p] w_def)
qed

definition run_log :: log_state where
  "run_log = bio_state.extend (binit run_bio) (log_state.fields 2 0 0 1 \<lparr>lh_n = 0, lh_block = (\<lambda>_. 0)\<rparr>)"

lemma run_log_simps:
  "bufs run_log = bufs (binit run_bio)" "sleeplocks run_log = sleeplocks (binit run_bio)" "disk run_log = (\<lambda>_ _. 0)"
  "locks run_log = locks (binit run_bio)" "cpus run_log = cpus (binit run_bio)" "tp run_log = tp (binit run_bio)"
  "uart_ready run_log"
  "log_start run_log = 2" "log_dev run_log = 1" "log_outstanding run_log = 0" "log_committing run_log = 0"
  "lh_n (log_lh run_log) = 0"
  using run_binit_simps by (simp_all add: run_log_def bio_state.defs log_state.defs uart_ready_def)

lemma run_log_boot: "boot_ok 1 (run_log\<lparr>disk := d\<rparr>)"
proof -
  let ?t = "run_log\<lparr>disk := d\<rparr>"
  have "\<forall>b<NBUF. blank_buf (bufs run_bio b)" by (simp add: run_bio_simps)
  moreover have "calm 1 ?t" using run_binit_simps(3) calm_cong [of ?t "binit run_bio"] by (simp add: run_log_simps)
  ultimately have "busy 1 {} {} ?t" by (rule binit_busy) (simp_all add: run_log_simps)
  then show ?thesis using run_log_simps(7) by (simp add: boot_ok_def run_log_simps uart_ready_def)
qed

lemma run_log_idle: "log_idle 1 run_log"
proof -
  have "run_log\<lparr>disk := disk run_log\<rparr> = run_log" by simp
  then have "busy 1 {} {} run_log" using run_log_boot [of "disk run_log"] by (simp add: boot_ok_def)
  moreover have "rd32 (\<lambda>_. 0) 0 = 0" by (simp add: rd_def numeral_eq_Suc)
  ultimately show ?thesis by (simp add: log_idle_def run_log_simps)
qed

lemma run_log_area:
  assumes "40 \<le> n" "n < 100"
  shows "of_nat n \<notin> log_area run_log"
proof
  assume "of_nat n \<in> log_area run_log"
  then consider "(of_nat n :: uint32) = of_nat 2" | i where "i < 30" "(of_nat n :: uint32) = of_nat (3 + i)"
    by (auto simp: log_area_def hdr_def logno_def run_log_simps LOGBLOCKS_def MAXOPBLOCKS_def algebra_simps)
  then show False using assms by cases (simp_all add: word_of_nat_eq_iff take_bit_nat_eq_self del: of_nat_add of_nat_numeral)
qed

text \<open>Blocks 40 and 41 change, block 40 twice; the machine is switched off and on again.\<close>

theorem transaction_atomic_witness:
  "\<exists>t u. transaction [(40, \<lambda>d. d(0 := 7)), (41, \<lambda>d. d(0 := 9)), (40, \<lambda>d. d(1 := 8))] run_log = Ret () t \<and>
    disk t 40 0 = 7 \<and> disk t 40 1 = 8 \<and> disk t 41 0 = 9 \<and>
    recover_from_log (run_log\<lparr>disk := disk t\<rparr>) = Ret () u \<and> disk u 40 1 = 8 \<and> disk u 41 0 = 9"
proof -
  let ?us = "[(40, \<lambda>d. d(0 := 7)), (41, \<lambda>d. d(0 := 9)), (40, \<lambda>d. d(1 := 8))] :: (uint32 \<times> (block \<Rightarrow> block)) list"
  have "length ?us \<le> MAXOPBLOCKS" "\<forall>u\<in>set ?us. fst u \<notin> log_area run_log"
    using run_log_area [of 40] run_log_area [of 41] by (simp_all add: MAXOPBLOCKS_def)
  then obtain t where t: "transaction ?us run_log = Ret () t" "recovers_to run_log (disk t) (updates ?us (disk run_log))"
    "\<forall>m. m \<notin> log_area run_log \<longrightarrow> disk t m = updates ?us (disk run_log) m"
    using transaction_atomic [OF run_log_idle] by blast
  obtain u where u: "recover_from_log (run_log\<lparr>disk := disk t\<rparr>) = Ret () u"
    "\<forall>m. m \<notin> log_area run_log \<longrightarrow> disk u m = updates ?us (disk run_log) m"
    using t(2) [unfolded recovers_to_def, rule_format, of 1 "run_log\<lparr>disk := disk t\<rparr>"] run_log_boot by auto
  have "updates ?us d 40 0 = 7" "updates ?us d 40 1 = 8" "updates ?us d 41 0 = 9" for d by (simp_all add: updates_def)
  then show ?thesis
    using t(1,3) u run_log_area [of 40] run_log_area [of 41] by (intro exI [of _ t] exI [of _ u]) simp
qed

theorem full_log_panics_witness:
  "three_ops (map (\<lambda>i. (40 + of_nat i, \<lambda>d. d(0 := 7))) [0..<30]) run_log = Panic ''bget: no buffers''"
proof (rule full_log_panics [OF run_log_idle])
  have "i = j" if "i < 30" "j < 30" "(of_nat i :: uint32) = of_nat j" for i j
    using that by (simp add: word_of_nat_eq_iff take_bit_nat_eq_self)
  then show "distinct (map fst (map (\<lambda>i. (40 + of_nat i :: uint32, \<lambda>d :: block. d(0 := 7))) [0..<30]))"
    by (auto simp: distinct_map inj_on_def)
  have "40 + of_nat i \<notin> log_area run_log" if "i < 30" for i using run_log_area [of "40 + i"] that by simp
  then show "\<forall>u\<in>set (map (\<lambda>i. (40 + of_nat i :: uint32, \<lambda>d :: block. d(0 := 7))) [0..<30]). fst u \<notin> log_area run_log"
    by auto
qed (simp add: MAXOPBLOCKS_def)

end
