(* ===== verification/Sample.thy ===== *)
theory Sample
  imports Transaction File
begin

text \<open>
  A concrete state of the running kernel, for evaluating the operations on: process 1 runs on CPU 0
  outside every critical section, the buffer cache is as \<^verbatim>\<open>binit\<close> leaves it, the disk is blank, and
  the tables of inodes, pipes and open files are empty.
\<close>

definition run_proc :: proc where
  "run_proc = blank_proc\<lparr>p_state := RUNNING, p_pid := 1, p_nofile_cur := 16, p_nofile_max := 16, p_cpu_ticks_max := 100\<rparr>"

definition run_file :: file_state where
  "run_file =
     (let fs = log_state.extend (run_log\<lparr>procs := (\<lambda>_. blank_proc)(1 := run_proc)\<rparr>)
            (fs_state.fields \<lparr>sb_magic = 0, sb_size = 2000, sb_nblocks = 1954, sb_ninodes = 200, sb_nlog = 31,
                sb_logstart = 2, sb_inodestart = 33, sb_bmapstart = 46\<rparr>
              (\<lambda>_. \<lparr>i_dev = 0, i_inum = 0, i_ref = 0, i_valid = 0, i_type = 0, i_major = 0, i_minor = 0, i_nlink = 0,
                 i_size = 0, i_addrs = (\<lambda>_. 0)\<rparr>));
          con = fs_state.extend fs (con_state.fields (\<lambda>_. 0) 0 0 0 0 [] (\<lambda>_. 0));
          pp = con_state.extend con
            (pipe_state.fields (\<lambda>_. \<lparr>pi_data = (\<lambda>_. 0), pi_nread = 0, pi_nwrite = 0, pi_readopen = 1, pi_writeopen = 1\<rparr>))
      in pipe_state.extend pp (file_state.fields (\<lambda>_. \<lparr>f_type = FD_NONE, f_ref = 0, f_readable = False, f_writable = False,
           f_pipe = 0, f_ip = None, f_off = 0, f_major = 0\<rparr>) (\<lambda>_. False)))"

lemmas run_file_defs = run_file_def Let_def log_state.defs fs_state.defs con_state.defs pipe_state.defs file_state.defs

lemma run_file_locks: "calm 1 run_file" "uart_ready run_file" "free_but {} run_file"
proof -
  have "calm 1 run_file = calm 1 run_log" by (rule calm_cong) (simp_all add: run_file_defs)
  moreover have "calm 1 run_log = calm 1 (binit run_bio)" by (rule calm_cong) (simp_all add: run_log_simps)
  ultimately show c: "calm 1 run_file" using run_binit_simps(3) by simp
  then show "free_but {} run_file" by (rule calm_free)
  show "uart_ready run_file" using run_log_simps(7) by (simp add: run_file_defs uart_ready_def)
qed

lemma run_file_simps:
  "procs run_file = (\<lambda>_. blank_proc)(1 := run_proc)" "con_buf run_file = (\<lambda>_. 0)" "con_r run_file = 0" "con_w run_file = 0"
  "con_e run_file = 0" "uart_rx run_file = []" "sleeplocks run_file = sleeplocks run_log" "bufs run_file = bufs run_log"
  "disk run_file = disk run_log" "log_start run_file = 2" "ticks run_file = ticks run_log" "mem run_file = mem run_log"
  by (simp_all add: run_file_defs run_log_simps)

text \<open>The same with a transaction open, over the disk \<open>d\<close> and the inode table \<open>ns\<close>.\<close>

definition run_fs :: "(uint32 \<Rightarrow> block) \<Rightarrow> (nat \<Rightarrow> inode) \<Rightarrow> file_state" where
  "run_fs d ns = run_file\<lparr>disk := d, inodes := ns, log_outstanding := 1\<rparr>"

lemma run_fs_open:
  "trans_open 1 {} (run_fs d ns)" "content (run_fs d ns) = d" "uart_ready (run_fs d ns)" "nlog (run_fs d ns) = 0"
  "inodes (run_fs d ns) = ns" "log_area (run_fs d ns) = insert 2 ((\<lambda>i. word_of_int (int i + 3)) ` {..<30})"
  "sb (run_fs d ns) = \<lparr>sb_magic = 0, sb_size = 2000, sb_nblocks = 1954, sb_ninodes = 200, sb_nlog = 31,
     sb_logstart = 2, sb_inodestart = 33, sb_bmapstart = 46\<rparr>"
proof -
  let ?s = "run_fs d ns"
  have c: "calm 1 ?s" using run_file_locks(1) calm_cong [of ?s run_file] by (simp add: run_fs_def)
  have z: "\<forall>b<NBUF. blank_buf (bufs run_bio b)" by (simp add: run_bio_simps)
  have b: "busy 1 {} {} ?s"
    by (rule binit_busy [OF z c]) (simp_all add: run_fs_def run_file_simps run_log_simps)
  show n: "nlog ?s = 0" by (simp add: run_fs_def run_file_defs run_log_simps)
  show "trans_open 1 {} ?s" using b unfolding open_defs n by (simp add: run_fs_def run_file_defs run_log_simps)
  have "content ?s m = disk ?s m" for m by (rule busy_clean [OF b]) simp
  then show "content ?s = d" by (simp add: fun_eq_iff run_fs_def)
  show "uart_ready ?s" using run_file_locks(2) by (simp add: run_fs_def uart_ready_def)
  show "inodes ?s = ns" by (simp add: run_fs_def)
  show "log_area ?s = insert 2 ((\<lambda>i. word_of_int (int i + 3)) ` {..<30})"
    by (simp add: log_area_def hdr_def logno_def run_fs_def run_file_simps LOGBLOCKS_def MAXOPBLOCKS_def algebra_simps)
  show "sb ?s = \<lparr>sb_magic = 0, sb_size = 2000, sb_nblocks = 1954, sb_ninodes = 200, sb_nlog = 31,
     sb_logstart = 2, sb_inodestart = 33, sb_bmapstart = 46\<rparr>" by (simp add: run_fs_def run_file_defs)
qed

end
