(* ===== verification/ConsoleLine.thy ===== *)
theory ConsoleLine
  imports Sample
begin

text \<open>
  The console's line discipline.  The input buffer is a ring with three counters; what it stands for
  is the finished input a reader may take and the line still being edited.  The interrupt handler
  is shown to implement, key by key, the editing of that pair of strings.
\<close>

section \<open>What the input buffer stands for\<close>

definition con_ready :: "'a con_state_scheme \<Rightarrow> uchar list" where
  "con_ready s = ring_items INPUT_BUF_SIZE (con_buf s) (con_r s) (con_w s)"

definition con_line :: "'a con_state_scheme \<Rightarrow> uchar list" where
  "con_line s = ring_items INPUT_BUF_SIZE (con_buf s) (con_w s) (con_e s)"

text \<open>
  The write counter is between the read counter and the edit counter, which is at most a buffer ahead,
  and the line being edited has no newline.
\<close>

definition con_ok :: "'a con_state_scheme \<Rightarrow> bool" where
  "con_ok s \<longleftrightarrow> unat (con_w s - con_r s) + unat (con_e s - con_w s) \<le> INPUT_BUF_SIZE \<and> 10 \<notin> set (con_line s)"

text \<open>The reference: one key, with the finished input and the line so far.\<close>

fun edit :: "uchar \<Rightarrow> uchar list \<times> uchar list \<Rightarrow> uchar list \<times> uchar list" where
  "edit c (ready, line) =
     (if c = 16 then (ready, line)
      else if c = 21 then (ready, [])
      else if c = 8 \<or> c = 127 then (ready, butlast line)
      else if c = 0 \<or> length ready + length line \<ge> 128 then (ready, line)
      else let c = (if c = 13 then 10 else c); line = line @ [c] in
        if c = 10 \<or> c = 4 \<or> length ready + length line = 128 then (ready @ line, [])
        else (ready, line))"

definition typed :: "'a con_state_scheme \<Rightarrow> uchar list \<times> uchar list" where
  "typed s = (con_ready s, con_line s)"

lemma con_span:
  assumes "con_ok s"
  shows "unat (con_e s - con_r s) = unat (con_w s - con_r s) + unat (con_e s - con_w s)"
proof -
  have "con_e s - con_r s = (con_w s - con_r s) + (con_e s - con_w s)" by simp
  then show ?thesis using assms unfolding con_ok_def INPUT_BUF_SIZE_def by (simp only: unat_word_ariths) simp
qed

lemma con_lengths [simp]: "length (con_ready s) = unat (con_w s - con_r s)" "length (con_line s) = unat (con_e s - con_w s)"
  by (simp_all add: con_ready_def con_line_def)

section \<open>Reading through critical sections\<close>

lemma con_hold [simp]:
  "con_buf (hold lk s) = con_buf s" "con_r (hold lk s) = con_r s" "con_w (hold lk s) = con_w s" "con_e (hold lk s) = con_e s"
  "con_buf (settle s) = con_buf s" "con_r (settle s) = con_r s" "con_w (settle s) = con_w s" "con_e (settle s) = con_e s"
  "uart_rx (hold lk s) = uart_rx s" "uart_rx (settle s) = uart_rx s"
  "con_buf_update f (hold lk s) = hold lk (con_buf_update f s)" "con_w_update g (hold lk s) = hold lk (con_w_update g s)"
  "con_e_update g (hold lk s) = hold lk (con_e_update g s)" "tx_busy_update h (hold lk s) = hold lk (tx_busy_update h s)"
  by (simp_all add: lock_defs)

lemma con_wake [simp]:
  "con_buf (wake_set ch A s) = con_buf s" "con_r (wake_set ch A s) = con_r s" "con_w (wake_set ch A s) = con_w s"
  "con_e (wake_set ch A s) = con_e s" "uart_rx (wake_set ch A s) = uart_rx s" "uart_out (wake_set ch A s) = uart_out s"
  "uart_ready (wake_set ch A s) = uart_ready s"
  by (simp_all add: wake_set_def uart_ready_def)

text \<open>The fields the line discipline uses do not matter to the locks.\<close>

lemma con_free [simp]:
  "free_but A (con_buf_update f s) = free_but A s" "free_but A (con_w_update g s) = free_but A s"
  "free_but A (con_e_update g s) = free_but A s"
  "free_but A (tx_busy_update k s) = free_but A s" "free_but A (uart_rx_update m s) = free_but A s"
  "uart_ready (con_buf_update f s) = uart_ready s" "uart_ready (con_w_update g s) = uart_ready s"
  "uart_ready (con_e_update g s) = uart_ready s" "uart_ready (tx_busy_update k s) = uart_ready s"
  "uart_ready (uart_rx_update m s) = uart_ready s"
  by (simp_all add: free_but_def cpu_ok_def cpu_defs lock_free_def uart_ready_def)

lemma sent_free [simp]: "free_but A (uart_out_update h s) = free_but A s"
  by (simp add: free_but_def cpu_ok_def cpu_defs lock_free_def)

lemma quietD [simp]: "free_but {} s \<Longrightarrow> may_lock lk s" "free_but {} s \<Longrightarrow> cpu_ok s"
  by (simp_all add: may_lock_free_but) (simp add: free_but_def)

lemma wakeup_quiet:
  assumes "free_but {} s"
  shows "wakeup ch s = Ret () (settle (wake_set ch {..<NPROC} s))"
    "lk \<notin> range L_proc \<Longrightarrow> wakeup ch (hold lk s) = Ret () (hold lk (wake_set ch {..<NPROC} s))"
proof -
  show "wakeup ch s = Ret () (settle (wake_set ch {..<NPROC} s))" using assms by (subst wakeup_eq) simp_all
  show "wakeup ch (hold lk s) = Ret () (hold lk (wake_set ch {..<NPROC} s))" if "lk \<notin> range L_proc"
  proof -
    have "L_proc q \<noteq> lk" for q using that by blast
    then show ?thesis using assms by (subst wakeup_eq) simp_all
  qed
qed

lemma consputc_hold: "free_but {} s \<Longrightarrow> uart_ready s \<Longrightarrow> consputc c (hold lk s) = Ret () (hold lk (sent (cons_bytes c) s))"
proof -
  assume a: "free_but {} s" "uart_ready s"
  then have "nested (hold lk s)" by (auto simp: free_but_def cpu_ok_def)
  then show ?thesis using a by (simp add: consputc_nested)
qed

section \<open>One key\<close>

lemma uchar_int:
  fixes c :: uchar
  shows "uint c = 0 \<longleftrightarrow> c = 0" "uint c = 4 \<longleftrightarrow> c = 4" "uint c = 8 \<longleftrightarrow> c = 8" "uint c = 10 \<longleftrightarrow> c = 10"
    "uint c = 13 \<longleftrightarrow> c = 13" "uint c = 16 \<longleftrightarrow> c = 16" "uint c = 21 \<longleftrightarrow> c = 21"
    "uint c = 127 \<longleftrightarrow> c = 127"
  by (auto simp: word_uint_eq_iff)

abbreviation erased :: "nat \<Rightarrow> uchar list" where
  "erased n \<equiv> concat (replicate n (cons_bytes BACKSPACE))"

lemma kill_line_eq:
  assumes "free_but {} s" "uart_ready s" "con_ok s" "k = unat (con_e s - con_w s)"
  shows "kill_line k (hold L_cons s) = Ret () (hold L_cons (sent (erased k) (s\<lparr>con_e := con_w s\<rparr>)))"
  using assms
proof (induction k arbitrary: s)
  case 0
  then have "con_e s - con_w s = 0" by (metis unat_eq_zero)
  then have "s\<lparr>con_e := con_w s\<rparr> = s" by (simp add: con_state.equality)
  then show ?case by simp
next
  case (Suc k)
  let ?t = "sent (cons_bytes BACKSPACE) (s\<lparr>con_e := con_e s - 1\<rparr>)"
  have ne: "con_w s \<noteq> con_e s" using Suc.prems(4) by auto
  have l: "con_line s = con_line ?t @ [con_buf s (slot INPUT_BUF_SIZE (con_e s - 1))]"
    using cons_ring.unpush [OF ne] by (simp add: con_line_def)
  have k: "k = unat (con_e ?t - con_w ?t)" using arg_cong [OF l, of length] Suc.prems(4) by simp
  have "con_ok ?t" using Suc.prems(3,4) l k by (auto simp: con_ok_def)
  then have "kill_line k (hold L_cons ?t) = Ret () (hold L_cons (sent (erased k) (?t\<lparr>con_e := con_w ?t\<rparr>)))"
    using Suc.prems(1,2) k by (intro Suc.IH) simp_all
  moreover have "con_buf s (slot INPUT_BUF_SIZE (con_e s - 1)) \<noteq> 10" using Suc.prems(3) l by (simp add: con_ok_def)
  ultimately show ?case using ne Suc.prems(1,2) by (simp add: consputc_hold Let_def)
qed

definition entered :: "int \<Rightarrow> 'a con_state_scheme \<Rightarrow> 'a con_state_scheme" where
  "entered c s = (sent (cons_bytes c) s)\<lparr>con_buf := (con_buf s)(slot INPUT_BUF_SIZE (con_e s) := word_of_int c),
     con_e := con_e s + 1\<rparr>"

definition finishes :: "int \<Rightarrow> 'a con_state_scheme \<Rightarrow> bool" where
  "finishes c t \<longleftrightarrow> c = 10 \<or> c = 4 \<or> unat (con_e t - con_r t) = INPUT_BUF_SIZE"

lemma consoleintr_char_eq:
  assumes "free_but {} s" "uart_ready s" "c \<noteq> 0" "unat (con_e s - con_r s) < INPUT_BUF_SIZE" "d = (if c = 13 then 10 else c)"
  shows "consoleintr_char c (hold L_cons s) = Ret () (hold L_cons
    (if finishes d (entered d s) then wake_set Chan_cons_r {..<NPROC} ((entered d s)\<lparr>con_w := con_e (entered d s)\<rparr>)
     else entered d s))"
  using assms
  by (simp add: consoleintr_char_def consputc_hold Let_def wakeup_quiet image_iff entered_def finishes_def)

lemma entered_typed:
  assumes "con_ok s" "unat (con_e s - con_r s) < INPUT_BUF_SIZE"
  shows "con_ready (entered c s) = con_ready s" "con_line (entered c s) = con_line s @ [word_of_int c]"
    "unat (con_e (entered c s) - con_r s) = Suc (unat (con_e s - con_r s))"
proof -
  have n: "unat (con_w s - con_r s) + unat (con_e s - con_w s) < INPUT_BUF_SIZE" using assms con_span [OF assms(1)] by simp
  show "con_ready (entered c s) = con_ready s"
    using cons_ring.beyond [OF n] by (simp add: con_ready_def entered_def)
  show "con_line (entered c s) = con_line s @ [word_of_int c]"
    using n cons_ring.push [of "con_e s" "con_w s"] by (simp add: con_line_def entered_def)
  show "unat (con_e (entered c s) - con_r s) = Suc (unat (con_e s - con_r s))"
    using assms(2) unat_plus1_minus [of "con_e s" "con_r s"] by (simp add: entered_def INPUT_BUF_SIZE_def)
qed

lemma finished_typed:
  assumes "unat (con_w s - con_r s) + unat (con_e s - con_w s) \<le> INPUT_BUF_SIZE"
  shows "con_ready (s\<lparr>con_w := con_e s\<rparr>) = con_ready s @ con_line s" "con_line (s\<lparr>con_w := con_e s\<rparr>) = []"
  using assms ring_split [of "con_w s" "con_r s" "con_e s" INPUT_BUF_SIZE "con_buf s"]
  by (simp_all add: con_ready_def con_line_def ring_empty INPUT_BUF_SIZE_def)

text \<open>The parts of the state a key may change, and what it does to the represented strings.\<close>

definition keyed :: "uchar \<Rightarrow> 'a con_state_scheme \<Rightarrow> 'a con_state_scheme \<Rightarrow> bool" where
  "keyed c s t \<longleftrightarrow> typed t = edit c (typed s) \<and> con_ok t \<and> free_but {} t \<and> uart_ready t \<and> con_r t = con_r s \<and>
     uart_rx t = uart_rx s"

lemma typed_cong:
  "con_buf t = con_buf s \<Longrightarrow> con_r t = con_r s \<Longrightarrow> con_w t = con_w s \<Longrightarrow> con_e t = con_e s \<Longrightarrow>
    typed t = typed s \<and> con_ok t = con_ok s"
  by (simp add: typed_def con_ready_def con_line_def con_ok_def)

lemma key_char:
  fixes c :: uchar
  assumes "free_but {} s" "uart_ready s" "con_ok s" "c \<notin> {16, 21, 8, 127}"
  shows "\<exists>t. consoleintr_char (int (unat c)) (hold L_cons s) = Ret () (hold L_cons t) \<and> keyed c s t"
proof (cases "c \<noteq> 0 \<and> unat (con_e s - con_r s) < INPUT_BUF_SIZE")
  case False
  then have "consoleintr_char (int (unat c)) (hold L_cons s) = Ret () (hold L_cons s)"
    by (auto simp: consoleintr_char_def)
  moreover have "keyed c s s"
    using False assms con_span [OF assms(3)] by (auto simp: keyed_def typed_def INPUT_BUF_SIZE_def)
  ultimately show ?thesis by blast
next
  case True
  define d where "d = (if c = 13 then 10 else c)"
  let ?d = "int (unat d)" and ?e = "entered (int (unat d)) s"
  have d: "?d = (if int (unat c) = 13 then 10 else int (unat c))" "word_of_int ?d = d" "?d = 10 \<longleftrightarrow> d = 10" "?d = 4 \<longleftrightarrow> d = 4"
    by (simp_all add: d_def uchar_int)
  have e: "con_ready ?e = con_ready s" "con_line ?e = con_line s @ [d]" "unat (con_e ?e - con_r s) = Suc (unat (con_e s - con_r s))"
    using entered_typed [OF assms(3), of ?d] True d(2) by simp_all
  have f: "free_but {} ?e" "uart_ready ?e" "con_r ?e = con_r s" "con_w ?e = con_w s" "uart_rx ?e = uart_rx s"
    using assms(1,2) by (simp_all add: entered_def)
  have n: "unat (con_w ?e - con_r ?e) + unat (con_e ?e - con_w ?e) \<le> INPUT_BUF_SIZE"
    using arg_cong [OF e(2), of length] con_span [OF assms(3)] True f(3,4) by simp
  have ed: "edit c (typed s) = (if finishes ?d ?e then (con_ready s @ con_line s @ [d], []) else (con_ready s, con_line s @ [d]))"
    using True assms(4) con_span [OF assms(3)] d(3,4) e(3) f(3)
    by (auto simp: typed_def finishes_def d_def INPUT_BUF_SIZE_def Let_def)
  define t where "t = (if finishes ?d ?e then wake_set Chan_cons_r {..<NPROC} (?e\<lparr>con_w := con_e ?e\<rparr>) else ?e)"
  have "consoleintr_char (int (unat c)) (hold L_cons s) = Ret () (hold L_cons t)"
    unfolding t_def using True assms(1,2) d(1) uchar_int(1) by (intro consoleintr_char_eq) auto
  moreover have "keyed c s t"
  proof (cases "finishes ?d ?e")
    case fin: True
    note g = finished_typed [OF n]
    have "typed t = (con_ready s @ con_line s @ [d], []) \<and> con_ok t = con_ok (?e\<lparr>con_w := con_e ?e\<rparr>)"
      using fin g e typed_cong [of t "?e\<lparr>con_w := con_e ?e\<rparr>"] by (simp add: t_def) (simp add: typed_def)
    moreover have "con_ok (?e\<lparr>con_w := con_e ?e\<rparr>)"
      using g(2) e(3) True f(3) by (simp add: con_ok_def)
    ultimately show ?thesis using fin ed f by (simp add: keyed_def) (simp add: t_def)
  next
    case False
    then have "10 \<notin> set (con_line ?e)" using assms(3) e(2) d(3) by (auto simp: finishes_def con_ok_def)
    then have "con_ok ?e" using n by (simp add: con_ok_def)
    then show ?thesis using False ed e f by (simp add: keyed_def t_def) (simp add: typed_def)
  qed
  ultimately show ?thesis by blast
qed

lemma key_erase:
  assumes "free_but {} s" "uart_ready s" "con_ok s" "c = 8 \<or> c = 127"
  shows "\<exists>t. (if con_e s \<noteq> con_w s then consputc BACKSPACE (hold L_cons (s\<lparr>con_e := con_e s - 1\<rparr>)) else Ret () (hold L_cons s)) =
    Ret () (hold L_cons t) \<and> keyed c s t"
proof (cases "con_e s = con_w s")
  case True
  then have "con_line s = []" by (simp add: con_line_def ring_empty)
  then show ?thesis using True assms by (intro exI [of _ s]) (auto simp: keyed_def typed_def)
next
  case False
  let ?t = "sent (cons_bytes BACKSPACE) (s\<lparr>con_e := con_e s - 1\<rparr>)"
  have l: "con_line s = con_line ?t @ [con_buf s (slot INPUT_BUF_SIZE (con_e s - 1))]"
    using cons_ring.unpush [of "con_w s" "con_e s"] False by (simp add: con_line_def)
  have "unat (con_e s - con_w s) = Suc (unat (con_e ?t - con_w ?t))" using arg_cong [OF l, of length] by simp
  then have "con_ok ?t" using assms(3) l by (auto simp: con_ok_def)
  moreover have "typed ?t = (con_ready s, butlast (con_line s))" unfolding l by (simp add: typed_def con_ready_def)
  ultimately have "keyed c s ?t" using assms by (auto simp: keyed_def typed_def)
  then show ?thesis using False assms by (intro exI [of _ ?t]) (simp add: consputc_hold)
qed

lemma key_kill:
  assumes "free_but {} s" "uart_ready s" "con_ok s"
  shows "\<exists>t. kill_line (unat (con_e s - con_w s)) (hold L_cons s) = Ret () (hold L_cons t) \<and> keyed 21 s t"
proof -
  let ?t = "sent (erased (unat (con_e s - con_w s))) (s\<lparr>con_e := con_w s\<rparr>)"
  have "con_line ?t = []" "con_ready ?t = con_ready s" by (simp_all add: con_line_def con_ready_def ring_empty)
  then have "keyed 21 s ?t" using assms by (simp add: keyed_def typed_def con_ok_def)
  then show ?thesis using kill_line_eq [OF assms refl] by blast
qed

section \<open>The interrupt handler\<close>

lemma dump_text:
  "\<exists>t. printf_text ''\<newline>'' [] = Some t" "\<exists>t. printf_text ''%d %s %s'' [PWord x, PStr (Some y), PStr (Some z)] = Some t"
  by (simp_all add: directive_text_def directive_of_def char_at_def)

lemma printf_hold:
  assumes "free_but {} s" "uart_ready s" "printf_text fmt ap = Some t" "lk \<noteq> L_pr"
  shows "printf fmt ap (hold lk s) = Ret 0 (hold lk (sent t s))"
  using assms by (subst printf_eq) simp_all

abbreviation dump_one :: "nat \<Rightarrow> 'a proc_state_scheme \<Rightarrow> (unit, 'a proc_state_scheme) kres" where
  "dump_one p s \<equiv> (if p_state (procs s p) = UNUSED then Ret () s
       else kbind (printf ''%d %s %s'' [PWord (of_cint (p_pid (procs s p))), PStr (Some (state_name (p_state (procs s p)))),
                PStr (Some (string_of_bytes (p_name (procs s p))))] s) (\<lambda>_ s.
         kbind (printf ''\<newline>'' [] s) (\<lambda>_ s. Ret () s)))"

lemma dump_one:
  assumes "free_but {} s" "uart_ready s"
  shows "\<exists>t. dump_one p (hold L_cons s) = Ret () (hold L_cons (sent t s))"
proof -
  obtain a where a: "printf_text ''%d %s %s'' [PWord (of_cint (p_pid (procs s p))), PStr (Some (state_name (p_state (procs s p)))),
                PStr (Some (string_of_bytes (p_name (procs s p))))] = Some a" using dump_text(2) by blast
  obtain b where b: "printf_text ''\<newline>'' [] = Some b" using dump_text(1) by blast
  show ?thesis
  proof (cases "p_state (procs s p) = UNUSED")
    case True
    then show ?thesis by (intro exI [of _ "[]"]) simp
  next
    case False
    then show ?thesis
      using assms printf_hold [OF assms a] printf_hold [of "sent a s", OF _ _ b] by (intro exI [of _ "a @ b"]) simp
  qed
qed

lemma dump_all:
  assumes "free_but {} s" "uart_ready s"
  shows "\<exists>t. kfor ps dump_one (hold L_cons s) = Ret () (hold L_cons (sent t s))"
  using assms
proof (induction ps arbitrary: s)
  case Nil
  then show ?case by (intro exI [of _ "[]"]) simp
next
  case (Cons p ps)
  obtain a where a: "dump_one p (hold L_cons s) = Ret () (hold L_cons (sent a s))" using dump_one [OF Cons.prems] by blast
  obtain t where "kfor ps dump_one (hold L_cons (sent a s)) = Ret () (hold L_cons (sent t (sent a s)))"
    using Cons.IH [of "sent a s"] Cons.prems by auto
  then have "kfor (p # ps) dump_one (hold L_cons s) = Ret () (hold L_cons (sent (a @ t) s))"
    unfolding kfor.simps a kbind.simps by simp
  then show ?case by blast
qed

lemma procdump_hold:
  assumes "free_but {} s" "uart_ready s"
  shows "\<exists>t. procdump (hold L_cons s) = Ret () (hold L_cons (sent t s))"
proof -
  obtain b where b: "printf_text ''\<newline>'' [] = Some b" using dump_text(1) by blast
  obtain t where t: "kfor all_procs dump_one (hold L_cons (sent b s)) = Ret () (hold L_cons (sent t (sent b s)))"
    using dump_all [of "sent b s" all_procs] assms by auto
  have "printf ''\<newline>'' [] (hold L_cons s) = Ret 0 (hold L_cons (sent b s))" using printf_hold [OF assms b] by simp
  then have "procdump (hold L_cons s) = Ret () (hold L_cons (sent (b @ t) s))"
    unfolding procdump_def using t by simp
  then show ?thesis by blast
qed

lemma consoleintr_keyed:
  fixes c :: uchar
  assumes "free_but {} s" "uart_ready s" "con_ok s"
  shows "\<exists>t. consoleintr (int (unat c)) s = Ret () t \<and> keyed c s t"
proof -
  let ?m = "if uint c = 16 then procdump (hold L_cons s)
            else if uint c = 21 then kill_line (unat (con_e s - con_w s)) (hold L_cons s)
            else if uint c = 8 \<or> uint c = 127 then
              if con_e s \<noteq> con_w s then consputc BACKSPACE (hold L_cons (s\<lparr>con_e := con_e s - 1\<rparr>))
              else Ret () (hold L_cons s)
            else consoleintr_char (uint c) (hold L_cons s)"
  have "\<exists>t. ?m = Ret () (hold L_cons t) \<and> keyed c s t"
  proof -
    consider "c = 16" | "c = 21" | "c = 8 \<or> c = 127" | "c \<notin> {16, 21, 8, 127}" by blast
    then show ?thesis
    proof cases
      case 1
      obtain t where "procdump (hold L_cons s) = Ret () (hold L_cons (sent t s))" using procdump_hold [OF assms(1,2)] by blast
      moreover have "keyed c s (sent t s)"
        using assms 1 typed_cong [of "sent t s" s] by (simp add: keyed_def) (simp add: typed_def)
      ultimately show ?thesis using 1 by (intro exI [of _ "sent t s"]) simp
    next
      case 2
      then show ?thesis using key_kill [OF assms] by (simp add: uchar_int)
    next
      case 3
      then show ?thesis using key_erase [OF assms] by (auto simp: uchar_int)
    next
      case 4
      then show ?thesis using key_char [OF assms 4] by (simp add: uchar_int)
    qed
  qed
  then obtain t where t: "?m = Ret () (hold L_cons t)" "keyed c s t" by blast
  have "consoleintr (int (unat c)) s = kbind ?m (\<lambda>_. release L_cons)"
    using assms(1) by (simp add: consoleintr_def Let_def split del: if_split cong: if_cong)
  then have "consoleintr (int (unat c)) s = Ret () (settle t)"
    using t(2) by (simp only: t(1) kbind.simps) (simp add: keyed_def)
  moreover have "keyed c s (settle t)" using t(2) typed_cong [of "settle t" t] by (simp add: keyed_def)
  ultimately show ?thesis by blast
qed

lemma uartintr_loop_keyed:
  assumes "free_but {} s" "uart_ready s" "con_ok s" "k = length (uart_rx s) + 1"
  shows "\<exists>t. uartintr_loop k s = Ret () t \<and> typed t = fold edit (uart_rx s) (typed s) \<and> con_ok t \<and> uart_rx t = [] \<and>
    free_but {} t \<and> con_r t = con_r s"
  using assms
proof (induction "uart_rx s" arbitrary: s k)
  case Nil
  then show ?case by (simp add: uartgetc_def)
next
  case (Cons c cs)
  let ?s = "s\<lparr>uart_rx := cs\<rparr>"
  have "typed ?s = typed s" "con_ok ?s" using typed_cong [of ?s s] Cons.prems(3) by simp_all
  then obtain u where u: "consoleintr (int (unat c)) ?s = Ret () u" "keyed c ?s u"
    using consoleintr_keyed [of ?s c] Cons.prems by auto
  have k: "typed u = edit c (typed s)" "con_ok u" "free_but {} u" "uart_ready u" "con_r u = con_r s" "uart_rx u = cs"
    using u(2) \<open>typed ?s = typed s\<close> by (simp_all add: keyed_def)
  obtain t where t: "uartintr_loop (length cs + 1) u = Ret () t" "typed t = fold edit cs (typed u)" "con_ok t" "uart_rx t = []"
    "free_but {} t" "con_r t = con_r u"
    using Cons.hyps(1) [of u "length cs + 1"] k by auto
  have "0 \<le> uint c" by simp
  then have "uint c \<noteq> - 1" by linarith
  then show ?case using t k u(1) Cons.prems(4) Cons.hyps(2) [symmetric] by (intro exI [of _ t]) (simp add: uartgetc_def)
qed

text \<open>
  C21: \<^verbatim>\<open>uartintr\<close> takes every received byte from the UART and the input buffer then stands for exactly
  what editing the line by these keys, one after the other, gives: erase, kill, carriage return as
  newline, end of line or of file handing the line to readers, and a full buffer refusing
  characters.  The counters stay in range, across the wrap-around of the 32-bit counters.
\<close>

theorem uartintr_edits:
  assumes "free_but {} s" "uart_ready s" "con_ok s"
  shows "\<exists>t. uartintr s = Ret () t \<and> uart_rx t = [] \<and> con_ok t \<and> con_r t = con_r s \<and>
    (con_ready t, con_line t) = fold edit (uart_rx s) (con_ready s, con_line s)"
proof -
  let ?s = "wake_set Chan_tx {..<NPROC} (s\<lparr>tx_busy := 0\<rparr>)"
  have "uart_lsr s AND LSR_TX_IDLE \<noteq> 0" using assms(2) by (simp add: uart_ready_def)
  then have "uartintr s = uartintr_loop (length (uart_rx s) + 1) (settle ?s)"
    using assms(1) by (simp add: uartintr_def Let_def wakeup_quiet image_iff del: uartintr_loop.simps)
  moreover have "typed (settle ?s) = typed s" "con_ok (settle ?s)" using typed_cong [of "settle ?s" s] assms(3) by simp_all
  ultimately show ?thesis
    using uartintr_loop_keyed [of "settle ?s"] assms(1,2) by (auto simp: typed_def)
qed

text \<open>Typing \<open>ax\<close>, erase, \<open>b\<close>, return, \<open>c\<close>.\<close>

theorem uartintr_edits_witness:
  "\<exists>t. uartintr (run_file\<lparr>uart_rx := [97, 120, 127, 98, 13, 99]\<rparr>) = Ret () t \<and> con_ready t = [97, 98, 10] \<and> con_line t = [99]"
proof -
  let ?s = "run_file\<lparr>uart_rx := [97, 120, 127, 98, 13, 99]\<rparr>"
  have "con_ready ?s = []" "con_line ?s = []" by (simp_all add: con_ready_def con_line_def run_file_simps ring_empty)
  moreover then have "con_ok ?s" by (simp add: con_ok_def run_file_simps)
  moreover have "fold edit [97, 120, 127, 98, 13, 99] ([], []) = ([97, 98, 10], [99])" by (simp add: Let_def)
  ultimately show ?thesis using uartintr_edits [of ?s] run_file_locks by auto
qed

end
