(* ===== verification/Limits.thy ===== *)
theory Limits
  imports Trap Sample
begin

text \<open>
  The resource limits this kernel adds: the ceilings set by \<^verbatim>\<open>sys_setrlimit\<close>, the check of
  \<^verbatim>\<open>sys_open\<close>, the descriptors \<^verbatim>\<open>fdalloc\<close> gives out, and the limit on CPU ticks that the timer
  interrupt enforces.
\<close>

section \<open>Arguments and refusals\<close>

lemma argint_calm:
  assumes "calm p s"
  shows "argint 0 s = Ret (to_int (tf_get p TF_a0 s)) s" "argint 1 s = Ret (to_int (tf_get p TF_a1 s)) s"
  using assms by (simp_all add: argint_def argraw_def)

lemma sent_calm [simp]: "calm p (uart_out_update f s) = calm p s"
  by (rule calm_cong) simp_all

lemma ready_proc [simp]: "uart_ready (upd_proc p f s) = uart_ready s"
  by (simp add: uart_ready_def upd_proc_def)

lemma printf_calm:
  assumes "calm p s" "uart_ready s" "printf_text fmt ap = Some t"
  shows "printf fmt ap s = Ret 0 (sent t s)"
  using assms by (simp add: printf_eq)

lemma refuse_calm:
  assumes "calm p s" "uart_ready s" "\<exists>t. printf_text fmt ap = Some t"
  shows "\<exists>t. refuse fmt ap s = Ret (- 1) (sent t s)"
  using assms printf_calm by (fastforce simp: refuse_def)

lemma limit_texts:
  "\<exists>t. printf_text ''setrlimit: limit must be > 0\<newline>'' [] = Some t"
  "\<exists>t. printf_text ''setrlimit: exceeds system max %d\<newline>'' [PWord x] = Some t"
  "\<exists>t. printf_text ''setrlimit: limit must be greater than CPU ticks used.\<newline>'' [] = Some t"
  "\<exists>t. printf_text ''setrlimit: exceeds system NOFILE limit %d\<newline>'' [PWord x] = Some t"
  "\<exists>t. printf_text ''setrlimit: can't set below currently open files (%d)\<newline>'' [PWord x] = Some t"
  "\<exists>t. printf_text ''setrlimit: invalid resource.'' [] = Some t"
  "\<exists>t. printf_text ''open: process file limit reached (%d)\<newline>'' [PWord x] = Some t"
  "\<exists>t. printf_text ''\<newline>[ALERT] PID %d killed: cpu limit(%d) reached!\<newline>'' [PWord x, PWord y] = Some t"
  by (simp_all add: directive_of_def char_at_def directive_text_def)

lemmas limit_refusals = limit_texts [THEN refuse_calm [rotated 2]]

section \<open>Setting a limit\<close>

text \<open>The new state of the process for an acceptable limit.\<close>

definition limited :: "int \<Rightarrow> int \<Rightarrow> proc \<Rightarrow> proc option" where
  "limited resource m pr =
     (if resource = RLIMIT_CPU \<and> m \<noteq> 0 \<and> m \<le> MAX_CPU_TICKS \<and> p_cpu_ticks pr < of_cint m
      then Some (pr\<lparr>p_cpu_ticks_max := of_cint m\<rparr>)
      else if resource = RLIMIT_NOFILE \<and> int (card {i. i < NOFILE \<and> p_ofile pr i \<noteq> None}) < m \<and> m \<le> int NOFILE
      then Some (pr\<lparr>p_nofile_max := m\<rparr>)
      else None)"

lemma open_files_card: "get_proc_open_files p s = int (card {i. i < NOFILE \<and> p_ofile (procs s p) i \<noteq> None})"
proof -
  let ?xs = "filter (\<lambda>i. p_ofile (procs s p) i \<noteq> None) [0..<NOFILE]"
  have "card (set ?xs) = length ?xs" by (rule distinct_card) simp
  moreover have "set ?xs = {i. i < NOFILE \<and> p_ofile (procs s p) i \<noteq> None}" by auto
  ultimately show ?thesis by (simp add: get_proc_open_files_def)
qed

definition answers :: "nat \<Rightarrow> 'a proc_state_scheme \<Rightarrow> proc option \<Rightarrow> (uint64, 'a proc_state_scheme) kres \<Rightarrow> bool" where
  "answers p s new m \<longleftrightarrow> (case new of
       Some pr \<Rightarrow> m = Ret 0 (s\<lparr>procs := (procs s)(p := pr)\<rparr>)
     | None \<Rightarrow> \<exists>msg. m = Ret (- 1) (sent msg s))"

lemma answers_None: "\<exists>msg. m = Ret (- 1) (sent msg s) \<Longrightarrow> answers p s None m"
  by (simp add: answers_def)

lemma setrlimit_cpu_answers:
  assumes "calm p s" "uart_ready s"
  shows "answers p s (limited RLIMIT_CPU m (procs s p)) (setrlimit_cpu m s)"
proof -
  note r = limit_refusals [OF assms, THEN answers_None]
  have n: "RLIMIT_CPU \<noteq> RLIMIT_NOFILE" by (simp add: RLIMIT_CPU_def RLIMIT_NOFILE_def)
  consider "m = 0" | "m \<noteq> 0" "m > MAX_CPU_TICKS" | "m \<noteq> 0" "m \<le> MAX_CPU_TICKS" "of_cint m \<le> p_cpu_ticks (procs s p)"
    | "m \<noteq> 0" "m \<le> MAX_CPU_TICKS" "p_cpu_ticks (procs s p) < of_cint m" by (meson not_le)
  then show ?thesis
  proof cases
    case 1
    then show ?thesis using r(1) n by (simp add: setrlimit_cpu_def limited_def)
  next
    case 2
    then show ?thesis using r(2) n by (simp add: setrlimit_cpu_def limited_def)
  next
    case 3
    then show ?thesis using r(3) n assms(1) by (simp add: setrlimit_cpu_def limited_def leD)
  next
    case 4
    then have "\<not> of_cint m \<le> p_cpu_ticks (procs s p)" by (simp only: not_le simp_thms)
    then show ?thesis using 4 assms(1) by (simp add: setrlimit_cpu_def limited_def answers_def upd_proc_def)
  qed
qed

lemma setrlimit_nofile_answers:
  assumes "calm p s" "uart_ready s"
  shows "answers p s (limited RLIMIT_NOFILE m (procs s p)) (setrlimit_nofile m s)"
proof -
  note r = limit_refusals [OF assms, THEN answers_None]
  have n: "RLIMIT_NOFILE \<noteq> RLIMIT_CPU" by (simp add: RLIMIT_CPU_def RLIMIT_NOFILE_def)
  let ?o = "int (card {i. i < NOFILE \<and> p_ofile (procs s p) i \<noteq> None})"
  consider "m > int NOFILE" | "m \<le> int NOFILE" "m \<le> 0" | "m \<le> int NOFILE" "0 < m" "m \<le> ?o" | "m \<le> int NOFILE" "?o < m" by linarith
  then show ?thesis
  proof cases
    case 1
    then show ?thesis using r(4) n by (simp add: setrlimit_nofile_def limited_def)
  next
    case 2
    then show ?thesis using r(1) n by (simp add: setrlimit_nofile_def limited_def)
  next
    case 3
    then show ?thesis using r(5) n assms(1) by (simp add: setrlimit_nofile_def limited_def open_files_card Let_def)
  next
    case 4
    then show ?thesis using n assms(1) by (simp add: setrlimit_nofile_def limited_def answers_def open_files_card Let_def upd_proc_def)
  qed
qed


lemma of_cint_neg:
  assumes "m < 0" "- (2 ^ 31) \<le> m"
  shows "2 ^ 63 \<le> unat (of_cint m)"
proof -
  have "m mod 2 ^ 64 = (m + 2 ^ 64) mod 2 ^ 64" by simp
  also have "\<dots> = m + 2 ^ 64" using assms by (intro mod_pos_pos_trivial) simp_all
  finally have e: "int (unat (of_cint m)) = m + 2 ^ 64" by (simp add: of_cint_def uint_word_of_int)
  have "int (2 ^ 63) \<le> int (unat (of_cint m))" unfolding e using assms by simp
  then show ?thesis by (simp only: of_nat_le_iff)
qed

lemma to_int_ge: "- (2 ^ 31) \<le> to_int w"
  using sint_greater_eq [of "ucast w :: 32 word"] by (simp add: to_int_def)

text \<open>
  C30: A negative CPU limit is accepted: compared with the ticks used it counts as a number of at least
  \<open>2 ^ 63\<close>, so the process may set itself a ceiling far beyond the system maximum.
\<close>

theorem setrlimit_accepts_negative:
  assumes "calm p s" "uart_ready s" "to_int (tf_get p TF_a0 s) = RLIMIT_CPU" "to_int (tf_get p TF_a1 s) < 0"
    "unat (p_cpu_ticks (procs s p)) < 2 ^ 63"
  shows "\<exists>t. sys_setrlimit s = Ret 0 t \<and> 2 ^ 63 \<le> unat (p_cpu_ticks_max (procs t p))"
proof -
  let ?m = "to_int (tf_get p TF_a1 s)"
  have b: "2 ^ 63 \<le> unat (of_cint ?m)" by (rule of_cint_neg [OF assms(4) to_int_ge])
  then have "p_cpu_ticks (procs s p) < of_cint ?m" using assms(5) by (simp add: word_less_nat_alt)
  then have "limited RLIMIT_CPU ?m (procs s p) = Some ((procs s p)\<lparr>p_cpu_ticks_max := of_cint ?m\<rparr>)"
    using assms(4) by (simp add: limited_def MAX_CPU_TICKS_def)
  then have "sys_setrlimit s = Ret 0 (s\<lparr>procs := (procs s)(p := (procs s p)\<lparr>p_cpu_ticks_max := of_cint ?m\<rparr>)\<rparr>)"
    using setrlimit_cpu_answers [OF assms(1,2), of ?m] assms(3) argint_calm [OF assms(1)]
    by (simp add: answers_def sys_setrlimit_def)
  then show ?thesis using b by simp
qed

section \<open>Descriptors\<close>

lemma fdalloc_calm:
  assumes "calm p s"
  shows "fdalloc f s = (case find (\<lambda>fd. p_ofile (procs s p) fd = None) [0..<nat (p_nofile_cur (procs s p))] of
      Some fd \<Rightarrow> Ret (int fd) (upd_proc p (p_ofile_update (\<lambda>ofs. ofs(fd := Some f))) s)
    | None \<Rightarrow> Ret (- 1) s)"
  using assms by (simp add: fdalloc_def)

lemma files_hold [simp]:
  "files (hold lk s) = files s" "files (settle s) = files s" "upd_file f g (hold lk s) = hold lk (upd_file f g s)"
  "files (upd_proc q h s) = files s" "upd_file f g (upd_proc q h s) = upd_proc q h (upd_file f g s)"
  "calm p (upd_file f g s) = calm p s" "procs (upd_file f g s) = procs s"
proof -
  show "calm p (upd_file f g s) = calm p s" by (rule calm_cong) (simp_all add: upd_file_def)
qed (simp_all add: lock_defs upd_file_def upd_proc_def)

text \<open>
  C26: \<^verbatim>\<open>dup\<close> gives the file of an open descriptor the lowest free descriptor below the soft limit and
  counts the new reference; it returns -1 and changes nothing when the argument is not an open
  descriptor or none is free.  The ceiling set by \<^verbatim>\<open>setrlimit\<close> does not enter.
\<close>

theorem dup_lowest_descriptor:
  assumes "calm p s" "fd = to_int (tf_get p TF_a0 s)" "\<forall>i f. p_ofile (procs s p) i = Some f \<longrightarrow> 1 \<le> f_ref (files s f)"
  shows "case if fd < 0 \<or> int NOFILE \<le> fd then None else p_ofile (procs s p) (nat fd) of
      None \<Rightarrow> sys_dup s = Ret (- 1) s
    | Some f \<Rightarrow>
       if \<forall>i < nat (p_nofile_cur (procs s p)). p_ofile (procs s p) i \<noteq> None then sys_dup s = Ret (- 1) s
       else \<exists>i < nat (p_nofile_cur (procs s p)). p_ofile (procs s p) i = None \<and> (\<forall>j<i. p_ofile (procs s p) j \<noteq> None) \<and>
         sys_dup s = Ret (of_nat i) (upd_file f (f_ref_update (\<lambda>r. r + 1))
           (upd_proc p (p_ofile_update (\<lambda>ofs. ofs(i := Some f))) s))"
proof -
  have a: "argfd 0 s = (case if fd < 0 \<or> int NOFILE \<le> fd then None else p_ofile (procs s p) (nat fd) of
      None \<Rightarrow> Ret None s | Some f \<Rightarrow> Ret (Some (fd, f)) s)"
    using argint_calm(1) [OF assms(1)] assms(1,2) by (simp add: argfd_def split: option.split)
  show ?thesis
  proof (cases "if fd < 0 \<or> int NOFILE \<le> fd then None else p_ofile (procs s p) (nat fd)")
    case None
    then show ?thesis using a by (simp add: sys_dup_def with_fd_def)
  next
    case (Some f)
    then have "1 \<le> f_ref (files s f)" using assms(3) by (auto split: if_splits)
    moreover have "sys_dup s = kbind (fdalloc f s) (\<lambda>fd s. if fd < 0 then Ret (- 1) s
        else kbind (filedup f s) (\<lambda>_ s. Ret (of_cint fd) s))"
      using a Some by (simp add: sys_dup_def with_fd_def)
    ultimately show ?thesis
      using assms(1) Some
      by (cases "find (\<lambda>fd. p_ofile (procs s p) fd = None) [0..<nat (p_nofile_cur (procs s p))]")
        (auto simp: fdalloc_calm find_lowest filedup_def Let_def of_cint_def)
  qed
qed

section \<open>The limit on CPU ticks\<close>

text \<open>What a timer tick makes of the running process.\<close>

definition ticked :: "proc \<Rightarrow> proc" where
  "ticked pr = (let pr = p_cpu_ticks_update (\<lambda>n. n + 1) pr in
     if 0 < p_cpu_ticks_max pr \<and> p_cpu_ticks_max pr \<le> p_cpu_ticks pr then pr\<lparr>p_killed := 1\<rparr> else pr)"

lemma charge_tick_calm:
  assumes "calm p s" "uart_ready s" "p_state (procs s p) = RUNNING"
  shows "\<exists>msg. charge_tick s = Ret () (sent msg (upd_proc p ticked s))"
proof -
  have m: "myproc s = Ret (Some p) s" using assms(1) by (simp add: myproc_eq)
  let ?s = "upd_proc p (p_cpu_ticks_update (\<lambda>n. n + 1)) s"
  have c: "calm p ?s" "uart_ready ?s" using assms(1,2) by simp_all
  have t: "upd_proc p ticked s = (if 0 < p_cpu_ticks_max (procs s p) \<and> p_cpu_ticks_max (procs s p) \<le> p_cpu_ticks (procs s p) + 1
      then upd_proc p (p_killed_update (\<lambda>_. 1)) ?s else ?s)"
    by (simp add: ticked_def upd_proc_def Let_def)
  show ?thesis
  proof (cases "0 < p_cpu_ticks_max (procs s p) \<and> p_cpu_ticks_max (procs s p) \<le> p_cpu_ticks (procs s p) + 1")
    case True
    obtain tx where x: "printf_text ''\<newline>[ALERT] PID %d killed: cpu limit(%d) reached!\<newline>''
        [PWord (of_cint (p_pid (procs s p))), PWord (of_cint (to_int (p_cpu_ticks_max (procs s p))))] = Some tx"
      using limit_texts(8) by blast
    have "charge_tick s = Ret () (upd_proc p (p_killed_update (\<lambda>_. 1)) (sent tx ?s))"
      using True m assms(3) printf_calm [OF c x] by (simp add: charge_tick_def Let_def)
    also have "upd_proc p (p_killed_update (\<lambda>_. 1)) (sent tx ?s) = sent tx (upd_proc p ticked s)"
      unfolding t using True by (simp add: upd_proc_def)
    finally show ?thesis by blast
  next
    case False
    then have "charge_tick s = Ret () (sent [] (upd_proc p ticked s))"
      unfolding t using m assms(3) by (auto simp: charge_tick_def Let_def)
    then show ?thesis by blast
  qed
qed

lemma ticks_calm:
  assumes "calm p s" "uart_ready s" "p_state (procs s p) = RUNNING"
  shows "\<exists>msg. kfor [0..<k] (\<lambda>_. charge_tick) s = Ret () (sent msg (upd_proc p (ticked ^^ k) s))"
proof (induction k)
  case 0
  show ?case by (intro exI [of _ "[]"]) (simp add: upd_proc_def)
next
  case (Suc k)
  then obtain msg where k: "kfor [0..<k] (\<lambda>_. charge_tick) s = Ret () (sent msg (upd_proc p (ticked ^^ k) s))" by blast
  let ?t = "sent msg (upd_proc p (ticked ^^ k) s)"
  have r: "p_state ((ticked ^^ k) pr) = p_state pr" for pr by (induction k) (simp_all add: ticked_def Let_def)
  have "calm p ?t" "uart_ready ?t" "p_state (procs ?t p) = RUNNING" using assms r by simp_all
  then obtain m where "charge_tick ?t = Ret () (sent m (upd_proc p ticked ?t))" using charge_tick_calm by blast
  moreover have "sent m (upd_proc p ticked ?t) = sent (msg @ m) (upd_proc p (ticked ^^ Suc k) s)"
    by (simp add: upd_proc_def)
  ultimately have "kfor [0..<Suc k] (\<lambda>_. charge_tick) s = Ret () (sent (msg @ m) (upd_proc p (ticked ^^ Suc k) s))"
    using k by (simp add: kfor_append)
  then show ?case by blast
qed

lemma ticked_times:
  assumes "unat (p_cpu_ticks pr) + k \<le> unat (p_cpu_ticks_max pr)" "unat (p_cpu_ticks pr) < unat (p_cpu_ticks_max pr)"
  shows "(ticked ^^ k) pr = pr\<lparr>p_cpu_ticks := p_cpu_ticks pr + of_nat k,
    p_killed := if unat (p_cpu_ticks pr) + k = unat (p_cpu_ticks_max pr) then 1 else p_killed pr\<rparr>"
  using assms
proof (induction k)
  case (Suc k)
  let ?u = "unat (p_cpu_ticks pr)" and ?m = "unat (p_cpu_ticks_max pr)"
  have "?u + Suc k < 2 ^ 64" using Suc.prems(1) unat_lt64 [of "p_cpu_ticks_max pr"] by simp
  then have "unat (p_cpu_ticks pr + of_nat k + 1) = ?u + Suc k" by (simp add: unat_word_ariths unat_of_nat64)
  then have "p_cpu_ticks_max pr \<le> p_cpu_ticks pr + of_nat k + 1 \<longleftrightarrow> ?u + Suc k = ?m"
    using Suc.prems(1) by (auto simp: word_le_nat_alt)
  moreover have "0 < p_cpu_ticks_max pr" using Suc.prems(2) by (simp add: word_less_nat_alt)
  ultimately show ?case using Suc by (simp add: ticked_def Let_def add.assoc)
qed (simp add: less_imp_neq)


text \<open>
  C31: The first process is under the same limit: once it has been killed by it, the next system call
  it makes panics the kernel.
\<close>

theorem killed_init_panics:
  assumes "calm p s" "initproc s = Some p" "p_killed (procs s p) \<noteq> 0" "\<not> spp (my_csr s)" "scause (my_csr s) = 8"
  shows "usertrap pad junk s = Panic ''init exiting''"
proof -
  let ?s = "upd_csr (stvec_update (\<lambda>_. sym_kernelvec s)) s"
  have "calm p ?s" "my_csr ?s = (my_csr s)\<lparr>stvec := sym_kernelvec s\<rparr>" "procs ?s = procs s" "initproc ?s = initproc s"
    using assms(1) calm_cong [of ?s s] by (simp_all add: upd_csr_def my_csr_def cpuid_def)
  moreover define t where "t = tf_set p TF_epc (sepc (my_csr ?s)) ?s"
  ultimately have t: "calm p t" "scause (my_csr t) = 8" "p_killed (procs t p) \<noteq> 0" "initproc t = Some p"
    using assms by (simp_all add: tf_set_def my_csr_def cpuid_def)
  have "usertrap_cause pad junk p t = Panic ''init exiting''"
    using t by (simp add: usertrap_cause_def killed_eq kexit_def)
  then show ?thesis using assms(4) \<open>calm p ?s\<close> by (simp add: usertrap_def Let_def t_def)
qed

section \<open>Opening files and unknown calls\<close>

text \<open>
  C27: \<^verbatim>\<open>open\<close> is refused with -1, before anything is looked up or locked, when the process has as many
  files open as its ceiling allows.
\<close>

theorem open_refused_at_limit:
  assumes "calm p s" "uart_ready s" "p_nofile_max (procs s p) \<le> int (card {i. i < NOFILE \<and> p_ofile (procs s p) i \<noteq> None})"
  shows "\<exists>msg. sys_open s = Ret (- 1) (sent msg s)"
  using assms(3) limit_refusals(7) [OF assms(1,2)] assms(1) by (simp add: sys_open_def open_files_card)

lemma unknown_text: "\<exists>t. printf_text ''%d %s: unknown sys call %d\<newline>'' [PWord x, PStr (Some y), PWord z] = Some t"
  by (simp add: directive_of_def char_at_def directive_text_def)

text \<open>
  C28: A system call number outside 1 to 26 is answered with -1 in register a0; the message on the
  console and that register are all that changes.
\<close>

theorem unknown_syscall_fails:
  fixes s :: "'a file_state_scheme"
  assumes "calm p s" "uart_ready s" "to_int (tf_get p TF_a7 s) < 1 \<or> 26 < to_int (tf_get p TF_a7 s)"
  shows "\<exists>msg. syscall pad junk s = Ret () (tf_set p TF_a0 (- 1) (sent msg s))"
proof -
  have "map_of (syscalls pad junk :: (int \<times> ('a file_state_scheme \<Rightarrow> _)) list) (to_int (tf_get p TF_a7 s)) = None" using assms(3) by (auto simp: syscalls_def)
  moreover obtain tx where x: "printf_text ''%d %s: unknown sys call %d\<newline>''
      [PWord (of_cint (p_pid (procs s p))), PStr (Some (string_of_bytes (p_name (procs s p)))),
       PWord (of_cint (to_int (tf_get p TF_a7 s)))] = Some tx" using unknown_text by blast
  ultimately show ?thesis
    using assms(1) printf_calm [OF assms(1,2) x] by (auto simp: syscall_def Let_def simp del: printf_text.simps)
qed

section \<open>The trap frame\<close>

lemma tf_off_aligned: "8 dvd unat (tf_off r)"
  by (cases r) simp_all

definition tf_regs :: "tfreg list" where
  "tf_regs = [TF_kernel_satp, TF_kernel_sp, TF_kernel_trap, TF_epc, TF_kernel_hartid, TF_ra, TF_sp, TF_gp, TF_tp,
     TF_t0, TF_t1, TF_t2, TF_s0, TF_s1, TF_a0, TF_a1, TF_a2, TF_a3, TF_a4, TF_a5, TF_a6, TF_a7,
     TF_s2, TF_s3, TF_s4, TF_s5, TF_s6, TF_s7, TF_s8, TF_s9, TF_s10, TF_s11, TF_t3, TF_t4, TF_t5, TF_t6]"

lemma tf_off_inj: "tf_off r = tf_off q \<longleftrightarrow> r = q"
proof -
  have "tf_regs ! (unat (tf_off r) div 8) = r" for r by (cases r) (simp_all add: tf_regs_def)
  then show ?thesis by metis
qed

lemma aligned_plus:
  assumes "aligned 8 a" "8 dvd unat b"
  shows "aligned 8 (a + b)"
proof -
  have "8 dvd (unat a + unat b) mod 2 ^ 64"
    using assms by (intro dvd_mod) (simp_all add: aligned_def)
  then show ?thesis by (simp add: aligned_def unat_word_ariths)
qed

lemma tf_get_set:
  assumes "aligned 8 (p_trapframe (procs s p))"
  shows "tf_get p r (tf_set p q v s) = (if r = q then v else tf_get p r s)"
proof (cases "r = q")
  case False
  then have "tf_off r \<noteq> tf_off q" using tf_off_inj by blast
  then show ?thesis
    using False load64_store64_other [OF aligned_plus [OF assms tf_off_aligned [of q]] aligned_plus [OF assms tf_off_aligned [of r]]]
    by (simp add: tf_get_def tf_set_def)
qed (simp add: tf_get_def tf_set_def)


section \<open>Witnesses\<close>

definition with_args :: "uint64 \<Rightarrow> uint64 \<Rightarrow> file_state" where
  "with_args a b = tf_set 1 TF_a1 b (tf_set 1 TF_a0 a run_file)"

lemma run_aligned: "aligned 8 (p_trapframe (procs run_file 1))"
  by (simp add: run_file_simps run_proc_def blank_proc_def aligned_def)

lemma with_args_simps:
  "tf_get 1 TF_a0 (with_args a b) = a" "tf_get 1 TF_a1 (with_args a b) = b" "procs (with_args a b) = procs run_file"
  "calm 1 (with_args a b)" "uart_ready (with_args a b)"
proof -
  have "aligned 8 (p_trapframe (procs (tf_set 1 TF_a0 a run_file) 1))" using run_aligned by (simp add: tf_set_def)
  then show "tf_get 1 TF_a0 (with_args a b) = a" "tf_get 1 TF_a1 (with_args a b) = b"
    using run_aligned by (simp_all add: with_args_def tf_get_set)
  show "procs (with_args a b) = procs run_file" by (simp add: with_args_def tf_set_def)
  show "calm 1 (with_args a b)" using run_file_locks(1) by (simp add: with_args_def tf_set_def)
  show "uart_ready (with_args a b)" using run_file_locks(2) by (simp add: with_args_def tf_set_def uart_ready_def)
qed



theorem setrlimit_accepts_negative_witness:
  "\<exists>t. sys_setrlimit (with_args 1 (- 1)) = Ret 0 t \<and> 2 ^ 63 \<le> unat (p_cpu_ticks_max (procs t 1))"
proof (rule setrlimit_accepts_negative)
  have "(ucast (- 1 :: uint64) :: 32 word) = - 1" by (rule bit_word_eqI) (simp add: bit_simps)
  then have "to_int (- 1) = - 1" by (simp add: to_int_def)
  then show "to_int (tf_get 1 TF_a1 (with_args 1 (- 1))) < 0" by (simp add: with_args_simps del: One_nat_def)
qed (simp_all add: with_args_simps to_int_def RLIMIT_CPU_def run_file_simps run_proc_def blank_proc_def del: One_nat_def)

definition one_open :: file_state where
  "one_open = (with_args 0 0)\<lparr>procs := (\<lambda>_. blank_proc)(1 := run_proc\<lparr>p_ofile := (\<lambda>_. None)(0 := Some 3), p_nofile_max := 1\<rparr>),
     files := (\<lambda>_. \<lparr>f_type = FD_INODE, f_ref = 1, f_readable = True, f_writable = False, f_pipe = 0, f_ip = Some 0, f_off = 0,
        f_major = 0\<rparr>)\<rparr>"

lemma one_open_simps: "calm 1 one_open" "uart_ready one_open" "to_int (tf_get 1 TF_a0 one_open) = 0"
proof -
  have "calm 1 one_open = calm 1 (with_args 0 0)" by (rule calm_cong) (simp_all add: one_open_def)
  then show "calm 1 one_open" using with_args_simps(4) by simp
  show "uart_ready one_open" using with_args_simps(5) [of 0 0] by (simp add: one_open_def uart_ready_def)
  have "tf_get 1 TF_a0 one_open = tf_get 1 TF_a0 (with_args 0 0)"
    by (simp add: tf_get_def one_open_def with_args_simps(3) run_file_simps run_proc_def)
  then show "to_int (tf_get 1 TF_a0 one_open) = 0" by (simp add: with_args_simps to_int_def del: One_nat_def)
qed

theorem dup_lowest_descriptor_witness:
  "\<exists>t. sys_dup one_open = Ret 1 t \<and> p_ofile (procs t 1) 1 = Some 3 \<and> f_ref (files t 3) = 2"
proof -
  have "\<forall>i f. p_ofile (procs one_open 1) i = Some f \<longrightarrow> 1 \<le> f_ref (files one_open f)" by (simp add: one_open_def)
  note d = dup_lowest_descriptor [OF one_open_simps(1) refl this]
  have o: "p_ofile (procs one_open 1) = (\<lambda>_. None)(0 := Some 3)" "p_nofile_cur (procs one_open 1) = 16"
    by (simp_all add: one_open_def run_proc_def)
  have "p_ofile (procs one_open 1) 1 = None" "(1 :: nat) < nat (p_nofile_cur (procs one_open 1))" unfolding o by simp_all
  then have n: "\<not> (\<forall>i < nat (p_nofile_cur (procs one_open 1)). p_ofile (procs one_open 1) i \<noteq> None)" by blast
  have a: "(if to_int (tf_get 1 TF_a0 one_open) < 0 \<or> int NOFILE \<le> to_int (tf_get 1 TF_a0 one_open) then None
      else p_ofile (procs one_open 1) (nat (to_int (tf_get 1 TF_a0 one_open)))) = Some 3"
    unfolding one_open_simps(3) o(1) by (simp add: NOFILE_def)
  obtain i where i: "p_ofile (procs one_open 1) i = None" "\<forall>j<i. p_ofile (procs one_open 1) j \<noteq> None"
    "sys_dup one_open = Ret (of_nat i) (upd_file 3 (f_ref_update (\<lambda>r. r + 1))
      (upd_proc 1 (p_ofile_update (\<lambda>ofs. ofs(i := Some 3))) one_open))"
    using d n unfolding a option.case by (simp only: if_False) blast
  have "i \<noteq> 0" "\<not> 1 < i" using i(1,2) unfolding o(1) by (auto split: if_splits)
  then have "i = 1" by simp
  then show ?thesis using i(3) by (simp add: upd_file_def upd_proc_def one_open_def)
qed

theorem open_refused_at_limit_witness: "\<exists>msg. sys_open one_open = Ret (- 1) (sent msg one_open)"
proof -
  have "{i. i < NOFILE \<and> p_ofile (procs one_open 1) i \<noteq> None} = {0}" by (auto simp: one_open_def NOFILE_def split: if_splits)
  then show ?thesis by (intro open_refused_at_limit [OF one_open_simps(1,2)]) (simp add: one_open_def)
qed

theorem unknown_syscall_fails_witness:
  "\<exists>msg. syscall [] [] (run_file\<lparr>mem := \<lambda>_. 0\<rparr>) = Ret () (tf_set 1 TF_a0 (- 1) (sent msg (run_file\<lparr>mem := \<lambda>_. 0\<rparr>)))"
proof (rule unknown_syscall_fails)
  let ?s = "run_file\<lparr>mem := \<lambda>_. 0\<rparr>"
  show "calm 1 ?s" using run_file_locks(1) by simp
  show "uart_ready ?s" using run_file_locks(2) by (simp add: uart_ready_def)
  have "tf_get 1 TF_a7 ?s = 0" by (simp add: tf_get_def load64_def numeral_eq_Suc)
  then show "to_int (tf_get 1 TF_a7 ?s) < 1 \<or> 26 < to_int (tf_get 1 TF_a7 ?s)" by (simp add: to_int_def)
qed

definition run_trap :: trap_state where
  "run_trap =
     (let vd = file_state.extend run_file (vd_state.fields (0, 0, 0) (\<lambda>_. null_desc) 0 (\<lambda>_. 0) 0 (\<lambda>_. 0) (\<lambda>_. True) 0 (\<lambda>_. None)
            (\<lambda>_. 0) (\<lambda>_. \<lparr>req_type = 0, req_reserved = 0, req_sector = 0\<rparr>) (\<lambda>_ _. 0) [])
      in vd_state.extend vd (trap_state.fields
        (\<lambda>_. \<lparr>stvec = 0, sepc = 0, scause = 8, stval = 0, spp = False, spie = False, stimecmp = 0\<rparr>) 0 (\<lambda>_ _. 0) [] False True 0))"

lemma run_trap_simps: "calm 1 run_trap" "uart_ready run_trap" "procs run_trap = procs run_file"
  "my_csr run_trap = \<lparr>stvec = 0, sepc = 0, scause = 8, stval = 0, spp = False, spie = False, stimecmp = 0\<rparr>"
proof -
  note defs = run_trap_def Let_def file_state.defs vd_state.defs trap_state.defs
  have "calm 1 run_trap = calm 1 run_file" by (rule calm_cong) (simp_all add: defs)
  then show "calm 1 run_trap" using run_file_locks(1) by simp
  show "uart_ready run_trap" using run_file_locks(2) by (simp add: defs uart_ready_def)
  show "procs run_trap = procs run_file" by (simp add: defs)
  show "my_csr run_trap = \<lparr>stvec = 0, sepc = 0, scause = 8, stval = 0, spp = False, spie = False, stimecmp = 0\<rparr>"
    by (simp add: defs my_csr_def)
qed


theorem killed_init_panics_witness:
  "usertrap [] [] (run_trap\<lparr>initproc := Some 1, procs := (\<lambda>_. run_proc\<lparr>p_killed := 1\<rparr>)\<rparr>) = Panic ''init exiting''"
proof (rule killed_init_panics [where p = 1])
  let ?s = "run_trap\<lparr>initproc := Some 1, procs := (\<lambda>_. run_proc\<lparr>p_killed := 1\<rparr>)\<rparr>"
  show "calm 1 ?s" using run_trap_simps(1) calm_cong [of ?s run_trap] by simp
  have "my_csr ?s = my_csr run_trap" by (simp add: my_csr_def cpuid_def)
  then show "\<not> spp (my_csr ?s)" "scause (my_csr ?s) = 8" by (simp_all add: run_trap_simps)
qed simp_all

end
