(* ===== verification/PipeFifo.thy ===== *)
theory PipeFifo
  imports Pipe UserCopy Sample
begin

text \<open>
  A pipe is a queue of bytes: what \<^verbatim>\<open>pipewrite\<close> takes from the writer's memory is appended to it and
  \<^verbatim>\<open>piperead\<close> moves its first bytes to the reader's memory, while the 32-bit counters run freely.
\<close>

section \<open>Frames\<close>

lemma uspace_frame:
  assumes "uspace_ok s pt P xs K" "mem t = mem s" "freelist t = freelist s" "end_sym t = end_sym s" "may_lock L_kmem t"
  shows "uspace_ok t pt P xs K" "umem t pt = umem s pt" "ptes t pt = ptes s pt"
proof -
  have p: "phys_page t = phys_page s" using assms(4) by (simp add: phys_page_def fun_eq_iff)
  show e: "ptes t pt = ptes s pt" using assms(2) by (intro ext) (simp add: ptes_def)
  then show "umem t pt = umem s pt" using assms(2) by (intro ext) (simp add: umem_def)
  show "uspace_ok t pt P xs K"
    using assms unfolding uspace_ok_def e by (simp add: pt_ok_def kmem_avail_def kmem_ok_def leaves_ok_def p)
qed

lemma pipe_hold [simp]:
  "pipes (hold lk s) = pipes s" "pipes (settle s) = pipes s" "upd_pipe pi f (hold lk s) = hold lk (upd_pipe pi f s)"
  "pipes (upd_pipe pi f s) = (pipes s)(pi := f (pipes s pi))" "procs (upd_pipe pi f s) = procs s"
  "mem (upd_pipe pi f s) = mem s" "freelist (upd_pipe pi f s) = freelist s" "end_sym (upd_pipe pi f s) = end_sym s"
  "calm p (upd_pipe pi f s) = calm p s" "pipes (wake_set ch A s) = pipes s" "pipes (mem_update g s) = pipes s"
  "upd_pipe pi f (upd_pipe pi h s) = upd_pipe pi (\<lambda>q. f (h q)) s"
proof -
  show "calm p (upd_pipe pi f s) = calm p s" by (rule calm_cong) (simp_all add: upd_pipe_def)
qed (simp_all add: lock_defs upd_pipe_def wake_set_def)

lemma kmem_avail_hold [simp]:
  "freelist (hold lk s) = freelist s" "end_sym (hold lk s) = end_sym s"
  by (simp_all add: lock_defs)

section \<open>The queue\<close>

lemma pipe_put_bytes:
  "unat (pi_nwrite q - pi_nread q) < PIPESIZE \<Longrightarrow> pipe_bytes (pipe_put b q) = pipe_bytes q @ [b]"
  using pipe_ring.push [of "pi_nwrite q" "pi_nread q"] by (simp add: pipe_bytes_def pipe_put_def)

lemma pipe_len: "length (pipe_bytes q) = unat (pi_nwrite q - pi_nread q)"
  by (simp add: pipe_bytes_def)

lemma pipe_puts:
  assumes "length (pipe_bytes q) + length bs \<le> PIPESIZE"
  shows "pipe_bytes (fold pipe_put bs q) = pipe_bytes q @ bs" "pi_nread (fold pipe_put bs q) = pi_nread q"
proof -
  show "pipe_bytes (fold pipe_put bs q) = pipe_bytes q @ bs"
    using assms
  proof (induction bs arbitrary: q)
    case (Cons b bs)
    have "pipe_bytes (pipe_put b q) = pipe_bytes q @ [b]" using Cons.prems pipe_len [of q] by (intro pipe_put_bytes) simp
    then show ?case using Cons.IH [of "pipe_put b q"] Cons.prems by simp
  qed simp
  show "pi_nread (fold pipe_put bs q) = pi_nread q" by (induction bs arbitrary: q) (simp_all add: pipe_put_def)
qed

lemma pipe_not_full:
  assumes "length (pipe_bytes q) < PIPESIZE"
  shows "pi_nwrite q \<noteq> pi_nread q + of_nat PIPESIZE"
proof
  assume "pi_nwrite q = pi_nread q + of_nat PIPESIZE"
  then have "length (pipe_bytes q) = PIPESIZE" by (simp add: pipe_len PIPESIZE_def)
  then show False using assms by simp
qed

section \<open>Writing\<close>

lemma pipewrite_loop_eq:
  assumes "calm p s" "p_killed (procs s p) = 0" "pi_readopen (pipes s pi) \<noteq> 0"
    "uspace_ok s (p_pagetable (procs s p)) P xs K" "unat addr + i + length bs \<le> 4096 * K"
    "\<forall>j<length bs. umem s (p_pagetable (procs s p)) (addr + of_nat (i + j)) = Some (bs ! j)"
    "length (pipe_bytes (pipes s pi)) + length bs \<le> PIPESIZE"
  shows "pipewrite_loop (length bs) p pi addr i (hold (L_pipe pi) s) =
    pipewrite_done pi (i + length bs) (hold (L_pipe pi) (upd_pipe pi (fold pipe_put bs) s))"
  using assms
proof (induction bs arbitrary: s i)
  case Nil
  have "upd_pipe pi (\<lambda>q. q) s = s" by (simp add: upd_pipe_def)
  then show ?case by (simp add: id_def)
next
  case (Cons b bs)
  let ?h = "hold (L_pipe pi) s" and ?pt = "p_pagetable (procs s p)" and ?t = "upd_pipe pi (pipe_put b) s"
  have k: "killed p ?h = Ret 0 ?h" using Cons.prems(1,2) by (simp add: killed_eq)
  have nf: "pi_nwrite (pipes s pi) \<noteq> pi_nread (pipes s pi) + of_nat PIPESIZE"
    using Cons.prems(7) by (intro pipe_not_full) simp
  have uh: "uspace_ok ?h ?pt P xs K" "umem ?h ?pt = umem s ?pt"
    using uspace_frame [OF Cons.prems(4), of ?h] Cons.prems(1) by simp_all
  have big: "unat addr + i + 1 < 2 ^ 64" using Cons.prems(4,5) by (simp add: uspace_ok_def MAXVA_def)
  have b: "umem ?h ?pt (addr + of_nat i) = Some b" using Cons.prems(6) uh(2) by fastforce
  have "unat (addr + of_nat i) + 1 \<le> 4096 * K" using unat_add_small [of addr i] big Cons.prems(5) by simp
  then have c: "copyin ?pt (addr + of_nat i) 1 ?h = Ret (0, [b]) ?h"
    using copyin_spec [OF uh(1), of "addr + of_nat i" 1] b by simp
  have "pipewrite_loop (length bs) p pi addr (i + 1) (hold (L_pipe pi) ?t) =
    pipewrite_done pi (i + 1 + length bs) (hold (L_pipe pi) (upd_pipe pi (fold pipe_put bs) ?t))"
  proof (rule Cons.IH)
    note u = uspace_frame [OF Cons.prems(4), of ?t]
    show "uspace_ok ?t (p_pagetable (procs ?t p)) P xs K" using u(1) Cons.prems(1) by simp
    show "\<forall>j<length bs. umem ?t (p_pagetable (procs ?t p)) (addr + of_nat (i + 1 + j)) = Some (bs ! j)"
    proof (intro allI impI)
      fix j assume "j < length bs"
      then show "umem ?t (p_pagetable (procs ?t p)) (addr + of_nat (i + 1 + j)) = Some (bs ! j)"
        using Cons.prems(6) [rule_format, of "Suc j"] u(2) Cons.prems(1) by simp
    qed
    show "length (pipe_bytes (pipes ?t pi)) + length bs \<le> PIPESIZE"
      using pipe_put_bytes [of "pipes s pi" b] Cons.prems(7) pipe_len [of "pipes s pi"] by simp
  qed (use Cons.prems in \<open>simp_all add: pipe_put_def\<close>)
  moreover have "upd_pipe pi (fold pipe_put bs) ?t = upd_pipe pi (fold pipe_put (b # bs)) s" by (simp add: comp_def)
  ultimately show ?case using k nf c Cons.prems(3) by (simp add: Let_def)
qed

lemma pipewrite_eq:
  assumes "calm p s" "p_killed (procs s p) = 0" "pi_readopen (pipes s pi) \<noteq> 0"
    "uspace_ok s (p_pagetable (procs s p)) P xs K" "unat addr + length bs \<le> 4096 * K"
    "\<forall>j<length bs. umem s (p_pagetable (procs s p)) (addr + of_nat j) = Some (bs ! j)"
    "length (pipe_bytes (pipes s pi)) + length bs \<le> PIPESIZE"
  shows "pipewrite pi addr (int (length bs)) s =
    Ret (int (length bs)) (wake_set (Chan_nread pi) {..<NPROC} (upd_pipe pi (fold pipe_put bs) s))"
  using pipewrite_loop_eq [OF assms(1-4), of addr 0 bs] assms(1,5-7)
  by (simp add: pipewrite_def pipewrite_done_def wakeup_calm image_iff)

section \<open>Reading\<close>

lemma copied_frame:
  assumes "copied t pt P xs K va bs u" "mem t = mem s" "freelist t = freelist s" "end_sym t = end_sym s" "may_lock L_kmem s"
  shows "copied s pt P xs K va bs (s\<lparr>mem := mem u\<rparr>)"
proof -
  have c: "u = t\<lparr>mem := mem u\<rparr>" "uspace_ok u pt P xs K" "ptes u pt = ptes t pt" "patched K va bs (umem t pt) (umem u pt)"
    using assms(1) by (simp_all add: copied_def)
  have fu: "freelist u = freelist t" "end_sym u = end_sym t" by (subst c(1), simp)+
  let ?s = "s\<lparr>mem := mem u\<rparr>"
  have "uspace_ok ?s pt P xs K" "umem ?s pt = umem u pt" "ptes ?s pt = ptes u pt"
    using uspace_frame [OF c(2), of ?s] assms(3-5) fu by simp_all
  moreover have "ptes t pt = ptes s pt" "umem t pt = umem s pt"
    using assms(2) by (auto simp: ptes_def umem_def)
  ultimately show ?thesis using c(3,4) by (simp add: copied_def)
qed

lemma mem_hold [simp]:
  "mem_update f (hold lk s) = hold lk (mem_update f s)" "mem_update f (upd_pipe pi g s) = upd_pipe pi g (mem_update f s)"
  "procs (mem_update f s) = procs s"
  by (simp_all add: lock_defs upd_pipe_def)

lemma copyout_hold:
  assumes "calm p s" "lk \<noteq> L_kmem" "uspace_ok s pt P xs K" "unat va + length bs \<le> 4096 * K" "uwritable s pt va (length bs)"
  shows "\<exists>M. copyout pt va bs (hold lk s) = Ret 0 (hold lk (s\<lparr>mem := M\<rparr>)) \<and> copied s pt P xs K va bs (s\<lparr>mem := M\<rparr>)"
proof -
  have m: "may_lock L_kmem s" "may_lock L_kmem (hold lk s)" using assms(1,2) by simp_all
  have "uspace_ok (hold lk s) pt P xs K" "ptes (hold lk s) pt = ptes s pt" using uspace_frame [OF assms(3), of "hold lk s"] m by simp_all
  moreover then have "uwritable (hold lk s) pt va (length bs)" using assms(5) by (simp add: uwritable_def)
  ultimately obtain t where t: "copyout pt va bs (hold lk s) = Ret 0 t" "copied (hold lk s) pt P xs K va bs t"
    using copyout_spec [of "hold lk s" pt P xs K va bs] assms(4) by blast
  have "t = (hold lk s)\<lparr>mem := mem t\<rparr>" using t(2) by (simp add: copied_def)
  then have "t = hold lk (s\<lparr>mem := mem t\<rparr>)" by simp
  moreover have "copied s pt P xs K va bs (s\<lparr>mem := mem t\<rparr>)" using copied_frame [OF t(2), of s] m by simp
  ultimately show ?thesis using t(1) by metis
qed

lemma pipe_get_bytes:
  assumes "pi_nread q \<noteq> pi_nwrite q"
  shows "pipe_bytes q = pipe_get q # pipe_bytes (q\<lparr>pi_nread := pi_nread q + 1\<rparr>)"
  using pipe_ring.pop [OF assms] by (simp add: pipe_bytes_def pipe_get_def)

lemma pipe_empty: "pipe_bytes q = [] \<longleftrightarrow> pi_nread q = pi_nwrite q"
  by (simp add: pipe_bytes_def ring_empty)

definition took :: "nat \<Rightarrow> pipe \<Rightarrow> pipe" where
  "took m q = q\<lparr>pi_nread := pi_nread q + of_nat m\<rparr>"

lemma took_simps: "upd_pipe pi (took 0) s = s" "pi_nread_update (\<lambda>c. c + 1) = took 1" "took n (took 1 q) = took (Suc n) q"
  "took n (took (Suc 0) q) = took (Suc n) q"
proof -
  show "pi_nread_update (\<lambda>c. c + 1) = took 1" by (intro ext pipe.equality) (simp_all add: took_def)
qed (simp_all add: took_def upd_pipe_def add.assoc)

lemma piperead_loop_eq:
  assumes "calm p s" "uspace_ok s (p_pagetable (procs s p)) P xs K" "unat addr + i + m \<le> 4096 * K"
    "uwritable s (p_pagetable (procs s p)) (addr + of_nat i) m" "m = min k (length (pipe_bytes (pipes s pi)))"
  shows "\<exists>M. piperead_loop k p pi addr i (hold (L_pipe pi) s) =
      piperead_done pi (int (i + m)) (hold (L_pipe pi) (upd_pipe pi (took m) (s\<lparr>mem := M\<rparr>))) \<and>
    copied s (p_pagetable (procs s p)) P xs K (addr + of_nat i) (take m (pipe_bytes (pipes s pi))) (s\<lparr>mem := M\<rparr>)"
  using assms
proof (induction k arbitrary: s i m)
  case 0
  then show ?case by (intro exI [of _ "mem s"]) (simp add: copied_def patched_Nil took_simps)
next
  case (Suc k)
  let ?q = "pipes s pi" and ?pt = "p_pagetable (procs s p)"
  show ?case
  proof (cases "pi_nread ?q = pi_nwrite ?q")
    case True
    then have "pipe_bytes ?q = []" by (simp add: pipe_empty)
    then show ?thesis using Suc.prems True by (intro exI [of _ "mem s"]) (simp add: copied_def patched_Nil took_simps)
  next
    case False
    note g = pipe_get_bytes [OF False]
    obtain n where m: "m = Suc n" "n = min k (length (pipe_bytes (?q\<lparr>pi_nread := pi_nread ?q + 1\<rparr>)))"
      using Suc.prems(5) g by simp
    have big: "unat addr + i + m < 2 ^ 64" using Suc.prems(2,3) by (simp add: uspace_ok_def MAXVA_def)
    have a: "unat (addr + of_nat i) = unat addr + i" using big by (intro unat_add_small) simp
    have "uwritable s ?pt (addr + of_nat i) (length [pipe_get ?q])"
      using Suc.prems(4) [unfolded uwritable_def, rule_format, of 0] m(1) by (simp add: uwritable_def)
    then obtain M where M: "copyout ?pt (addr + of_nat i) [pipe_get ?q] (hold (L_pipe pi) s) = Ret 0 (hold (L_pipe pi) (s\<lparr>mem := M\<rparr>))"
      "copied s ?pt P xs K (addr + of_nat i) [pipe_get ?q] (s\<lparr>mem := M\<rparr>)"
      using copyout_hold [OF Suc.prems(1) _ Suc.prems(2), of "L_pipe pi" "addr + of_nat i" "[pipe_get ?q]"]
        Suc.prems(3) a m(1) by auto
    let ?u = "s\<lparr>mem := M\<rparr>" and ?t = "upd_pipe pi (took 1) (s\<lparr>mem := M\<rparr>)"
    have cu: "uspace_ok ?u ?pt P xs K" "ptes ?u ?pt = ptes s ?pt" using M(2) by (simp_all add: copied_def)
    have ft: "uspace_ok ?t ?pt P xs K" "ptes ?t ?pt = ptes ?u ?pt"
      using uspace_frame [OF cu(1), of ?t] Suc.prems(1) by simp_all
    have sh: "addr + of_nat (i + 1) + of_nat j = addr + of_nat i + of_nat (Suc j)" for j by simp
    have w: "uwritable ?t ?pt (addr + of_nat (i + 1)) n"
      using Suc.prems(4) m(1) unfolding uwritable_def ft(2) cu(2) sh by (simp del: of_nat_add of_nat_Suc)
    have b: "pipe_bytes (pipes ?t pi) = tl (pipe_bytes ?q)" using g by (simp add: took_def)
    have n: "n = min k (length (pipe_bytes (pipes ?t pi)))" using m(2) g b by simp
    obtain L where L: "piperead_loop k p pi addr (i + 1) (hold (L_pipe pi) ?t) =
        piperead_done pi (int (i + 1 + n)) (hold (L_pipe pi) (upd_pipe pi (took n) (?t\<lparr>mem := L\<rparr>)))"
      "copied ?t ?pt P xs K (addr + of_nat (i + 1)) (take n (pipe_bytes (pipes ?t pi))) (?t\<lparr>mem := L\<rparr>)"
      using Suc.IH [of ?t "i + 1" n, OF _ _ _ _ n] Suc.prems(1,3) ft(1) w m(1) by auto
    have "copied ?u ?pt P xs K (addr + of_nat (i + 1)) (take n (tl (pipe_bytes ?q))) (?u\<lparr>mem := L\<rparr>)"
      using copied_frame [OF L(2), of ?u] Suc.prems(1) b by simp
    moreover have "unat (addr + of_nat (i + 1)) = unat (addr + of_nat i) + 1"
      using big m(1) unat_add_small [of addr "i + 1"] a by simp
    ultimately have "copied s ?pt P xs K (addr + of_nat i) ([pipe_get ?q] @ take n (tl (pipe_bytes ?q))) (?u\<lparr>mem := L\<rparr>)"
      using copied_append [OF M(2)] by simp
    moreover have "take m (pipe_bytes ?q) = [pipe_get ?q] @ take n (tl (pipe_bytes ?q))" by (simp add: m(1) g)
    ultimately have "copied s ?pt P xs K (addr + of_nat i) (take m (pipe_bytes ?q)) (s\<lparr>mem := L\<rparr>)" by simp
    moreover have "piperead_loop (Suc k) p pi addr i (hold (L_pipe pi) s) =
        piperead_done pi (int (i + m)) (hold (L_pipe pi) (upd_pipe pi (took m) (s\<lparr>mem := L\<rparr>)))"
      using False M(1) L(1) m(1) by (simp add: Let_def took_simps)
    ultimately show ?thesis by blast
  qed
qed

lemma piperead_eq:
  assumes "calm p s" "pipe_bytes (pipes s pi) \<noteq> []" "uspace_ok s (p_pagetable (procs s p)) P xs K"
    "unat addr + m \<le> 4096 * K" "uwritable s (p_pagetable (procs s p)) addr m" "m = min k (length (pipe_bytes (pipes s pi)))"
  shows "\<exists>M. piperead pi addr (int k) s =
      Ret (int m) (wake_set (Chan_nwrite pi) {..<NPROC} (upd_pipe pi (took m) (s\<lparr>mem := M\<rparr>))) \<and>
    copied s (p_pagetable (procs s p)) P xs K addr (take m (pipe_bytes (pipes s pi))) (s\<lparr>mem := M\<rparr>)"
proof -
  obtain M where M: "piperead_loop k p pi addr 0 (hold (L_pipe pi) s) =
      piperead_done pi (int m) (hold (L_pipe pi) (upd_pipe pi (took m) (s\<lparr>mem := M\<rparr>)))"
    "copied s (p_pagetable (procs s p)) P xs K addr (take m (pipe_bytes (pipes s pi))) (s\<lparr>mem := M\<rparr>)"
    using piperead_loop_eq [OF assms(1,3), of addr 0 m k pi] assms(4-6) by auto
  have "pi_nread (pipes s pi) \<noteq> pi_nwrite (pipes s pi)" using assms(2) by (simp add: pipe_empty)
  then have "piperead pi addr (int k) s =
      Ret (int m) (wake_set (Chan_nwrite pi) {..<NPROC} (upd_pipe pi (took m) (s\<lparr>mem := M\<rparr>)))"
    using assms(1) M(1) by (simp add: piperead_def piperead_wait_def piperead_done_def wakeup_calm image_iff)
  then show ?thesis using M(2) by blast
qed

lemma took_bytes:
  assumes "m \<le> length (pipe_bytes q)"
  shows "pipe_bytes (took m q) = drop m (pipe_bytes q)"
  using assms
proof (induction m arbitrary: q)
  case 0
  show ?case by (simp add: took_def)
next
  case (Suc m)
  then have "pi_nread q \<noteq> pi_nwrite q" using pipe_empty [of q] by auto
  note g = pipe_get_bytes [OF this]
  then have t: "pipe_bytes q = pipe_get q # pipe_bytes (took 1 q)" by (simp add: took_def)
  then have "pipe_bytes (took m (took 1 q)) = drop m (pipe_bytes (took 1 q))" using Suc.prems by (intro Suc.IH) simp
  moreover have "drop (Suc m) (pipe_bytes q) = drop m (pipe_bytes (took 1 q))" by (subst t) simp
  ultimately show ?case by (simp add: took_simps)
qed

section \<open>Properties\<close>

text \<open>
  C22: A \<^verbatim>\<open>pipewrite\<close> of bytes there is room for returns their number and appends them, as the writer's
  memory has them, to what the pipe holds; memory and the other pipes are untouched and the sleeping
  readers are woken.
\<close>

theorem pipewrite_appends:
  assumes "calm p s" "p_killed (procs s p) = 0" "pi_readopen (pipes s pi) \<noteq> 0"
    "uspace_ok s (p_pagetable (procs s p)) P xs K" "unat addr + length bs \<le> 4096 * K"
    "\<forall>j<length bs. umem s (p_pagetable (procs s p)) (addr + of_nat j) = Some (bs ! j)"
    "length (pipe_bytes (pipes s pi)) + length bs \<le> PIPESIZE"
  shows "\<exists>t. pipewrite pi addr (int (length bs)) s = Ret (int (length bs)) t \<and> mem t = mem s \<and>
    pipe_bytes (pipes t pi) = pipe_bytes (pipes s pi) @ bs \<and> (\<forall>pj. pj \<noteq> pi \<longrightarrow> pipes t pj = pipes s pj) \<and>
    (\<forall>q<NPROC. q \<noteq> p \<and> p_state (procs s q) = SLEEPING \<and> p_chan (procs s q) = Some (Chan_nread pi) \<longrightarrow>
      p_state (procs t q) = RUNNABLE)"
proof -
  let ?t = "wake_set (Chan_nread pi) {..<NPROC} (upd_pipe pi (fold pipe_put bs) s)"
  have "mem ?t = mem s" by (simp add: wake_set_def)
  moreover have "\<forall>q<NPROC. q \<noteq> p \<and> p_state (procs s q) = SLEEPING \<and> p_chan (procs s q) = Some (Chan_nread pi) \<longrightarrow>
      p_state (procs ?t q) = RUNNABLE"
    using assms(1) by (auto simp: wake_set_def sleeps_on_def woken_def upd_pipe_def calm_def cpu_defs)
  ultimately show ?thesis using pipewrite_eq [OF assms] pipe_puts(1) [OF assms(7)] by (intro exI [of _ ?t]) simp
qed

text \<open>
  C23: A \<^verbatim>\<open>piperead\<close> of a pipe that is not empty returns how many of the wanted bytes the pipe has, puts
  the first of its bytes, in order, into the reader's memory and leaves the others in the pipe; the
  rest of user memory and the other pipes are untouched.
\<close>

theorem piperead_takes:
  assumes "calm p s" "pipe_bytes (pipes s pi) \<noteq> []" "uspace_ok s (p_pagetable (procs s p)) P xs K"
    "m = min k (length (pipe_bytes (pipes s pi)))" "unat addr + m \<le> 4096 * K" "uwritable s (p_pagetable (procs s p)) addr m"
  shows "\<exists>t. piperead pi addr (int k) s = Ret (int m) t \<and> pipe_bytes (pipes t pi) = drop m (pipe_bytes (pipes s pi)) \<and>
    (\<forall>vb. unat vb < 4096 * K \<longrightarrow> umem t (p_pagetable (procs s p)) vb =
      (if unat addr \<le> unat vb \<and> unat vb < unat addr + m then Some (pipe_bytes (pipes s pi) ! (unat vb - unat addr))
       else umem s (p_pagetable (procs s p)) vb)) \<and>
    (\<forall>pj. pj \<noteq> pi \<longrightarrow> pipes t pj = pipes s pj)"
proof -
  let ?pt = "p_pagetable (procs s p)" and ?bs = "pipe_bytes (pipes s pi)"
  obtain M where M: "piperead pi addr (int k) s =
      Ret (int m) (wake_set (Chan_nwrite pi) {..<NPROC} (upd_pipe pi (took m) (s\<lparr>mem := M\<rparr>)))"
    "copied s ?pt P xs K addr (take m ?bs) (s\<lparr>mem := M\<rparr>)"
    using piperead_eq [OF assms(1-3,5,6,4)] by blast
  let ?t = "wake_set (Chan_nwrite pi) {..<NPROC} (upd_pipe pi (took m) (s\<lparr>mem := M\<rparr>))"
  have l: "length (take m ?bs) = m" using assms(4) by simp
  have "umem ?t ?pt = umem (s\<lparr>mem := M\<rparr>) ?pt" by (intro ext) (simp add: umem_def ptes_def wake_set_def)
  moreover have "patched K addr (take m ?bs) (umem s ?pt) (umem (s\<lparr>mem := M\<rparr>) ?pt)" using M(2) by (simp add: copied_def)
  ultimately have "\<forall>vb. unat vb < 4096 * K \<longrightarrow> umem ?t ?pt vb =
      (if unat addr \<le> unat vb \<and> unat vb < unat addr + m then Some (?bs ! (unat vb - unat addr)) else umem s ?pt vb)"
    unfolding patched_def l by auto
  moreover have "pipe_bytes (pipes ?t pi) = drop m ?bs" using took_bytes [of m "pipes s pi"] assms(4) by simp
  ultimately show ?thesis using M(1) by (intro exI [of _ ?t]) simp
qed

definition user_pipe :: file_state where
  "user_pipe = run_file\<lparr>mem := user_tables, freelist := 0, end_sym := 0x80023000,
     procs := (\<lambda>_. blank_proc)(1 := run_proc\<lparr>p_pagetable := 0x80100000\<rparr>),
     pipes := (\<lambda>_. \<lparr>pi_data = (\<lambda>i. of_nat (65 + i)), pi_nread = 0, pi_nwrite = 3, pi_readopen = 1, pi_writeopen = 1\<rparr>)\<rparr>"

lemma user_pipe_simps: "calm 1 user_pipe" "p_pagetable (procs user_pipe 1) = 0x80100000" "p_killed (procs user_pipe 1) = 0"
  "uspace_ok user_pipe 0x80100000 {0x80100000, 0x80101000, 0x80102000} [] 1"
  "ptes user_pipe 0x80100000 = ptes one_page_user 0x80100000" "umem user_pipe 0x80100000 = umem one_page_user 0x80100000"
proof -
  have "calm 1 user_pipe = calm 1 run_file" by (rule calm_cong) (simp_all add: user_pipe_def)
  then show c: "calm 1 user_pipe" using run_file_locks(1) by simp
  show "p_pagetable (procs user_pipe 1) = 0x80100000" "p_killed (procs user_pipe 1) = 0"
    by (simp_all add: user_pipe_def run_proc_def blank_proc_def)
  note u = uspace_frame [OF user_space_ok(1), of user_pipe]
  show "uspace_ok user_pipe 0x80100000 {0x80100000, 0x80101000, 0x80102000} [] 1"
    "ptes user_pipe 0x80100000 = ptes one_page_user 0x80100000" "umem user_pipe 0x80100000 = umem one_page_user 0x80100000"
    using u c by (simp_all add: user_pipe_def one_page_user_def)
qed

lemma user_page_entry:
  assumes "unat va < 4096"
  shows "ptes one_page_user 0x80100000 va = PA2PTE 0x80103000 OR user_flags" "PGROUNDDOWN va = 0"
proof -
  show p: "PGROUNDDOWN va = 0" using assms by (simp add: word_unat_eq_iff unat_PGROUNDDOWN)
  have "va < MAXVA" using assms by (simp add: word_less_nat_alt MAXVA_def)
  then show "ptes one_page_user 0x80100000 va = PA2PTE 0x80103000 OR user_flags" using user_space_ok(2) p by simp
qed

lemma user_page_zero: "umem one_page_user 0x80100000 5 = Some 0" "umem one_page_user 0x80100000 6 = Some 0"
proof -
  have e: "user_pte (PA2PTE 0x80103000 OR user_flags)" "PTE2PA (PA2PTE 0x80103000 OR user_flags) = 0x80103000"
    by (simp_all add: user_flags_def PTE_U_def PTE_W_def PTE_V_def PTE_R_def PA2PTE_def PTE2PA_def)
  have "user_tables 0x80103005 = 0" "user_tables 0x80103006 = 0" by (simp_all add: user_tables_def store64_frame)
  then show "umem one_page_user 0x80100000 5 = Some 0" "umem one_page_user 0x80100000 6 = Some 0"
    using user_page_entry [of 5] user_page_entry [of 6] e by (simp_all add: umem_def) (simp_all add: one_page_user_def)
qed

lemma user_pipe_bytes: "pipe_bytes (pipes user_pipe 0) = [65, 66, 67]"
  by (simp add: pipe_bytes_def ring_items_def user_pipe_def slot_def PIPESIZE_def upt_conv_Cons)

theorem pipewrite_appends_witness:
  "\<exists>t. pipewrite 0 5 2 user_pipe = Ret 2 t \<and> pipe_bytes (pipes t 0) = [65, 66, 67, 0, 0]"
proof -
  note s = user_pipe_simps
  have "umem user_pipe (p_pagetable (procs user_pipe 1)) (5 + of_nat j) = Some ([0, 0] ! j)" if "j < length [0, 0 :: nat]" for j
    using that user_page_zero unfolding s by (cases "j = 0") (simp_all add: less_Suc_eq)
  then have "\<forall>j<length [0, 0 :: uchar]. umem user_pipe (p_pagetable (procs user_pipe 1)) (5 + of_nat j) = Some ([0, 0] ! j)" by simp
  note w = pipewrite_appends [OF s(1,3) _ s(4) [folded s(2)] _ this, of 0]
  have "pi_readopen (pipes user_pipe 0) \<noteq> 0" by (simp add: user_pipe_def)
  then show ?thesis using w by (auto simp: user_pipe_bytes PIPESIZE_def)
qed

theorem piperead_takes_witness:
  "\<exists>t. piperead 0 5 2 user_pipe = Ret 2 t \<and> pipe_bytes (pipes t 0) = [67] \<and> umem t 0x80100000 6 = Some 66"
proof -
  note s = user_pipe_simps
  have "uwritable user_pipe (p_pagetable (procs user_pipe 1)) 5 2"
  proof (unfold uwritable_def, intro allI impI)
    fix i :: nat assume "i < 2"
    then have "unat (5 + of_nat i :: uint64) < 4096" using unat_add_small [of 5 i] by simp
    then show "user_wpte (ptes user_pipe (p_pagetable (procs user_pipe 1)) (5 + of_nat i))"
      using user_page_entry(1) unfolding s by (simp add: user_flags_def PTE_U_def PTE_W_def PTE_V_def PTE_R_def PA2PTE_def)
  qed
  moreover have "2 = min 2 (length (pipe_bytes (pipes user_pipe 0)))" by (simp add: user_pipe_bytes)
  ultimately obtain t where t: "piperead 0 5 2 user_pipe = Ret 2 t" "pipe_bytes (pipes t 0) = drop 2 [65, 66, 67]"
    "\<forall>vb. unat vb < 4096 \<longrightarrow> umem t 0x80100000 vb =
      (if unat (5 :: uint64) \<le> unat vb \<and> unat vb < unat (5 :: uint64) + 2 then Some ([65, 66, 67] ! (unat vb - unat (5 :: uint64)))
       else umem user_pipe 0x80100000 vb)"
    using piperead_takes [OF s(1) _ s(4) [folded s(2)], of 0 2 2 5] unfolding user_pipe_bytes s(2) by auto
  have "umem t 0x80100000 6 = Some 66" using t(3) [rule_format, of 6] by simp
  then show ?thesis using t(1,2) by (intro exI [of _ t]) simp
qed

end
