(* ===== verification/PathNames.thy ===== *)
theory PathNames
  imports Dir
begin

text \<open>
  Path names and directory entries.  The elements of a path are the non-empty parts between slashes,
  cut to \<^verbatim>\<open>DIRSIZ\<close> bytes; \<^verbatim>\<open>namex\<close>, which takes them off with \<^verbatim>\<open>skipelem\<close>, is shown equal to a resolution
  by recursion on the list of the elements.  A directory entry reads back the inode number and the
  name written to it.
\<close>

section \<open>Elements of a path\<close>

fun split :: "uchar \<Rightarrow> uchar list \<Rightarrow> uchar list list" where
  "split c [] = [[]]"
| "split c (x # xs) = (if x = c then [] # split c xs else (x # hd (split c xs)) # tl (split c xs))"

definition elements :: "uchar list \<Rightarrow> uchar list list" where
  "elements path = map (take DIRSIZ) (filter ((\<noteq>) []) (split slash path))"

lemma split_takeWhile:
  "split c path = takeWhile ((\<noteq>) c) path #
     (case dropWhile ((\<noteq>) c) path of [] \<Rightarrow> [] | _ # rest \<Rightarrow> split c rest)"
  by (induction path) auto

lemma elements_slash [simp]: "elements [] = []" "elements (slash # path) = elements path"
  by (simp_all add: elements_def)

lemma elements_drop: "elements (dropWhile ((=) slash) path) = elements path"
  by (induction path) auto

lemma elements_cons:
  assumes "path \<noteq> []" "hd path \<noteq> slash"
  shows "elements path = take DIRSIZ (takeWhile ((\<noteq>) slash) path) # elements (dropWhile ((\<noteq>) slash) path)"
proof -
  let ?e = "takeWhile ((\<noteq>) slash) path" and ?r = "dropWhile ((\<noteq>) slash) path"
  have ne: "[] \<noteq> ?e" using assms by (cases path) auto
  have "elements path = take DIRSIZ ?e # (case ?r of [] \<Rightarrow> [] | _ # rest \<Rightarrow> elements rest)"
    unfolding elements_def split_takeWhile [of slash path]
    by (cases ?r) (simp_all only: filter.simps list.case list.map if_P [OF ne])
  also have "(case ?r of [] \<Rightarrow> [] | _ # rest \<Rightarrow> elements rest) = elements ?r"
  proof (cases ?r)
    case Nil
    then show ?thesis by (simp only: list.case elements_slash)
  next
    case (Cons x rest)
    then have "x = slash" using hd_dropWhile [of "(\<noteq>) slash" path] by simp
    then show ?thesis using Cons by simp
  qed
  finally show ?thesis .
qed

lemma hd_elem: "dropWhile ((=) c) path \<noteq> [] \<Longrightarrow> hd (dropWhile ((=) c) path) \<noteq> c"
  by (drule hd_dropWhile) (rule not_sym)

lemma elements_Nil: "elements path = [] \<longleftrightarrow> dropWhile ((=) slash) path = []"
proof (cases "dropWhile ((=) slash) path = []")
  case True
  then show ?thesis using elements_drop [of path] by (simp only: elements_slash simp_thms)
next
  case False
  show ?thesis using elements_cons [OF False hd_elem [OF False]] False elements_drop [of path] by (simp only: list.distinct simp_thms)
qed

lemma skipelem_elements:
  shows "elements path = [] \<Longrightarrow> skipelem path = None"
    "elements path = e # es \<Longrightarrow> \<exists>rest. skipelem path = Some (rest, e) \<and> elements rest = es \<and> (rest = [] \<longleftrightarrow> es = [])"
proof -
  let ?p = "dropWhile ((=) slash) path"
  show "skipelem path = None" if "elements path = []" using that by (simp add: elements_Nil skipelem_def)
  assume e: "elements path = e # es"
  then have ne: "?p \<noteq> []" using elements_Nil [of path] by (simp only: list.distinct simp_thms)
  let ?q = "dropWhile ((\<noteq>) slash) ?p" and ?r = "dropWhile ((=) slash) (dropWhile ((\<noteq>) slash) ?p)"
  have c: "e = take DIRSIZ (takeWhile ((\<noteq>) slash) ?p)" "es = elements ?q"
    using elements_cons [OF ne hd_elem [OF ne]] e by (simp_all only: elements_drop list.inject)
  have "skipelem path = Some (?r, e)" using ne c(1) by (simp only: skipelem_def Let_def if_False)
  moreover have "elements ?r = es" by (simp only: elements_drop c(2))
  moreover have "?r = [] \<longleftrightarrow> es = []" by (simp only: elements_Nil c(2))
  ultimately show "\<exists>rest. skipelem path = Some (rest, e) \<and> elements rest = es \<and> (rest = [] \<longleftrightarrow> es = [])" by blast
qed

section \<open>Resolution\<close>

text \<open>
  The resolution of a list of names from inode \<open>ip\<close>: each but the last, or each, is looked up in the
  directory reached so far.
\<close>

primrec resolve ::
  "bool \<Rightarrow> uchar list list \<Rightarrow> uchar list \<Rightarrow> nat \<Rightarrow> 'a fs_state_scheme \<Rightarrow> (nat option \<times> uchar list, 'a fs_state_scheme) kres"
where
  "resolve parent [] name ip s =
     (if parent then kbind (iput ip s) (\<lambda>_ s. Ret (None, name) s) else Ret (Some ip, name) s)"
| "resolve parent (e # es) name ip s =
     kbind (ilock (Some ip) s) (\<lambda>_ s.
     if i_type (inodes s ip) \<noteq> T_DIR then kbind (iunlockput ip s) (\<lambda>_ s. Ret (None, e) s)
     else if parent \<and> es = [] then kbind (iunlock (Some ip) s) (\<lambda>_ s. Ret (Some ip, e) s)
     else kbind (dirlookup ip e s) (\<lambda>next s.
       case next of
         None \<Rightarrow> kbind (iunlockput ip s) (\<lambda>_ s. Ret (None, e) s)
       | Some (nx, _) \<Rightarrow> kbind (iunlockput ip s) (\<lambda>_ s. resolve parent es e nx s)))"

lemma namex_loop_resolve:
  fixes s :: "'a fs_state_scheme"
  shows "namex_loop path parent name ip s = resolve parent (elements path) name ip s"
proof (induction "elements path" arbitrary: path name ip s)
  case Nil
  then have "skipelem path = None" using skipelem_elements(1) by simp
  then show ?case using Nil [symmetric] by (simp add: namex_loop.simps [of path])
next
  case (Cons e es)
  obtain rest where r: "skipelem path = Some (rest, e)" "elements rest = es" "rest = [] \<longleftrightarrow> es = []"
    using skipelem_elements(2) [OF Cons.hyps(2) [symmetric]] by blast
  have "(namex_loop rest parent e :: nat \<Rightarrow> 'a fs_state_scheme \<Rightarrow> _) = resolve parent es e"
    using Cons.hyps(1) [OF r(2) [symmetric]] r(2) by (intro ext) simp
  then show ?case
    unfolding Cons.hyps(2) [symmetric] using r by (simp add: namex_loop.simps [of path] cong: if_cong option.case_cong)
qed

section \<open>Names\<close>

definition cname :: "uchar list \<Rightarrow> uchar list" where
  "cname s = takeWhile ((\<noteq>) 0) s"

lemma strncmp_bytes_eq: "strncmp_bytes n p q = 0 \<longleftrightarrow> take n (cname p) = take n (cname q)"
proof (induction n arbitrary: p q)
  case (Suc n)
  show ?case
    by (cases p; cases q) (auto simp: Suc hd0_def cname_def uint_0_iff simp flip: word_uint_eq_iff)
qed simp

lemma de_bytes_simps:
  "length (de_bytes i name) = 16" "de_inum (de_bytes i name) = i" "de_name (de_bytes i name) = strncpy_bytes name DIRSIZ"
  by (simp_all add: de_bytes_def de_inum_def de_name_def strncpy_bytes_def DIRSIZ_def le_word_le_bytes)

lemma cname_strncpy: "take n (cname (strncpy_bytes name n)) = take n (cname name)"
proof -
  have "cname (take n name @ replicate k 0) = take n (cname name)" for k
    by (induction name arbitrary: n) (auto simp: cname_def take_Cons split: nat.split)
  then show ?thesis by (simp add: strncpy_bytes_def)
qed

section \<open>Properties\<close>

text \<open>
  C36: \<^verbatim>\<open>namex\<close> resolves a path by its elements only: whatever slashes lead, trail or repeat, it is the
  resolution of the list of the non-empty parts between slashes, each cut to 14 bytes, from the root
  for a path that begins with a slash and from the current directory otherwise; with \<^verbatim>\<open>nameiparent\<close>
  the last of them is not looked up.
\<close>

theorem namex_resolves_elements:
  "namex path parent s =
     kbind (if hd0 path = slash then iget ROOTDEV ROOTINO s
            else with_myproc (\<lambda>p s. case p_cwd (procs s p) of None \<Rightarrow> Undef | Some cwd \<Rightarrow> idup cwd s) s)
       (\<lambda>ip s. resolve parent (map (take DIRSIZ) (filter ((\<noteq>) []) (split slash path))) [] ip s)"
  unfolding namex_def namex_loop_resolve elements_def by (rule refl)

text \<open>
  C37: A directory entry reads back the inode number written to it, and a lookup recognises it by
  exactly the names that agree with the one written, as C strings, in their first 14 bytes.
\<close>

theorem dirent_round_trip:
  "length (de_bytes inum name) = 16 \<and> de_inum (de_bytes inum name) = inum \<and>
   (namecmp other (de_name (de_bytes inum name)) = 0 \<longleftrightarrow> take DIRSIZ (cname other) = take DIRSIZ (cname name))"
  by (simp add: namecmp_def de_bytes_simps strncmp_bytes_eq cname_strncpy)

end
