(* ===== verification/Blocks.thy ===== *)
theory Blocks
  imports Sample
begin

text \<open>
  Block allocation inside a transaction (\<^verbatim>\<open>balloc\<close>, \<^verbatim>\<open>bfree\<close>, \<^verbatim>\<open>bzero\<close> of \<^verbatim>\<open>kernel/fs.c\<close>).  The bitmap is
  read as the set of blocks in use; allocation takes the lowest free block, marks it and clears it.
\<close>

unbundle bit_operations_syntax

section \<open>Frames\<close>

lemma lframe_fs:
  fixes s :: "'a fs_state_scheme"
  assumes "lframe s t"
  shows "sb t = sb s" "inodes t = inodes s" "uart_ready t = uart_ready s"
proof -
  have b: "bframe (s\<lparr>log_lh := log_lh t\<rparr>) t" using assms by (simp add: lframe_def)
  have e: "t = s\<lparr>log_lh := log_lh t, uart_out := uart_out t, procs := procs t, sleeplocks := sleeplocks t, bufs := bufs t,
     disk := disk t, disk_trace := disk_trace t\<rparr>" using b by (simp add: bframe_def)
  show "sb t = sb s" "inodes t = inodes s" by (subst e, simp)+
  show "uart_ready t = uart_ready s" using bframe_log(7) [OF b] by (simp add: uart_ready_def)
qed

lemma log_calm: "log_ok p H s \<Longrightarrow> calm p s"
  using cacheD(1) [OF busyD(1)] by (auto simp: log_ok_def)


section \<open>The bitmap\<close>

abbreviation fs_size :: "'a fs_state_scheme \<Rightarrow> nat" where
  "fs_size s \<equiv> unat (sb_size (sb s))"

definition bmap_block :: "'a fs_state_scheme \<Rightarrow> nat \<Rightarrow> uint32" where
  "bmap_block s b = BBLOCK (of_nat b) (sb s)"

definition used :: "'a fs_state_scheme \<Rightarrow> nat \<Rightarrow> bool" where
  "used s b \<longleftrightarrow> \<not> bit_free (content s (bmap_block s b)) (b mod BPB)"

definition mark_bit :: "nat \<Rightarrow> block \<Rightarrow> block" where
  "mark_bit i d = d(i div 8 := d (i div 8) OR bmask i)"

definition unmark_bit :: "nat \<Rightarrow> block \<Rightarrow> block" where
  "unmark_bit i d = d(i div 8 := d (i div 8) AND NOT (bmask i))"

lemma bit_free_iff: "bit_free d i \<longleftrightarrow> \<not> bit (d (i div 8)) (i mod 8)"
  by (simp add: bit_free_def bmask_def push_bit_of_1 and_exp_eq_0_iff_not_bit)

lemma same_bit: "i div 8 = j div 8 \<Longrightarrow> i mod 8 = j mod 8 \<longleftrightarrow> i = (j :: nat)"
  by (metis div_mult_mod_eq)

lemma bit_free_mark: "bit_free (mark_bit i d) j \<longleftrightarrow> j \<noteq> i \<and> bit_free d j"
  using same_bit [of i j] by (auto simp: bit_free_iff mark_bit_def bmask_def bit_simps)

lemma bit_free_unmark: "bit_free (unmark_bit i d) j \<longleftrightarrow> j = i \<or> bit_free d j"
  using same_bit [of i j] by (auto simp: bit_free_iff unmark_bit_def bmask_def bit_simps)

lemma unat32: "b < 2 ^ 32 \<Longrightarrow> unat (of_nat b :: uint32) = b"
  by (simp add: unat_of_nat take_bit_nat_eq_self)

lemma fs_size_less: "fs_size s < 2 ^ 32"
  using unsigned_less [of "sb_size (sb s)"] by simp

lemma bmap_block_eq:
  assumes "b < 2 ^ 32" "c < 2 ^ 32"
  shows "bmap_block s b = bmap_block s c \<longleftrightarrow> b div BPB = c div BPB"
proof -
  have "b div BPB < 2 ^ 32" "c div BPB < 2 ^ 32" using assms div_le_dividend le_less_trans by blast+
  then have "(of_nat (b div BPB) :: uint32) = of_nat (c div BPB) \<longleftrightarrow> b div BPB = c div BPB" using unat32 by metis
  then show ?thesis using assms by (simp add: bmap_block_def BBLOCK_def unat32)
qed

text \<open>
  The layout of the disk: log, bitmap and inode blocks are apart, and the bitmap marks them and
  block 0 as used.
\<close>

definition bmap_blocks :: "'a fs_state_scheme \<Rightarrow> uint32 set" where
  "bmap_blocks s = bmap_block s ` {..<fs_size s}"

definition inode_blocks :: "'a fs_state_scheme \<Rightarrow> uint32 set" where
  "inode_blocks s = (\<lambda>i. IBLOCK (of_nat i) (sb s)) ` {..<unat (sb_ninodes (sb s))}"

definition meta :: "'a fs_state_scheme \<Rightarrow> uint32 set" where
  "meta s = log_area s \<union> bmap_blocks s \<union> inode_blocks s"

definition layout_ok :: "'a fs_state_scheme \<Rightarrow> bool" where
  "layout_ok s \<longleftrightarrow> 0 < fs_size s \<and> used s 0 \<and> (\<forall>b<fs_size s. of_nat b \<in> meta s \<longrightarrow> used s b) \<and>
     bmap_blocks s \<inter> log_area s = {} \<and> inode_blocks s \<inter> (bmap_blocks s \<union> log_area s) = {}"

lemma layout_okD:
  assumes "layout_ok s" "b < fs_size s"
  shows "bmap_block s b \<notin> log_area s" "\<not> used s b \<Longrightarrow> of_nat b \<notin> meta s"
  using assms by (auto simp: layout_ok_def bmap_blocks_def)

lemma lframe_layout:
  fixes s :: "'a fs_state_scheme"
  assumes "lframe s t"
  shows "bmap_block t = bmap_block s" "fs_size t = fs_size s" "bmap_blocks t = bmap_blocks s" "inode_blocks t = inode_blocks s"
    "meta t = meta s"
  using lframe_fs(1) [OF assms] lframeD(6) [OF assms]
  by (simp_all add: bmap_block_def [abs_def] bmap_blocks_def inode_blocks_def meta_def)

text \<open>The buffers the thread holds are neither bitmap blocks nor free blocks.\<close>

definition apart :: "nat set \<Rightarrow> 'a fs_state_scheme \<Rightarrow> bool" where
  "apart H s \<longleftrightarrow> (\<forall>c\<in>H. \<forall>b<fs_size s. \<not> cached s (bmap_block s b) c \<and> (used s b \<or> \<not> cached s (of_nat b) c))"

lemma kept_sent:
  assumes "log_ok p H s"
  shows "kept p H s (sent m s)"
proof -
  have h: "home (sent m s) = home s" "log_area (sent m s) = log_area s"
    by (simp_all add: home_def [abs_def] log_area_def hdr_def logno_def [abs_def])
  then have "log_ok p H (sent m s)" using assms by (simp add: log_ok_def)
  then show ?thesis using h lframe_bframe [OF sent_frame(3)] by (simp add: kept_def)
qed

lemma content_same:
  assumes "kept p H s t"
  shows "bmap_block t b = bmap_block s b" "used t b = used s b" "fs_size t = fs_size s"
  using keptD(2) [OF assms] lframe_fs(1) [OF keptD(3) [OF assms]] by (simp_all add: bmap_block_def used_def)

lemma kept_apart:
  assumes "kept p H s t" "apart H s"
  shows "apart H t"
proof -
  have "cached t n c = cached s n c" if "c \<in> H" for n c
    using coreD(2,3) [OF keptD(6) [OF assms(1) that]] by (simp add: cached_def)
  then show ?thesis using assms(2) content_same [OF assms(1)] by (simp add: apart_def)
qed

lemma kept_layout: "kept p H s t \<Longrightarrow> layout_ok s \<Longrightarrow> layout_ok t"
  using content_same [of p H s t] lframe_layout [OF keptD(3), of p H s t] lframeD(6) [OF keptD(3), of p H s t]
  by (simp add: layout_ok_def)

section \<open>Allocation\<close>

text \<open>One turn of the outer loop of \<^verbatim>\<open>balloc\<close>: the bitmap block that begins with block \<open>b\<close>.\<close>

definition balloc_try :: "nat \<Rightarrow> nat \<Rightarrow> 'a fs_state_scheme \<Rightarrow> (uint32 option, 'a fs_state_scheme) kres" where
  "balloc_try sz b s =
     kbind (bread ROOTDEV (BBLOCK (of_nat b) (sb s)) s) (\<lambda>bp s.
     case find (bit_free (b_data (bufs s bp))) [0..<min BPB (sz - b)] of
       Some bi \<Rightarrow>
         let s = upd_buf bp (b_data_update (mark_bit bi)) s in
         kbind (log_write bp s) (\<lambda>_ s.
         kbind (brelse bp s) (\<lambda>_ s.
         kbind (bzero ROOTDEV (of_nat (b + bi)) s) (\<lambda>_ s.
         Ret (Some (of_nat (b + bi))) s)))
     | None \<Rightarrow> kbind (brelse bp s) (\<lambda>_ s. Ret None s))"

lemma balloc_turns:
  "balloc ROOTDEV s =
     kbind (kfind (map ((*) BPB) [0..<(fs_size s + BPB - 1) div BPB]) (balloc_try (fs_size s)) s) (\<lambda>r s.
     case r of
       Some b \<Rightarrow> Ret b s
     | None \<Rightarrow> kbind (printf ''balloc: out of blocks\<newline>'' [] s) (\<lambda>_ s. Ret 0 s))"
  unfolding balloc_def balloc_try_def [abs_def] mark_bit_def [abs_def] Let_def ..

lemma bzero_update: "bzero ROOTDEV n s = update_block (n, \<lambda>_ _. 0) s"
  by (simp add: bzero_def update_block_def)

lemma bitmap_turn:
  assumes "BPB * k < fs_size s" "bi < min BPB (fs_size s - BPB * k)"
  shows "bmap_block s (BPB * k + bi) = BBLOCK (of_nat (BPB * k)) (sb s)" "(BPB * k + bi) mod BPB = bi"
    "BPB * k + bi < fs_size s" "(BPB * k + bi) div BPB = k"
proof -
  show "(BPB * k + bi) mod BPB = bi" "(BPB * k + bi) div BPB = k" using assms(2) by (simp_all add: BPB_def BSIZE_def)
  show l: "BPB * k + bi < fs_size s" using assms by linarith
  then have "bmap_block s (BPB * k + bi) = bmap_block s (BPB * k)"
    using fs_size_less [of s] assms by (subst bmap_block_eq) (simp_all add: BPB_def BSIZE_def)
  then show "bmap_block s (BPB * k + bi) = BBLOCK (of_nat (BPB * k)) (sb s)" by (simp add: bmap_block_def)
qed

text \<open>Block \<open>b\<close> is marked as used and filled with zeroes.\<close>

definition marked :: "nat \<Rightarrow> 'a fs_state_scheme \<Rightarrow> 'a fs_state_scheme \<Rightarrow> bool" where
  "marked b s t \<longleftrightarrow> lframe s t \<and>
     content t = (content s)(bmap_block s b := mark_bit (b mod BPB) (content s (bmap_block s b)), of_nat b := \<lambda>_. 0)"

definition allocated :: "nat \<Rightarrow> nat set \<Rightarrow> nat \<Rightarrow> 'a fs_state_scheme \<Rightarrow> 'a fs_state_scheme \<Rightarrow> bool" where
  "allocated p H b s t \<longleftrightarrow> trans_open p H t \<and> nlog t \<le> nlog s + 2 \<and> marked b s t \<and>
     (\<forall>c\<in>H. core (bufs t c) = core (bufs s c))"

lemma marked_after:
  fixes s :: "'a fs_state_scheme"
  assumes "lframe s t" "content t = content s" "marked b t u"
  shows "marked b s u"
  using assms(2,3) lframe_layout(1) [OF assms(1)] lframe_trans [OF assms(1)] by (simp add: marked_def)

lemma allocatedD:
  assumes "allocated p H b s t"
  shows "trans_open p H t" "nlog t \<le> nlog s + 2" "marked b s t" "c \<in> H \<Longrightarrow> core (bufs t c) = core (bufs s c)" "lframe s t"
  using assms by (simp_all add: allocated_def marked_def)

lemma allocated_kept:
  assumes "kept p H s t" "allocated p H b t u"
  shows "allocated p H b s u"
  using allocatedD [OF assms(2)] keptD [OF assms(1)] marked_after [OF keptD(3,2) [OF assms(1)]]
  by (simp add: allocated_def)

lemma balloc_try_full:
  assumes "trans_open p H s" "apart H s" "nlog s + card H < NBUF" "BPB * k < fs_size s"
    "\<forall>b<fs_size s. b div BPB = k \<longrightarrow> used s b"
  shows "\<exists>t. balloc_try (fs_size s) (BPB * k) s = Ret None t \<and> kept p H s t"
proof -
  let ?n = "BBLOCK (of_nat (BPB * k)) (sb s)"
  have "\<forall>c\<in>H. \<not> cached s ?n c" using assms(2,4) by (auto simp: apart_def simp flip: bmap_block_def simp del: of_nat_mult)
  then obtain b a t where a: "bread ROOTDEV ?n s = Ret b a" "b_data (bufs a b) = content s ?n" "brelse b a = Ret () t" "kept p H s t"
    by (rule log_read [OF open_log_ok [OF assms(1)] _ assms(3)]) (rule that, assumption+)
  have "\<not> bit_free (content s ?n) bi" if "bi < min BPB (fs_size s - BPB * k)" for bi
    using bitmap_turn [OF assms(4) that] assms(5) by (metis used_def)
  then have "find (bit_free (b_data (bufs a b))) [0..<min BPB (fs_size s - BPB * k)] = None"
    by (simp only: find_lowest(2) a(2)) blast
  then show ?thesis using a(1,3,4) by (simp add: balloc_try_def)
qed

lemma balloc_try_free:
  assumes "trans_open p H s" "layout_ok s" "apart H s" "Suc (nlog s + card H) < NBUF" "BPB * k < fs_size s"
    "b < fs_size s" "b div BPB = k" "\<not> used s b" "\<forall>c<b. c div BPB = k \<longrightarrow> used s c"
  shows "\<exists>t. balloc_try (fs_size s) (BPB * k) s = Ret (Some (of_nat b)) t \<and> allocated p H b s t"
proof -
  let ?n = "BBLOCK (of_nat (BPB * k)) (sb s)" and ?bi = "b mod BPB"
  have b: "b = BPB * k + ?bi" using assms(7) by auto
  moreover have "?bi < BPB" by (simp add: BPB_def BSIZE_def)
  ultimately have "?bi < min BPB (fs_size s - BPB * k)" using assms(6) by linarith
  note b = b this
  note turn = bitmap_turn [OF assms(5)]
  have n: "bmap_block s b = ?n" using turn(1) [OF b(2)] b(1) by simp
  have h: "\<forall>c\<in>H. \<not> cached s ?n c" using assms(3,6) unfolding n [symmetric] apart_def by blast
  have l: "nlog s + card H < NBUF" using assms(4) by simp
  obtain c a where a: "bread ROOTDEV ?n s = Ret c a" "trans_open p (insert c H) a" "c \<notin> H" "cached a ?n c" "b_valid (bufs a c) \<noteq> 0"
    "b_data (bufs a c) = content s ?n" "content a = content s" "lframe s a" "nlog a = nlog s" "\<And>d. d \<noteq> c \<Longrightarrow> bufs a d = bufs s d"
    by (rule open_bread [OF assms(1) h l]) (rule that, assumption+)
  have f: "find (bit_free (b_data (bufs a c))) [0..<min BPB (fs_size s - BPB * k)] = Some ?bi"
  proof (simp only: find_lowest(1) a(6), intro conjI allI impI b(2))
    show "bit_free (content s ?n) ?bi" using assms(8) n by (simp add: used_def)
    fix j assume j: "j < ?bi"
    then have "j < min BPB (fs_size s - BPB * k)" using b(2) by simp
    note tj = turn [OF this]
    have "used s (BPB * k + j)" using assms(9) tj(4) b(1) j by (metis add_less_cancel_left)
    then show "\<not> bit_free (content s ?n) j" using tj(1,2) by (simp add: used_def)
  qed
  have m: "?n \<notin> log_area a" "nlog a < NBUF" using layout_okD(1) [OF assms(2,6)] assms(4) n a(9) lframeD(6) [OF a(8)] by auto
  obtain w v where v: "log_write c (upd_buf c (b_data_update (mark_bit ?bi)) a) = Ret () w" "brelse c w = Ret () v" "trans_open p H v"
    "nlog v \<le> Suc (nlog a)" "content v = (content a)(?n := mark_bit ?bi (content a ?n))" "lframe a v"
    "\<And>d. d \<noteq> c \<Longrightarrow> core (bufs v d) = core (bufs a d)"
    by (rule open_update [OF a(2-5) m]) (rule that, assumption+)
  have fv: "lframe s v" using a(8) v(6) lframe_trans by blast
  have hv: "core (bufs v d) = core (bufs s d)" if "d \<in> H" for d
  proof -
    have "d \<noteq> c" using that a(3) by blast
    then show ?thesis using v(7) a(10) by simp
  qed
  have "\<not> cached v (of_nat b) d" if "d \<in> H" for d
    using coreD(2,3) [OF hv [OF that]] assms(3,6,8) that by (auto simp: apart_def cached_def)
  moreover have "of_nat b \<notin> log_area v" using layout_okD(2) [OF assms(2,6,8)] lframeD(6) [OF fv] by (simp add: meta_def)
  moreover have "nlog v + card H < NBUF" using v(4) a(9) assms(4) by simp
  ultimately obtain t where t: "update_block (of_nat b, \<lambda>_ _. 0) v = Ret () t" "trans_open p H t" "nlog t \<le> Suc (nlog v)"
    "content t = (content v)(of_nat b := \<lambda>_. 0)" "lframe v t" "\<forall>d\<in>H. core (bufs t d) = core (bufs v d)"
    using update_ok [OF v(3), of "(of_nat b, \<lambda>_ _. 0)"] by auto
  have "balloc_try (fs_size s) (BPB * k) s = Ret (Some (of_nat b)) t"
    using a(1) f v(1,2) t(1) b(1) by (simp add: balloc_try_def bzero_update Let_def)
  moreover have "allocated p H b s t"
    unfolding allocated_def marked_def using t v(4,5) a(7,9) n hv lframe_trans [OF fv t(5)] by simp
  ultimately show ?thesis by blast
qed

text \<open>All blocks below \<open>b\<close> are in use, and \<open>b\<close> is free.\<close>

definition lowest_free :: "'a fs_state_scheme \<Rightarrow> nat option" where
  "lowest_free s = find (\<lambda>b. \<not> used s b) [0..<fs_size s]"

lemma balloc_scan:
  assumes "trans_open p H s" "layout_ok s" "apart H s" "Suc (nlog s + card H) < NBUF"
    "\<forall>b<fs_size s. b div BPB < k \<longrightarrow> used s b" "n = (fs_size s + BPB - 1) div BPB"
  shows "case lowest_free s of
      Some b \<Rightarrow> \<exists>t. kfind (map ((*) BPB) [k..<n]) (balloc_try (fs_size s)) s = Ret (Some (of_nat b)) t \<and> allocated p H b s t
    | None \<Rightarrow> \<exists>t. kfind (map ((*) BPB) [k..<n]) (balloc_try (fs_size s)) s = Ret None t \<and> kept p H s t"
  using assms
proof (induction "n - k" arbitrary: k s)
  case 0
  have "used s b" if "b < fs_size s" for b
  proof -
    have "fs_size s \<le> (fs_size s + 8191) div 8192 * 8192"
      using div_mult_mod_eq [of "fs_size s + 8191" 8192] mod_less_divisor [of 8192 "fs_size s + 8191"] by linarith
    then have "b div 8192 < (fs_size s + 8191) div 8192" using that by (simp add: div_less_iff_less_mult)
    then have "b div BPB < k" using 0(1,7) by (simp add: BPB_def BSIZE_def)
    then show ?thesis using 0(6) that by blast
  qed
  then have "lowest_free s = None" by (simp add: lowest_free_def find_lowest)
  then show ?case using 0(1) kept_refl [OF open_log_ok [OF 0(2)]] by simp
next
  case (Suc m)
  have k: "k < n" "[k..<n] = k # [Suc k..<n]" using Suc.hyps(2) by (simp_all add: upt_conv_Cons)
  have "Suc k * 8192 \<le> fs_size s + 8191"
    using k(1) Suc.prems(6) by (simp add: BPB_def BSIZE_def Suc_le_eq less_eq_div_iff_mult_less_eq flip: Suc_le_eq)
  then have sz: "BPB * k < fs_size s" by (simp add: BPB_def BSIZE_def)
  show ?case
  proof (cases "\<forall>b<fs_size s. b div BPB = k \<longrightarrow> used s b")
    case True
    obtain t where t: "balloc_try (fs_size s) (BPB * k) s = Ret None t" "kept p H s t"
      using balloc_try_full [OF Suc.prems(1,3) _ sz True] Suc.prems(4) by auto
    note c = content_same [OF t(2)]
    have u: "\<forall>b<fs_size t. b div BPB < Suc k \<longrightarrow> used t b" using True Suc.prems(5) by (simp add: c less_Suc_eq)
    have l: "lowest_free t = lowest_free s" by (simp add: lowest_free_def c)
    have "m = n - Suc k" "Suc (nlog t + card H) < NBUF" using Suc.hyps(2) Suc.prems(4) keptD(4) [OF t(2)] by simp_all
    note ih = Suc.hyps(1) [OF this(1) kept_open [OF t(2) Suc.prems(1)] kept_layout [OF t(2) Suc.prems(2)] kept_apart [OF t(2) Suc.prems(3)] this(2) u]
    have f: "kfind (map ((*) BPB) [k..<n]) (balloc_try (fs_size s)) s = kfind (map ((*) BPB) [Suc k..<n]) (balloc_try (fs_size t)) t"
      using t(1) by (simp add: k(2) c(3))
    have n: "n = (fs_size t + BPB - 1) div BPB" using Suc.prems(6) c(3) by simp
    show ?thesis
    proof (cases "lowest_free s")
      case None
      then show ?thesis using ih [OF n] l kept_trans [OF t(2)] unfolding f by (auto simp del: upt.simps)
    next
      case (Some b)
      then show ?thesis using ih [OF n] l allocated_kept [OF t(2)] unfolding f by (auto simp del: upt.simps)
    qed
  next
    case False
    let ?P = "\<lambda>b. b < fs_size s \<and> b div BPB = k \<and> \<not> used s b"
    define b where "b = (LEAST b. ?P b)"
    have b: "?P b" unfolding b_def by (rule LeastI_ex) (use False in blast)
    have m: "\<forall>c<b. c div BPB = k \<longrightarrow> used s c" using not_less_Least [of _ ?P] b unfolding b_def by (metis (no_types, lifting) less_trans)
    have "used s c" if "c < b" for c
    proof (cases "c div BPB = k")
      case False
      then have "c div BPB < k" using that b div_le_mono [of c b BPB] by simp
      then show ?thesis using Suc.prems(5) that b by simp
    qed (use m that in blast)
    then have "lowest_free s = Some b" using b by (simp add: lowest_free_def find_lowest)
    moreover obtain t where "balloc_try (fs_size s) (BPB * k) s = Ret (Some (of_nat b)) t" "allocated p H b s t"
      using balloc_try_free [OF Suc.prems(1-4) sz _ _ _ m] b by blast
    ultimately show ?thesis by (simp add: k(2))
  qed
qed

lemma out_of_blocks: "\<exists>t. printf_text ''balloc: out of blocks\<newline>'' [] = Some t"
  by simp

lemma balloc_ok:
  assumes "trans_open p H s" "uart_ready s" "layout_ok s" "apart H s" "Suc (nlog s + card H) < NBUF"
  shows "case lowest_free s of
      Some b \<Rightarrow> \<exists>t. balloc ROOTDEV s = Ret (of_nat b) t \<and> allocated p H b s t
    | None \<Rightarrow> \<exists>t. balloc ROOTDEV s = Ret 0 t \<and> kept p H s t"
proof -
  have "\<forall>b<fs_size s. b div BPB < 0 \<longrightarrow> used s b" by simp
  note c = balloc_scan [OF assms(1,3-5) this refl]
  show ?thesis
  proof (cases "lowest_free s")
    case None
    then obtain t where t: "kfind (map ((*) BPB) [0..<(fs_size s + BPB - 1) div BPB]) (balloc_try (fs_size s)) s = Ret None t" "kept p H s t"
      using c by auto
    obtain m where "printf_text ''balloc: out of blocks\<newline>'' [] = Some m" using out_of_blocks by blast
    moreover have "uart_ready t" using lframe_fs(3) [OF keptD(3) [OF t(2)]] assms(2) by simp
    moreover have "kept p H t (sent m t)" by (rule kept_sent [OF keptD(1) [OF t(2)]])
    ultimately have "balloc ROOTDEV s = Ret 0 (sent m t)" "kept p H s (sent m t)"
      using t log_calm [OF keptD(1) [OF t(2)]] kept_trans [OF t(2)] by (simp_all add: balloc_turns printf_eq)
    then show ?thesis using None by auto
  next
    case (Some b)
    then show ?thesis using c by (auto simp: balloc_turns)
  qed
qed

section \<open>The bitmap after allocation and release\<close>

lemma used_upd:
  fixes s :: "'a fs_state_scheme"
  assumes "b < fs_size s" "c < fs_size s" "lframe s t" "content t (bmap_block s c) = ((content s)(bmap_block s b := d)) (bmap_block s c)"
  shows "used t c \<longleftrightarrow> (if c div BPB = b div BPB then \<not> bit_free d (c mod BPB) else used s c)"
proof -
  have e: "bmap_block t c = bmap_block s c" using lframe_fs(1) [OF assms(3)] by (simp add: bmap_block_def)
  have "bmap_block s c = bmap_block s b \<longleftrightarrow> c div BPB = b div BPB"
    using bmap_block_eq [of c b s] assms(1,2) fs_size_less [of s] by simp
  then show ?thesis using assms(4) by (simp add: used_def e)
qed

lemma div_mod_BPB: "c div BPB = b div BPB \<Longrightarrow> c mod BPB = b mod BPB \<longleftrightarrow> c = b"
  by (metis div_mult_mod_eq)

lemma marked_used:
  fixes s :: "'a fs_state_scheme"
  assumes "marked b s t" "layout_ok s" "b < fs_size s" "\<not> used s b" "c < fs_size s"
  shows "used t c \<longleftrightarrow> c = b \<or> used s c"
proof -
  have a: "lframe s t" "content t = (content s)(bmap_block s b := mark_bit (b mod BPB) (content s (bmap_block s b)), of_nat b := \<lambda>_. 0)"
    using assms(1) by (simp_all add: marked_def)
  have "of_nat b \<noteq> bmap_block s c" using layout_okD(2) [OF assms(2-4)] assms(5) by (auto simp: meta_def bmap_blocks_def)
  then have "content t (bmap_block s c) = ((content s)(bmap_block s b := mark_bit (b mod BPB) (content s (bmap_block s b)))) (bmap_block s c)"
    by (simp add: a(2))
  note u = used_upd [OF assms(3,5) a(1) this]
  show ?thesis
  proof (cases "c div BPB = b div BPB")
    case True
    then have "bmap_block s c = bmap_block s b" using bmap_block_eq [of c b s] assms(3,5) fs_size_less [of s] by simp
    then show ?thesis using u True div_mod_BPB [OF True] by (auto simp: bit_free_mark used_def)
  qed (use u in auto)
qed

lemma marked_layout:
  fixes s :: "'a fs_state_scheme"
  assumes "marked b s t" "layout_ok s" "b < fs_size s" "\<not> used s b"
  shows "layout_ok t"
proof -
  have f: "lframe s t" using assms(1) by (simp add: marked_def)
  have "0 < fs_size s" using assms(3) by simp
  then show ?thesis using marked_used [OF assms] assms(2) lframeD(6) [OF f] lframe_layout [OF f] by (simp add: layout_ok_def)
qed

text \<open>Block \<open>b\<close> is no longer marked.\<close>

definition freed :: "nat \<Rightarrow> nat set \<Rightarrow> nat \<Rightarrow> 'a fs_state_scheme \<Rightarrow> 'a fs_state_scheme \<Rightarrow> bool" where
  "freed p H b s t \<longleftrightarrow> trans_open p H t \<and> nlog t \<le> Suc (nlog s) \<and> lframe s t \<and>
     content t = (content s)(bmap_block s b := unmark_bit (b mod BPB) (content s (bmap_block s b))) \<and>
     (\<forall>c\<in>H. core (bufs t c) = core (bufs s c))"

lemma freed_used:
  fixes s :: "'a fs_state_scheme"
  assumes "freed p H b s t" "b < fs_size s" "c < fs_size s"
  shows "used t c \<longleftrightarrow> c \<noteq> b \<and> used s c"
proof -
  have a: "lframe s t" "content t (bmap_block s c) = ((content s)(bmap_block s b := unmark_bit (b mod BPB) (content s (bmap_block s b)))) (bmap_block s c)"
    using assms(1) by (simp_all add: freed_def)
  note u = used_upd [OF assms(2,3) a]
  show ?thesis
  proof (cases "c div BPB = b div BPB")
    case True
    then have "bmap_block s c = bmap_block s b" using bmap_block_eq [of c b s] assms(2,3) fs_size_less [of s] by simp
    then show ?thesis using u True div_mod_BPB [OF True] by (auto simp: bit_free_unmark used_def)
  qed (use u in auto)
qed

lemma bfree_ok:
  assumes "trans_open p H s" "layout_ok s" "apart H s" "nlog s + card H < NBUF" "b < fs_size s"
  shows "if used s b then \<exists>t. bfree ROOTDEV (of_nat b) s = Ret () t \<and> freed p H b s t
    else bfree ROOTDEV (of_nat b) s = Panic ''freeing free block''"
proof -
  let ?n = "bmap_block s b"
  have h: "\<forall>c\<in>H. \<not> cached s ?n c" using assms(3,5) by (auto simp: apart_def)
  obtain c a where a: "bread ROOTDEV ?n s = Ret c a" "trans_open p (insert c H) a" "c \<notin> H" "cached a ?n c" "b_valid (bufs a c) \<noteq> 0"
    "b_data (bufs a c) = content s ?n" "content a = content s" "lframe s a" "nlog a = nlog s" "\<And>d. d \<noteq> c \<Longrightarrow> bufs a d = bufs s d"
    by (rule open_bread [OF assms(1) h assms(4)]) (rule that, assumption+)
  have b: "unat (of_nat b :: uint32) = b" using assms(5) fs_size_less [of s] by (intro unat32) simp
  have e: "bfree ROOTDEV (of_nat b) s =
      (if \<not> used s b then Panic ''freeing free block''
       else kbind (log_write c (upd_buf c (b_data_update (unmark_bit (b mod BPB))) a)) (\<lambda>_ s. brelse c s))"
    using a(1,6) by (simp add: bfree_def Let_def b used_def unmark_bit_def [abs_def] flip: bmap_block_def)
  have m: "?n \<notin> log_area a" "nlog a < NBUF" using layout_okD(1) [OF assms(2,5)] assms(4) a(9) lframeD(6) [OF a(8)] by auto
  obtain w t where t: "log_write c (upd_buf c (b_data_update (unmark_bit (b mod BPB))) a) = Ret () w" "brelse c w = Ret () t" "trans_open p H t"
    "nlog t \<le> Suc (nlog a)" "content t = (content a)(?n := unmark_bit (b mod BPB) (content a ?n))" "lframe a t"
    "\<And>d. d \<noteq> c \<Longrightarrow> core (bufs t d) = core (bufs a d)"
    by (rule open_update [OF a(2-5) m]) (rule that, assumption+)
  have "core (bufs t d) = core (bufs s d)" if "d \<in> H" for d
  proof -
    have "d \<noteq> c" using that a(3) by blast
    then show ?thesis using t(7) a(10) by simp
  qed
  then have "freed p H b s t" unfolding freed_def using t(3-5) a(7,9) lframe_trans [OF a(8) t(6)] by simp
  then show ?thesis using e t(1,2) by simp
qed

section \<open>Properties\<close>

text \<open>
  C34: In a transaction with room for two more blocks, \<^verbatim>\<open>balloc\<close> returns the lowest block the bitmap marks
  as free: its bit, and no other, is set, the block reads as zeroes, and every other block outside
  the bitmap is unchanged.  When no block is free it returns 0 and no block changes.
\<close>

theorem balloc_lowest_free:
  assumes "trans_open p {} s" "uart_ready s" "layout_ok s" "Suc (nlog s) < NBUF"
  shows "if \<forall>b<fs_size s. used s b then \<exists>t. balloc ROOTDEV s = Ret 0 t \<and> trans_open p {} t \<and> content t = content s
    else \<exists>b t. b < fs_size s \<and> \<not> used s b \<and> (\<forall>c<b. used s c) \<and> balloc ROOTDEV s = Ret (of_nat b) t \<and>
      trans_open p {} t \<and> layout_ok t \<and> (\<forall>c<fs_size s. used t c \<longleftrightarrow> c = b \<or> used s c) \<and> content t (of_nat b) = (\<lambda>_. 0) \<and>
      (\<forall>n. n \<noteq> of_nat b \<and> n \<notin> bmap_blocks s \<longrightarrow> content t n = content s n)"
proof -
  have "apart {} s" "Suc (nlog s + card ({} :: nat set)) < NBUF" using assms(4) by (simp_all add: apart_def)
  note b = balloc_ok [OF assms(1-3) this]
  show ?thesis
  proof (cases "lowest_free s")
    case None
    then have "\<forall>b<fs_size s. used s b" by (simp add: lowest_free_def find_lowest)
    then show ?thesis using b None keptD(2) kept_open [OF _ assms(1)] by fastforce
  next
    case (Some c)
    then have c: "c < fs_size s" "\<not> used s c" "\<forall>d<c. used s d" by (simp_all add: lowest_free_def find_lowest)
    obtain t where t: "balloc ROOTDEV s = Ret (of_nat c) t" "allocated p {} c s t" using b Some by auto
    note m = allocatedD(3) [OF t(2)]
    note u = marked_used [OF m assms(3) c(1,2)] and k = marked_layout [OF m assms(3) c(1,2)]
    have "\<forall>n. n \<noteq> of_nat c \<and> n \<notin> bmap_blocks s \<longrightarrow> content t n = content s n"
      using m c(1) by (auto simp: marked_def bmap_blocks_def)
    moreover have "trans_open p {} t" "content t (of_nat c) = (\<lambda>_. 0)" using m allocatedD(1) [OF t(2)] by (simp_all add: marked_def)
    ultimately have "\<exists>b t. b < fs_size s \<and> \<not> used s b \<and> (\<forall>c<b. used s c) \<and> balloc ROOTDEV s = Ret (of_nat b) t \<and>
      trans_open p {} t \<and> layout_ok t \<and> (\<forall>c<fs_size s. used t c \<longleftrightarrow> c = b \<or> used s c) \<and> content t (of_nat b) = (\<lambda>_. 0) \<and>
      (\<forall>n. n \<noteq> of_nat b \<and> n \<notin> bmap_blocks s \<longrightarrow> content t n = content s n)"
      using t(1) c u k by (intro exI [of _ c] exI [of _ t]) simp
    then show ?thesis using c(1,2) by (simp only: if_False) auto
  qed
qed

text \<open>The bitmap of a new file system, whose first 47 blocks are metadata.\<close>

definition image_bitmap :: block where
  "image_bitmap i = (if i < 5 then 255 else if i = 5 then 127 else 0)"

definition new_disk :: "uint32 \<Rightarrow> block" where
  "new_disk = (\<lambda>_ _. 0)(46 := image_bitmap)"

lemma image_used:
  assumes "d 46 = image_bitmap" "b < 2000"
  shows "bmap_block (run_fs d ns) b = 46" "used (run_fs d ns) b \<longleftrightarrow> b < 47"
proof -
  have "b div BPB = 0" "b mod BPB = b" using assms(2) by (simp_all add: BPB_def BSIZE_def)
  then show bm: "bmap_block (run_fs d ns) b = 46"
    using assms(2) by (simp add: bmap_block_def BBLOCK_def unat32 run_fs_open(7))
  have "bit (255 :: uchar) j \<longleftrightarrow> j < 8" "bit (127 :: uchar) j \<longleftrightarrow> j < 7" for j
    using bit_mask_iff [where 'a = uchar, of 8 j] bit_mask_iff [where 'a = uchar, of 7 j]
    by (auto simp: mask_eq_exp_minus_1 possible_bit_def)
  from this [of "b mod 8"] have "bit (image_bitmap (b div 8)) (b mod 8) \<longleftrightarrow> b div 8 < 5 \<or> b div 8 = 5 \<and> b mod 8 < 7"
    by (simp add: image_bitmap_def)
  also have "\<dots> \<longleftrightarrow> b < 47" by presburger
  finally show "used (run_fs d ns) b \<longleftrightarrow> b < 47"
    using \<open>b mod BPB = b\<close> by (simp add: used_def bm run_fs_open(2) assms(1) bit_free_iff)
qed

lemma image_meta:
  assumes "d 46 = image_bitmap"
  shows "bmap_blocks (run_fs d ns) = {of_nat 46}" "inode_blocks (run_fs d ns) = of_nat ` {33..<46}"
    "log_area (run_fs d ns) = of_nat ` {2..<33}"
proof -
  let ?s = "run_fs d ns"
  show "bmap_blocks ?s = {of_nat 46}"
    using image_used(1) [where d = d, OF assms] by (simp add: bmap_blocks_def run_fs_open(7) image_constant_conv lessThan_empty_iff cong: image_cong_simp)
  have "(\<lambda>i. IBLOCK (of_nat i) (sb ?s)) ` {..<200} = (\<lambda>i. of_nat (i div 16 + 33)) ` {..<200}"
    by (rule image_cong) (simp_all add: IBLOCK_def IPB_def BSIZE_def run_fs_open(7) unat32)
  also have "\<dots> = of_nat ` ((\<lambda>i. i div 16 + 33) ` {..<200})" by (simp add: image_image)
  also have "(\<lambda>i. i div 16 + 33) ` {..<200} = {33..<46 :: nat}"
  proof (intro set_eqI iffI)
    fix x :: nat assume "x \<in> {33..<46}"
    then have "x = 16 * (x - 33) div 16 + 33" "16 * (x - 33) < 200" by auto
    then show "x \<in> (\<lambda>i. i div 16 + 33) ` {..<200}" by blast
  qed auto
  finally show "inode_blocks ?s = of_nat ` {33..<46}" by (simp add: inode_blocks_def run_fs_open(7))
  have "log_area ?s = insert (of_nat 2) ((\<lambda>i. of_nat (i + 3)) ` {..<30})" by (simp add: run_fs_open(6))
  also have "\<dots> = of_nat ` insert 2 ((\<lambda>i. i + 3) ` {..<30})" by (simp only: image_insert image_image)
  also have "insert 2 ((\<lambda>i. i + 3) ` {..<30}) = {2..<33 :: nat}"
  proof (intro set_eqI iffI)
    fix x :: nat assume "x \<in> {2..<33}"
    then have "x = 2 \<or> x = (x - 3) + 3 \<and> x - 3 < 30" by auto
    then show "x \<in> insert 2 ((\<lambda>i. i + 3) ` {..<30})" by blast
  qed auto
  finally show "log_area ?s = of_nat ` {2..<33}" .
qed

lemma of_nat32_image: "A \<subseteq> {..<2 ^ 32} \<Longrightarrow> b < 2 ^ 32 \<Longrightarrow> (of_nat b :: uint32) \<in> of_nat ` A \<longleftrightarrow> b \<in> A"
  using unat32 by (metis (no_types, lifting) image_iff lessThan_iff subsetD)

lemma of_nat32_disjoint: "A \<subseteq> {..<2 ^ 32} \<Longrightarrow> B \<subseteq> {..<2 ^ 32} \<Longrightarrow> A \<inter> B = {} \<Longrightarrow> (of_nat ` A :: uint32 set) \<inter> of_nat ` B = {}"
  using of_nat32_image by blast

lemma image_layout_ok:
  assumes "d 46 = image_bitmap"
  shows "layout_ok (run_fs d ns)"
proof -
  let ?s = "run_fs d ns"
  note m = image_meta [where d = d, OF assms] and u = image_used(2) [where d = d, OF assms]
  have b: "bmap_blocks ?s = of_nat ` {46}" using m(1) by simp
  have mt: "meta ?s = of_nat ` {2..<47}" unfolding meta_def b m(2,3) image_Un [symmetric] by (rule arg_cong [of _ _ "image of_nat"]) auto
  have "b < 47" if "b < 2000" "of_nat b \<in> meta ?s" for b
  proof -
    have "{2..<47} \<subseteq> {..<2 ^ 32 :: nat}" by auto
    from of_nat32_image [OF this, of b] show ?thesis using that mt by simp
  qed
  moreover have "bmap_blocks ?s \<inter> log_area ?s = {}" unfolding b m(3) by (rule of_nat32_disjoint) auto
  moreover have "inode_blocks ?s \<inter> (bmap_blocks ?s \<union> log_area ?s) = {}"
    unfolding b m(2,3) image_Un [symmetric] by (rule of_nat32_disjoint) auto
  ultimately show ?thesis unfolding layout_ok_def using u by (simp add: run_fs_open(7))
qed

text \<open>The first allocation on a new file system.\<close>

theorem balloc_lowest_free_witness:
  "\<exists>t. balloc ROOTDEV (run_fs new_disk (inodes run_file)) = Ret 47 t \<and> used t 47 \<and> \<not> used t 48 \<and> content t 47 = (\<lambda>_. 0)"
proof -
  have i: "new_disk 46 = image_bitmap" by (simp add: new_disk_def)
  let ?s = "run_fs new_disk (inodes run_file)"
  note u = image_used(2) [where d = new_disk, OF i]
  have sz: "fs_size ?s = 2000" by (simp add: run_fs_open(7))
  have n: "Suc (nlog ?s) < NBUF" "\<not> (\<forall>b<fs_size ?s. used ?s b)"
    using u [of 47] by (auto simp: run_fs_open(4) NBUF_def MAXOPBLOCKS_def sz intro!: exI [of _ 47])
  note balloc_lowest_free [OF run_fs_open(1,3) image_layout_ok [where d = new_disk, OF i] n(1), unfolded if_not_P [OF n(2)]]
  then obtain b t where t: "b < 2000" "\<not> used ?s b" "\<forall>c<b. used ?s c" "balloc ROOTDEV ?s = Ret (of_nat b) t"
    "\<forall>c<2000. used t c \<longleftrightarrow> c = b \<or> used ?s c" "content t (of_nat b) = (\<lambda>_. 0)"
    unfolding sz by blast
  have "b = 47"
  proof (rule antisym)
    show "47 \<le> b" using t(2) u [OF t(1)] by simp
    have "\<not> used ?s 47" using u [of 47] by simp
    then have "\<not> 47 < b" using t(3) by blast
    then show "b \<le> 47" by simp
  qed
  then show ?thesis using t u [of 48] by (intro exI [of _ t]) simp
qed

end
