(* ===== verification/FileData.thy ===== *)
theory FileData
  imports Blocks
begin

text \<open>
  Reading files (\<^verbatim>\<open>bmap\<close> and \<^verbatim>\<open>readi\<close> of \<^verbatim>\<open>kernel/fs.c\<close>).  An inode stands for a sequence of bytes, spread
  over the blocks its twelve direct entries and its indirect block name; \<^verbatim>\<open>readi\<close> returns a part of that
  sequence and changes nothing.
\<close>

section \<open>The blocks of a file\<close>

definition addr_of :: "(uint32 \<Rightarrow> block) \<Rightarrow> inode \<Rightarrow> nat \<Rightarrow> uint32" where
  "addr_of C n k =
     (if k < NDIRECT then i_addrs n k
      else if i_addrs n NDIRECT = 0 then 0
      else rd32 (C (i_addrs n NDIRECT)) (4 * (k - NDIRECT)))"

abbreviation file_addr :: "'a fs_state_scheme \<Rightarrow> inode \<Rightarrow> nat \<Rightarrow> uint32" where
  "file_addr s \<equiv> addr_of (content s)"

definition file_byte :: "'a fs_state_scheme \<Rightarrow> inode \<Rightarrow> nat \<Rightarrow> uchar" where
  "file_byte s n i = content s (file_addr s n (i div BSIZE)) (i mod BSIZE)"

definition file_bytes :: "'a fs_state_scheme \<Rightarrow> inode \<Rightarrow> uchar list" where
  "file_bytes s n = map (file_byte s n) [0..<unat (i_size n)]"

text \<open>A file all of whose bytes are in some block.\<close>

definition file_ok :: "'a fs_state_scheme \<Rightarrow> inode \<Rightarrow> bool" where
  "file_ok s n \<longleftrightarrow> i_dev n = ROOTDEV \<and> unat (i_size n) \<le> MAXFILE * BSIZE \<and>
     (\<forall>k. k * BSIZE < unat (i_size n) \<longrightarrow> file_addr s n k \<noteq> 0)"

lemma kept_file:
  assumes "kept p H s t"
  shows "file_addr t n = file_addr s n" "file_byte t n = file_byte s n" "file_ok t n = file_ok s n" "inodes t = inodes s"
proof -
  note c = keptD(2) [OF assms]
  show "file_addr t n = file_addr s n" by (simp add: c)
  show "file_byte t n = file_byte s n" by (intro ext) (simp add: file_byte_def c)
  show "file_ok t n = file_ok s n" by (simp add: file_ok_def c)
  show "inodes t = inodes s" by (rule lframe_fs(2) [OF keptD(3) [OF assms]])
qed

lemmas file_sizes = NDIRECT_def NINDIRECT_def MAXFILE_def BSIZE_def

lemma bmap_mapped:
  assumes "log_ok p H s" "\<forall>c\<in>H. \<not> cached s (i_addrs (inodes s ip) NDIRECT) c" "nlog s + card H < NBUF"
    "i_dev (inodes s ip) = ROOTDEV" "k < MAXFILE" "file_addr s (inodes s ip) k \<noteq> 0"
  shows "\<exists>t. bmap ip (of_nat k) s = Ret (file_addr s (inodes s ip) k) t \<and> kept p H s t"
proof -
  let ?n = "inodes s ip" let ?ind = "i_addrs ?n NDIRECT"
  have k: "unat (of_nat k :: uint32) = k" using assms(5) by (intro unat32) (simp add: file_sizes)
  show ?thesis
  proof (cases "k < NDIRECT")
    case True
    then have "bmap ip (of_nat k) s = Ret (file_addr s ?n k) s"
      using assms(6) by (simp add: bmap_def k addr_of_def)
    then show ?thesis using kept_refl [OF assms(1)] by blast
  next
    case False
    then have a: "?ind \<noteq> 0" "file_addr s ?n k = rd32 (content s ?ind) (4 * (k - NDIRECT))"
      using assms(6) by (auto simp: addr_of_def split: if_splits)
    obtain b c t where t: "bread ROOTDEV ?ind s = Ret b c" "b_data (bufs c b) = content s ?ind" "brelse b c = Ret () t" "kept p H s t"
      by (rule log_read [OF assms(1-3)]) (rule that, assumption+)
    have "k - NDIRECT < NINDIRECT" using False assms(5) by (simp add: file_sizes)
    then have "bmap ip (of_nat k) s = Ret (file_addr s ?n k) t"
      using False a t assms(4,6) by (simp add: bmap_def k Let_def)
    then show ?thesis using t(4) by blast
  qed
qed

section \<open>Reading\<close>

lemma copyout_local: "calm p s \<Longrightarrow> either_copyout (Local bs) src s = Ret 0 s"
  by (simp add: either_copyout_def myproc_eq)

lemma copyin_local: "calm p s \<Longrightarrow> either_copyin (Local bs) n s = Ret (0, take n bs) s"
  by (simp add: either_copyin_def myproc_eq)

lemma small_sint: "n \<le> MAXFILE * BSIZE \<Longrightarrow> sint (of_nat n :: uint32) = int n"
  by (simp add: file_sizes signed_of_nat signed_take_bit_int_eq_self)

lemma block_step:
  fixes off m :: nat
  assumes "m \<le> BSIZE - off mod BSIZE" "i < m"
  shows "(off + i) div BSIZE = off div BSIZE" "(off + i) mod BSIZE = off mod BSIZE + i"
proof -
  have "off + i = off div BSIZE * BSIZE + (off mod BSIZE + i)" by simp
  moreover have "off mod BSIZE + i < BSIZE" using assms by linarith
  ultimately show "(off + i) div BSIZE = off div BSIZE" "(off + i) mod BSIZE = off mod BSIZE + i"
    by (metis add.commute div_mult_self3 div_less add_cancel_right_right less_nat_zero_code, metis mod_less mod_mult_self3)
qed

lemma readi_loop_ok:
  assumes "log_ok p {} s" "nlog s < NBUF" "i_dev (inodes s ip) = ROOTDEV" "tot \<le> n" "unat off + (n - tot) \<le> MAXFILE * BSIZE"
    "\<forall>k. k * BSIZE < unat off + (n - tot) \<longrightarrow> file_addr s (inodes s ip) k \<noteq> 0" "n \<le> MAXFILE * BSIZE"
  shows "\<exists>t. readi_loop ip (Local xs) off n tot s =
      Ret (int n, map (file_byte s (inodes s ip)) [unat off..<unat off + (n - tot)]) t \<and> kept p {} s t"
  using assms
proof (induction "n - tot" arbitrary: off tot xs s rule: less_induct)
  case less
  show ?case
  proof (cases "tot < n")
    case False
    then show ?thesis
      using less.prems kept_refl [OF less.prems(1)] small_sint [OF less.prems(7)] by (simp add: readi_loop.simps)
  next
    case True
    let ?n = "inodes s ip" and ?o = "unat off" and ?k = "unat off div BSIZE"
    define m where "m = min (n - tot) (BSIZE - ?o mod BSIZE)"
    have m: "0 < m" "m \<le> n - tot" "m \<le> BSIZE - ?o mod BSIZE" using True by (auto simp: m_def BSIZE_def)
    have k: "?k < MAXFILE" "?k * BSIZE < ?o + (n - tot)"
      using less.prems(5) True div_times_less_eq_dividend [of ?o BSIZE] by (auto simp: div_less_iff_less_mult file_sizes)
    have a: "file_addr s ?n ?k \<noteq> 0" using less.prems(6) k(2) by blast
    obtain u where u: "bmap ip (of_nat ?k) s = Ret (file_addr s ?n ?k) u" "kept p {} s u"
      using bmap_mapped [OF less.prems(1) _ _ less.prems(3) k(1) a] less.prems(2) by auto
    have lu: "nlog u + card ({} :: nat set) < NBUF" using less.prems(2) keptD(4) [OF u(2)] by simp
    obtain b c t where t: "bread ROOTDEV (file_addr s ?n ?k) u = Ret b c" "log_ok p (insert b {}) c"
      "b_data (bufs c b) = content u (file_addr s ?n ?k)" "brelse b c = Ret () t" "kept p {} u t"
      by (rule log_read [OF keptD(1) [OF u(2)] _ lu, of "file_addr s ?n ?k"]) (simp, rule that, assumption+)
    note st = kept_trans [OF u(2) t(5)]
    define bs where "bs = map (b_data (bufs c b)) [?o mod BSIZE..<?o mod BSIZE + m]"
    have off: "unat (off + of_nat m) = ?o + m"
      using less.prems(5) m(2) True by (simp add: unat_word_ariths unat32 file_sizes)
    have bs: "bs = map (file_byte s ?n) [?o..<?o + m]"
    proof (rule nth_equalityI)
      fix i assume "i < length bs"
      then have i: "i < m" by (simp add: bs_def)
      then show "bs ! i = map (file_byte s ?n) [?o..<?o + m] ! i"
        using block_step [OF m(3) i] t(3) keptD(2) [OF u(2)] by (simp add: bs_def file_byte_def)
    qed (simp add: bs_def)
    have l: "n - (tot + m) < n - tot" "tot + m \<le> n" "?o + m + (n - (tot + m)) = ?o + (n - tot)" using m(1,2) True by simp_all
    have "\<exists>v. readi_loop ip (Local (drop m xs)) (off + of_nat m) n (tot + m) t =
      Ret (int n, map (file_byte t (inodes t ip)) [?o + m..<?o + m + (n - (tot + m))]) v \<and> kept p {} t v"
      using less.hyps [OF l(1) keptD(1) [OF st], of "off + of_nat m" "drop m xs"] less.prems l(2,3) keptD(4) [OF st]
      unfolding off kept_file [OF st] by simp
    then obtain v where v: "readi_loop ip (Local (drop m xs)) (off + of_nat m) n (tot + m) t =
      Ret (int n, map (file_byte s ?n) [?o + m..<?o + (n - tot)]) v" "kept p {} t v"
      unfolding kept_file [OF st] l(3) by blast
    have "readi_loop ip (Local xs) off n tot s = Ret (int n, bs @ map (file_byte s ?n) [?o + m..<?o + (n - tot)]) v"
      using True u(1) a t(1,4) v(1) less.prems(3) copyout_local [OF log_calm [OF t(2)]] kept_file(4) [OF u(2)]
      by (subst readi_loop.simps) (simp add: Let_def bs_def flip: m_def)
    moreover have "bs @ map (file_byte s ?n) [?o + m..<?o + (n - tot)] = map (file_byte s ?n) [?o..<?o + (n - tot)]"
      using upt_add_eq_append [of ?o "?o + m" "n - (tot + m)", unfolded l(3)] by (simp add: bs)
    ultimately show ?thesis using kept_trans [OF st v(2)] by auto
  qed
qed

lemma unat_lt32: "unat (w :: uint32) < 2 ^ 32"
  using unsigned_less [of w] by simp

lemma overflow32: "off + n < off \<longleftrightarrow> 2 ^ 32 \<le> unat off + unat (n :: uint32)"
  using unat_lt32 [of off] unat_lt32 [of n] by (simp add: word_less_nat_alt unat_plus_if') linarith

lemma no_overflow32: "unat off + unat n < 2 ^ 32 \<Longrightarrow> unat (off + n :: uint32) = unat off + unat n"
  by (simp add: unat_plus_if')

lemma readi_ok:
  assumes "log_ok p {} s" "nlog s < NBUF" "file_ok s (inodes s ip)" "unat off + unat n < 2 ^ 32"
    "bs = take (unat n) (drop (unat off) (file_bytes s (inodes s ip)))"
  shows "\<exists>t. readi ip (Local xs) off n s = Ret (int (length bs), bs) t \<and> kept p {} s t"
proof (cases "i_size (inodes s ip) < off")
  case True
  then have "bs = []" using assms(5) by (simp add: file_bytes_def word_less_nat_alt)
  then show ?thesis using True kept_refl [OF assms(1)] by (simp add: readi_def)
next
  case False
  let ?n = "inodes s ip" let ?sz = "unat (i_size ?n)" and ?o = "unat off"
  define m where "m = min (unat n) (?sz - ?o)"
  have o: "?o \<le> ?sz" using False by (simp add: word_less_nat_alt)
  have f: "i_dev ?n = ROOTDEV" "?sz \<le> MAXFILE * BSIZE" "\<forall>k. k * BSIZE < ?sz \<longrightarrow> file_addr s ?n k \<noteq> 0"
    using assms(3) by (simp_all add: file_ok_def)
  have b: "bs = map (file_byte s ?n) [?o..<?o + m]"
    using o assms(5) by (simp add: file_bytes_def m_def drop_map take_map min_def)
  have "unat (if off + n > i_size ?n then i_size ?n - off else n) = m"
    using o False no_overflow32 [OF assms(4)] by (auto simp: m_def word_less_nat_alt unat_sub word_le_nat_alt)
  then have "readi ip (Local xs) off n s = readi_loop ip (Local xs) off m 0 s"
    using False assms(4) by (simp add: readi_def overflow32 Let_def)
  moreover have "\<exists>t. readi_loop ip (Local xs) off m 0 s = Ret (int m, map (file_byte s ?n) [?o..<?o + (m - 0)]) t \<and> kept p {} s t"
    using o f by (intro readi_loop_ok assms(1,2)) (auto simp: m_def)
  ultimately show ?thesis using b by simp
qed


text \<open>A file of three bytes, in block 47.\<close>

definition small_inode :: inode where
  "small_inode = \<lparr>i_dev = ROOTDEV, i_inum = 1, i_ref = 1, i_valid = 1, i_type = T_FILE, i_major = 0, i_minor = 0, i_nlink = 1,
     i_size = 3, i_addrs = (\<lambda>_. 0)(0 := 47)\<rparr>"

definition small_fs :: file_state where
  "small_fs = run_fs (new_disk(47 := (\<lambda>_. 0)(0 := 97, 1 := 98, 2 := 99))) (\<lambda>_. small_inode)"


end
