(* ===== verification/FileGrow.thy ===== *)
theory FileGrow
  imports FileData
begin

text \<open>
  Allocation of the blocks of a file (\<^verbatim>\<open>bmap\<close> of \<^verbatim>\<open>kernel/fs.c\<close>).  The entries of an inode are distinct blocks
  that the bitmap marks as used; \<^verbatim>\<open>bmap\<close> fills an empty entry, and the entry of the indirect block if need
  be, with fresh zeroed blocks, and touches no block of another file.
\<close>

section \<open>Ownership of blocks\<close>

text \<open>The entries of an inode: the addresses of its blocks, and of the indirect block.\<close>

definition bslot :: "(uint32 \<Rightarrow> block) \<Rightarrow> inode \<Rightarrow> nat \<Rightarrow> uint32" where
  "bslot C n j = (if j < MAXFILE then addr_of C n j else i_addrs n NDIRECT)"

text \<open>The entries are distinct blocks of \<open>U\<close>.\<close>

definition owned :: "uint32 set \<Rightarrow> (uint32 \<Rightarrow> block) \<Rightarrow> inode \<Rightarrow> bool" where
  "owned U C n \<longleftrightarrow> (\<forall>j\<le>MAXFILE. bslot C n j \<noteq> 0 \<longrightarrow> bslot C n j \<in> U) \<and>
     (\<forall>i\<le>MAXFILE. \<forall>j\<le>MAXFILE. i \<noteq> j \<and> bslot C n i \<noteq> 0 \<longrightarrow> bslot C n i \<noteq> bslot C n j)"

lemma ownedD:
  assumes "owned U C n" "j \<le> MAXFILE" "bslot C n j \<noteq> 0"
  shows "bslot C n j \<in> U" "i \<le> MAXFILE \<Longrightarrow> bslot C n j = bslot C n i \<Longrightarrow> j = i"
  using assms unfolding owned_def by blast+

lemma addr_cong: "(i_addrs n NDIRECT \<noteq> 0 \<Longrightarrow> C' (i_addrs n NDIRECT) = C (i_addrs n NDIRECT)) \<Longrightarrow> addr_of C' n = addr_of C n"
  by (intro ext) (simp add: addr_of_def)

lemma slot_cong: "(i_addrs n NDIRECT \<noteq> 0 \<Longrightarrow> C' (i_addrs n NDIRECT) = C (i_addrs n NDIRECT)) \<Longrightarrow> bslot C' n = bslot C n"
  using addr_cong [of n C' C] by (intro ext) (simp add: bslot_def)

lemma owned_ind: "owned U C n \<Longrightarrow> i_addrs n NDIRECT \<noteq> 0 \<Longrightarrow> i_addrs n NDIRECT \<in> U"
  by (auto simp: owned_def bslot_def dest: spec [of _ MAXFILE])

lemma owned_mono:
  assumes "owned U C n" "U \<subseteq> V" "\<And>m. m \<in> U \<Longrightarrow> C' m = C m"
  shows "owned V C' n" "bslot C' n = bslot C n"
proof -
  show s: "bslot C' n = bslot C n" using owned_ind [OF assms(1)] assms(3) by (intro slot_cong) blast
  show "owned V C' n" using assms(1,2) unfolding owned_def s by blast
qed

lemma owned_new:
  assumes "owned U C n" "a \<notin> U" "a \<noteq> 0" "insert a U \<subseteq> V" "j0 \<le> MAXFILE"
    "\<And>j. j \<le> MAXFILE \<Longrightarrow> bslot C' n' j = (if j = j0 then a else bslot C n j)"
  shows "owned V C' n'"
proof -
  have u: "bslot C n j \<in> U" if "j \<le> MAXFILE" "bslot C n j \<noteq> 0" for j using assms(1) that by (simp add: owned_def)
  have d: "bslot C n i \<noteq> bslot C n j" if "i \<le> MAXFILE" "j \<le> MAXFILE" "i \<noteq> j" "bslot C n i \<noteq> 0" for i j
    using assms(1) that unfolding owned_def by blast
  have a: "bslot C n j \<noteq> a" if "j \<le> MAXFILE" for j using u [OF that] assms(2,3) by metis
  have "bslot C' n' j \<in> V" if "j \<le> MAXFILE" "bslot C' n' j \<noteq> 0" for j
    using assms(4,6) u that by (auto split: if_splits)
  moreover have "bslot C' n' i \<noteq> bslot C' n' j" if "i \<le> MAXFILE" "j \<le> MAXFILE" "i \<noteq> j" "bslot C' n' i \<noteq> 0" for i j
    using that a [OF that(1)] a [OF that(2)] d [OF that(1-3)] by (simp add: assms(6) split: if_splits)
  ultimately show ?thesis unfolding owned_def by blast
qed

lemma rd32_zero [simp]: "rd32 (\<lambda>_. 0) off = 0"
  by (simp add: rd_def numeral_eq_Suc)

lemma slot_direct:
  assumes "k < NDIRECT" "i_addrs n NDIRECT \<noteq> 0 \<Longrightarrow> C' (i_addrs n NDIRECT) = C (i_addrs n NDIRECT)"
  shows "bslot C' (n\<lparr>i_addrs := (i_addrs n)(k := a)\<rparr>) j = (if j = k then a else bslot C n j)"
  using assms by (auto simp: bslot_def addr_of_def file_sizes)

lemma slot_indirect:
  assumes "i_addrs n NDIRECT = 0" "C' a = (\<lambda>_. 0)" "j \<le> MAXFILE"
  shows "bslot C' (n\<lparr>i_addrs := (i_addrs n)(NDIRECT := a)\<rparr>) j = (if j = MAXFILE then a else bslot C n j)"
  using assms by (auto simp: bslot_def addr_of_def)

lemma slot_entry:
  assumes "i_addrs n NDIRECT \<noteq> 0" "C' (i_addrs n NDIRECT) = wr32 (4 * e) a (C (i_addrs n NDIRECT))" "e < NINDIRECT" "j \<le> MAXFILE"
  shows "bslot C' n j = (if j = NDIRECT + e then a else bslot C n j)"
proof -
  have "rd32 (wr32 (4 * e) a d) (4 * i) = (if i = e then a else rd32 d (4 * i))" for i d
    by (cases i e rule: linorder_cases) simp_all
  then show ?thesis using assms by (auto simp: bslot_def addr_of_def file_sizes)
qed

section \<open>Blocks in use by files\<close>

definition data_block :: "'a fs_state_scheme \<Rightarrow> uint32 \<Rightarrow> bool" where
  "data_block s m \<longleftrightarrow> m \<notin> meta s \<and> (\<exists>b<fs_size s. m = of_nat b \<and> used s b)"

lemma data_used:
  assumes "data_block s (of_nat b)" "b < fs_size s"
  shows "used s b"
proof -
  obtain c where c: "c < fs_size s" "(of_nat b :: uint32) = of_nat c" "used s c" using assms(1) by (auto simp: data_block_def)
  have "b < 2 ^ 32" "c < 2 ^ 32" using assms(2) c(1) fs_size_less [of s] by simp_all
  then have "b = c" using arg_cong [OF c(2), of unat] by (simp only: unat32)
  then show ?thesis using c(3) by simp
qed

lemma marked_data:
  fixes s :: "'a fs_state_scheme"
  assumes "marked b s t" "layout_ok s" "b < fs_size s" "\<not> used s b"
  shows "(of_nat b :: uint32) \<noteq> 0" "\<not> data_block s (of_nat b)" "data_block t (of_nat b)" "content t (of_nat b) = (\<lambda>_. 0)"
    "data_block s m \<Longrightarrow> data_block t m \<and> content t m = content s m"
proof -
  have f: "lframe s t" using assms(1) by (simp add: marked_def)
  note u = marked_used [OF assms] and l = lframe_layout [OF f]
  have b: "unat (of_nat b :: uint32) = b" using assms(3) fs_size_less [of s] by (intro unat32) simp
  have "b \<noteq> 0" using assms(2,4) by (auto simp: layout_ok_def)
  then show "(of_nat b :: uint32) \<noteq> 0" using b by auto
  show nd: "\<not> data_block s (of_nat b)" using data_used assms(3,4) by blast
  show "data_block t (of_nat b)"
    using layout_okD(2) [OF assms(2-4)] u [OF assms(3)] assms(3) by (auto simp: data_block_def l)
  show "content t (of_nat b) = (\<lambda>_. 0)" using assms(1) by (simp add: marked_def)
  assume m: "data_block s m"
  then have "m \<noteq> of_nat b" "m \<noteq> bmap_block s b" using nd assms(3) by (auto simp: data_block_def meta_def bmap_blocks_def)
  then have "content t m = content s m" using assms(1) by (simp add: marked_def)
  then show "data_block t m \<and> content t m = content s m" using m u by (auto simp: data_block_def l)
qed

section \<open>Updates of the inode table\<close>

lemma upd_inode_fs [simp]:
  "cached (upd_inode ip f s) m c = cached s m c" "content (upd_inode ip f s) = content s" "log_ok p H (upd_inode ip f s) = log_ok p H s"
  "trans_open p H (upd_inode ip f s) = trans_open p H s" "log_area (upd_inode ip f s) = log_area s"
  "nlog (upd_inode ip f s) = nlog s" "home (upd_inode ip f s) = home s" "sb (upd_inode ip f s) = sb s"
  "bmap_block (upd_inode ip f s) = bmap_block s" "used (upd_inode ip f s) = used s" "layout_ok (upd_inode ip f s) = layout_ok s"
  "data_block (upd_inode ip f s) = data_block s" "uart_ready (upd_inode ip f s) = uart_ready s" "meta (upd_inode ip f s) = meta s"
  "inodes (upd_inode ip f s) = (inodes s)(ip := f (inodes s ip))" "bufs (upd_inode ip f s) = bufs s"
proof -
  let ?t = "upd_inode ip f s"
  show c: "cached ?t m c = cached s m c" for m c by (simp add: cached_def upd_inode_def)
  show cc: "content ?t = content s" by (rule ext, rule content_cong) (simp_all add: c, simp_all add: upd_inode_def)
  show a: "log_area ?t = log_area s" and h: "home ?t = home s" and n: "nlog ?t = nlog s" and b: "sb ?t = sb s"
    by (simp_all add: upd_inode_def log_area_def hdr_def logno_def [abs_def] home_def [abs_def])
  have "calm p ?t = calm p s" by (rule calm_cong) (simp_all add: upd_inode_def)
  then have "busy p N H ?t = busy p N H s" for N
    unfolding busy_def cache_def c by (simp add: upd_inode_def)
  then show l: "log_ok p H ?t = log_ok p H s" unfolding log_ok_def a h n by (simp add: upd_inode_def)
  then show "trans_open p H ?t = trans_open p H s" by (simp add: trans_open_def upd_inode_def)
  show bb: "bmap_block ?t = bmap_block s" by (simp add: bmap_block_def [abs_def] b)
  then show u: "used ?t = used s" by (simp add: used_def [abs_def] cc)
  show m: "meta ?t = meta s" by (simp add: meta_def a bb bmap_blocks_def inode_blocks_def b)
  show "layout_ok ?t = layout_ok s" unfolding layout_ok_def m u by (simp add: a bb bmap_blocks_def inode_blocks_def b)
  show "data_block ?t = data_block s" by (simp add: data_block_def [abs_def] m b u)
qed (simp_all add: upd_inode_def uart_ready_def)

lemma lframe_upd_inode:
  assumes "lframe s t"
  shows "lframe (upd_inode ip f s) (upd_inode ip f t)"
proof -
  have b: "bframe (s\<lparr>log_lh := log_lh t\<rparr>) t" "disk t = disk s" "disk_trace t = disk_trace s" using assms by (simp_all add: lframe_def)
  have e: "t = s\<lparr>log_lh := log_lh t, uart_out := uart_out t, procs := procs t, sleeplocks := sleeplocks t, bufs := bufs t,
     disk := disk t, disk_trace := disk_trace t\<rparr>" using b(1) by (simp add: bframe_def)
  have i: "inodes t = inodes s" by (rule lframe_fs(2) [OF assms])
  have "t\<lparr>inodes := g\<rparr> = s\<lparr>inodes := g, log_lh := log_lh t, uart_out := uart_out t, procs := procs t, sleeplocks := sleeplocks t,
     bufs := bufs t, disk := disk t, disk_trace := disk_trace t\<rparr>" for g by (subst e) simp
  then show ?thesis using b(2,3) by (simp add: lframe_def bframe_def upd_inode_def i)
qed

lemma layout_cong:
  assumes "sb t = sb s" "log_area t = log_area s" "\<And>m. m \<in> bmap_blocks s \<Longrightarrow> content t m = content s m" "0 < fs_size s"
  shows "b < fs_size s \<Longrightarrow> used t b = used s b" "layout_ok t = layout_ok s" "data_block t = data_block s"
proof -
  have b: "bmap_block t = bmap_block s" "bmap_blocks t = bmap_blocks s" "inode_blocks t = inode_blocks s"
    using assms(1) by (simp_all add: bmap_block_def [abs_def] bmap_blocks_def inode_blocks_def)
  then have m: "meta t = meta s" using assms(2) by (simp add: meta_def)
  show u: "used t b = used s b" if "b < fs_size s" for b using that assms(3) by (simp add: used_def b bmap_blocks_def)
  show "layout_ok t = layout_ok s" unfolding layout_ok_def b m using assms(1,2,4) u by auto
  show "data_block t = data_block s" by (rule ext) (auto simp: data_block_def m assms(1) u)
qed

section \<open>Growing a file\<close>

abbreviation data :: "'a fs_state_scheme \<Rightarrow> uint32 set" where
  "data s \<equiv> Collect (data_block s)"

abbreviation islot :: "'a fs_state_scheme \<Rightarrow> nat \<Rightarrow> nat \<Rightarrow> uint32" where
  "islot s ip \<equiv> bslot (content s) (inodes s ip)"

text \<open>Inside a transaction the inode owns its blocks, on a disk whose layout is sound.\<close>

definition file_inv :: "nat \<Rightarrow> nat \<Rightarrow> 'a fs_state_scheme \<Rightarrow> bool" where
  "file_inv p ip s \<longleftrightarrow> trans_open p {} s \<and> uart_ready s \<and> layout_ok s \<and> i_dev (inodes s ip) = ROOTDEV \<and>
     owned (data s) (content s) (inodes s ip)"

lemma file_invD:
  assumes "file_inv p ip s"
  shows "trans_open p {} s" "uart_ready s" "layout_ok s" "i_dev (inodes s ip) = ROOTDEV" "owned (data s) (content s) (inodes s ip)"
  using assms by (simp_all add: file_inv_def)

text \<open>
  Entries of the inode among \<open>J\<close> that were empty may have been given fresh blocks; the other entries
  and the contents of all blocks but the indirect block stay.
\<close>

definition grows :: "nat \<Rightarrow> nat \<Rightarrow> nat set \<Rightarrow> 'a fs_state_scheme \<Rightarrow> 'a fs_state_scheme \<Rightarrow> bool" where
  "grows p ip J s t \<longleftrightarrow> file_inv p ip t \<and> (\<exists>g. lframe (upd_inode ip (i_addrs_update g) s) t) \<and>
     (\<forall>j\<le>MAXFILE. j \<notin> J \<or> islot s ip j \<noteq> 0 \<longrightarrow> islot t ip j = islot s ip j) \<and>
     (\<forall>j\<le>MAXFILE. islot s ip j = 0 \<and> islot t ip j \<noteq> 0 \<longrightarrow>
        \<not> data_block s (islot t ip j) \<and> (j < MAXFILE \<longrightarrow> content t (islot t ip j) = (\<lambda>_. 0))) \<and>
     (\<forall>m. data_block s m \<longrightarrow> data_block t m \<and> (m = islot s ip MAXFILE \<or> content t m = content s m))"

lemma growsD:
  assumes "grows p ip J s t"
  shows "file_inv p ip t" "\<exists>g. lframe (upd_inode ip (i_addrs_update g) s) t"
    "j \<le> MAXFILE \<Longrightarrow> j \<notin> J \<or> islot s ip j \<noteq> 0 \<Longrightarrow> islot t ip j = islot s ip j"
    "j \<le> MAXFILE \<Longrightarrow> islot s ip j = 0 \<Longrightarrow> islot t ip j \<noteq> 0 \<Longrightarrow> \<not> data_block s (islot t ip j)"
    "j < MAXFILE \<Longrightarrow> islot s ip j = 0 \<Longrightarrow> islot t ip j \<noteq> 0 \<Longrightarrow> content t (islot t ip j) = (\<lambda>_. 0)"
    "data_block s m \<Longrightarrow> data_block t m" "data_block s m \<Longrightarrow> m \<noteq> islot s ip MAXFILE \<Longrightarrow> content t m = content s m"
  using assms unfolding grows_def by (blast, blast, blast, blast, simp, blast, blast)

lemma upd_inode_id: "upd_inode ip (i_addrs_update (\<lambda>a. a)) s = s"
proof -
  have e: "i_addrs_update (\<lambda>a. a) (inodes s ip) = inodes s ip" by (cases "inodes s ip") simp
  show ?thesis unfolding upd_inode_def e fun_upd_triv by simp
qed

lemma grows_kept:
  assumes "file_inv p ip s" "kept p {} s t"
  shows "grows p ip {} s t"
proof -
  note i = file_invD [OF assms(1)] and k = keptD [OF assms(2)]
  have f: "inodes t = inodes s" "uart_ready t = uart_ready s" using lframe_fs [OF k(3)] by simp_all
  have d: "data_block t = data_block s" using content_same [OF assms(2)] lframe_layout(5) [OF k(3)] by (simp add: data_block_def [abs_def])
  have "file_inv p ip t"
    using i kept_open [OF assms(2) i(1)] kept_layout [OF assms(2) i(3)] by (simp add: file_inv_def f d k(2))
  moreover have "lframe (upd_inode ip (i_addrs_update (\<lambda>a. a)) s) t" unfolding upd_inode_id by (rule k(3))
  ultimately show ?thesis unfolding grows_def f d k(2) by (intro conjI exI [of _ "\<lambda>a. a"]) simp_all
qed

lemma upd_inode_twice: "upd_inode ip (i_addrs_update g) (upd_inode ip (i_addrs_update f) s) = upd_inode ip (i_addrs_update (g \<circ> f)) s"
  by (simp add: upd_inode_def)

lemma grows_trans:
  assumes "grows p ip J s t" "grows p ip K t u" "J \<union> K \<subseteq> L"
  shows "grows p ip L s u"
proof -
  note a = growsD [OF assms(1)] and b = growsD [OF assms(2)]
  obtain f g where fg: "lframe (upd_inode ip (i_addrs_update f) s) t" "lframe (upd_inode ip (i_addrs_update g) t) u" using a(2) b(2) by blast
  have "lframe (upd_inode ip (i_addrs_update (g \<circ> f)) s) u"
    using lframe_trans [OF lframe_upd_inode [OF fg(1)] fg(2)] by (simp only: upd_inode_twice)
  moreover have "islot u ip j = islot s ip j" if "j \<le> MAXFILE" "j \<notin> L \<or> islot s ip j \<noteq> 0" for j
  proof -
    have "islot t ip j = islot s ip j" using a(3) [OF that(1)] that(2) assms(3) by blast
    then show ?thesis using b(3) [OF that(1)] that(2) assms(3) by auto
  qed
  moreover have "\<not> data_block s (islot u ip j) \<and> (j < MAXFILE \<longrightarrow> content u (islot u ip j) = (\<lambda>_. 0))"
    if j: "j \<le> MAXFILE" "islot s ip j = 0" "islot u ip j \<noteq> 0" for j
  proof (cases "islot t ip j = 0")
    case True
    then have "\<not> data_block t (islot u ip j)" "j < MAXFILE \<Longrightarrow> content u (islot u ip j) = (\<lambda>_. 0)" using b(4,5) j by simp_all
    then show ?thesis using a(6) [of "islot u ip j"] by metis
  next
    case False
    then have e: "islot u ip j = islot t ip j" using b(3) j(1) by blast
    have "data_block t (islot t ip j)" "islot t ip MAXFILE \<noteq> islot t ip j \<or> j = MAXFILE"
      using ownedD [OF file_invD(5) [OF a(1)] j(1) False] by auto
    then have "content u (islot t ip j) = (\<lambda>_. 0)" if "j < MAXFILE" using b(7) a(5) [OF that j(2) False] that by auto
    then show ?thesis using a(4) [OF j(1,2) False] e by simp
  qed
  moreover have "data_block u m \<and> (m = islot s ip MAXFILE \<or> content u m = content s m)" if m: "data_block s m" for m
  proof -
    have "m \<noteq> islot t ip MAXFILE \<or> m = islot s ip MAXFILE"
    proof (cases "islot t ip MAXFILE = islot s ip MAXFILE")
      case False
      then have "islot s ip MAXFILE = 0" using a(3) [of MAXFILE] by auto
      then show ?thesis using a(4) [of MAXFILE] False m by auto
    qed auto
    then show ?thesis using a(6,7) [OF m] b(6,7) [of m] by auto
  qed
  ultimately show ?thesis unfolding grows_def using b(1) by blast
qed

lemma grows_new:
  fixes s :: "'a fs_state_scheme"
  assumes "file_inv p ip s" "marked b s v" "b < fs_size s" "\<not> used s b" "trans_open p {} t"
    "lframe (upd_inode ip (i_addrs_update g) s) t"
    "\<And>m. m \<noteq> islot s ip MAXFILE \<or> islot s ip MAXFILE = 0 \<Longrightarrow> content t m = content v m"
    "j0 \<le> MAXFILE" "islot s ip j0 = 0" "\<And>j. j \<le> MAXFILE \<Longrightarrow> islot t ip j = (if j = j0 then of_nat b else islot s ip j)"
  shows "grows p ip {j0} s t"
proof -
  note i = file_invD [OF assms(1)] and d = marked_data [OF assms(2) i(3) assms(3,4)]
  have fv: "lframe s v" using assms(2) by (simp add: marked_def)
  have ft: "sb t = sb s" "inodes t = (inodes s)(ip := i_addrs_update g (inodes s ip))" "uart_ready t = uart_ready s" "log_area t = log_area s"
    using lframe_fs [OF assms(6)] lframeD(6) [OF assms(6)] by simp_all
  have ind: "data_block s (islot s ip MAXFILE)" if "islot s ip MAXFILE \<noteq> 0" using ownedD(1) [OF i(5) _ that] by simp
  have "content t m = content v m" if "m \<in> bmap_blocks v" for m
    using that ind lframe_layout(3) [OF fv] by (intro assms(7)) (auto simp: data_block_def meta_def)
  then have c: "layout_ok t = layout_ok v" "data_block t = data_block v"
    using ft lframe_fs(1) [OF fv] lframeD(6) [OF fv] assms(3) by (intro layout_cong; simp)+
  have "content t (of_nat b) = content v (of_nat b)" using ind d(2) by (intro assms(7)) metis
  then have a: "content t (of_nat b) = (\<lambda>_. 0)" using d(4) by simp
  have "owned (data t) (content t) (inodes t ip)"
  proof (rule owned_new [OF i(5) _ d(1) _ assms(8)])
    show "insert (of_nat b) (data s) \<subseteq> data t" using d(3,5) by (auto simp: c)
  qed (use d(2) assms(10) in auto)
  then have "file_inv p ip t"
    using assms(5) i marked_layout [OF assms(2) i(3) assms(3,4)] by (simp add: file_inv_def ft c)
  moreover have "data_block t m \<and> (m = islot s ip MAXFILE \<or> content t m = content s m)" if "data_block s m" for m
    using d(5) [OF that] assms(7) [of m] by (auto simp: c)
  ultimately show ?thesis unfolding grows_def using assms(6,9,10) d(2) a by auto
qed

text \<open>An attempt to fill entry \<open>j0\<close>: it succeeds, or no block is free.\<close>

definition filled_or_full :: "nat \<Rightarrow> nat \<Rightarrow> nat \<Rightarrow> uint32 \<Rightarrow> 'a fs_state_scheme \<Rightarrow> 'a fs_state_scheme \<Rightarrow> bool" where
  "filled_or_full p ip j0 a s t \<longleftrightarrow> grows p ip {j0} s t \<and> a = islot t ip j0 \<and> (a = 0 \<longrightarrow> (\<forall>b<fs_size s. used t b))"

lemma grows_mono: "grows p ip J s t \<Longrightarrow> J \<subseteq> K \<Longrightarrow> grows p ip K s t"
  unfolding grows_def by blast

lemma full_kept:
  assumes "file_inv p ip s" "kept p {} s t" "lowest_free s = None" "islot s ip j0 = 0" "j0 \<le> MAXFILE"
  shows "filled_or_full p ip j0 0 s t"
proof -
  note g = grows_kept [OF assms(1,2)]
  have "\<forall>b<fs_size s. used t b" using assms(3) content_same(2) [OF assms(2)] by (simp add: lowest_free_def find_lowest)
  then show ?thesis using growsD(3) [OF g assms(5)] grows_mono [OF g] assms(4) by (simp add: filled_or_full_def)
qed

lemma entry_alloc:
  fixes s :: "'a fs_state_scheme"
  assumes "file_inv p ip s" "Suc (nlog s) < NBUF" "k \<le> NDIRECT" "i_addrs (inodes s ip) k = 0"
  shows "\<exists>a t. kbind (balloc ROOTDEV s) (\<lambda>addr s. if addr = 0 then Ret 0 s
      else Ret addr (upd_inode ip (i_addrs_update (\<lambda>a. a(k := addr))) s)) = Ret a t \<and>
    filled_or_full p ip (if k < NDIRECT then k else MAXFILE) a s t \<and> nlog t \<le> nlog s + 2"
proof -
  let ?j = "if k < NDIRECT then k else MAXFILE" and ?n = "inodes s ip"
  note i = file_invD [OF assms(1)]
  have j: "?j \<le> MAXFILE" "islot s ip ?j = 0" using assms(3,4) by (auto simp: bslot_def addr_of_def file_sizes)
  have "apart {} s" "Suc (nlog s + card ({} :: nat set)) < NBUF" using assms(2) by (simp_all add: apart_def)
  note al = balloc_ok [OF i(1-3) this]
  show ?thesis
  proof (cases "lowest_free s")
    case None
    then obtain t where t: "balloc ROOTDEV s = Ret 0 t" "kept p {} s t" using al by auto
    then show ?thesis using full_kept [OF assms(1) t(2) None j(2,1)] keptD(4) [OF t(2)] by simp
  next
    case (Some b)
    then have b: "b < fs_size s" "\<not> used s b" by (simp_all add: lowest_free_def find_lowest)
    obtain v where v: "balloc ROOTDEV s = Ret (of_nat b) v" "allocated p {} b s v" using al Some by auto
    note av = allocatedD(1,2,5,3) [OF v(2)]
    note d = marked_data [OF av(4) i(3) b]
    define t where "t = upd_inode ip (i_addrs_update (\<lambda>a. a(k := of_nat b))) v"
    have e: "inodes t ip = ?n\<lparr>i_addrs := (i_addrs ?n)(k := of_nat b)\<rparr>" using lframe_fs(2) [OF av(3)] by (simp add: t_def)
    have s: "islot t ip j = (if j = ?j then of_nat b else islot s ip j)" if "j \<le> MAXFILE" for j
    proof (cases "k < NDIRECT")
      case True
      have "content t (i_addrs ?n NDIRECT) = content s (i_addrs ?n NDIRECT)" if "i_addrs ?n NDIRECT \<noteq> 0"
        using d(5) owned_ind [OF i(5) that] by (simp add: t_def)
      then show ?thesis unfolding e using slot_direct [OF True] True by simp
    next
      case False
      then have "k = NDIRECT" using assms(3) by simp
      then show ?thesis unfolding e using slot_indirect [OF _ _ that, of ?n "content t" "of_nat b" "content s"] assms(4) d(4)
        by (simp add: t_def)
    qed
    have "grows p ip {?j} s t"
      by (rule grows_new [OF assms(1) av(4) b _ _ _ j s]) (use av lframe_upd_inode [OF av(3)] in \<open>simp_all add: t_def\<close>)
    then have "filled_or_full p ip ?j (of_nat b) s t" using s [OF j(1)] d(1) by (simp add: filled_or_full_def)
    then show ?thesis using v(1) d(1) av(2) by (simp add: t_def)
  qed
qed

text \<open>The second half of \<^verbatim>\<open>bmap\<close>: the entry \<open>e\<close> of the indirect block.\<close>

definition bmap_indirect :: "nat \<Rightarrow> uint32 \<Rightarrow> nat \<Rightarrow> 'a fs_state_scheme \<Rightarrow> (uint32, 'a fs_state_scheme) kres" where
  "bmap_indirect ip ind e s =
     kbind (bread (i_dev (inodes s ip)) ind s) (\<lambda>bp s.
     let addr = rd32 (b_data (bufs s bp)) (4 * e) in
     kbind (if addr = 0 then
              kbind (balloc (i_dev (inodes s ip)) s) (\<lambda>addr s.
              if addr \<noteq> 0 then
                let s = upd_buf bp (b_data_update (wr32 (4 * e) addr)) s in
                kbind (log_write bp s) (\<lambda>_ s. Ret addr s)
              else Ret addr s)
            else Ret addr s) (\<lambda>addr s.
     kbind (brelse bp s) (\<lambda>_ s.
     Ret addr s)))"

lemma bmap_split:
  assumes "k < MAXFILE"
  shows "bmap ip (of_nat k) s =
     (if k < NDIRECT then
        if i_addrs (inodes s ip) k = 0 then
          kbind (balloc (i_dev (inodes s ip)) s) (\<lambda>addr s. if addr = 0 then Ret 0 s
            else Ret addr (upd_inode ip (i_addrs_update (\<lambda>a. a(k := addr))) s))
        else Ret (i_addrs (inodes s ip) k) s
      else kbind (if i_addrs (inodes s ip) NDIRECT = 0 then
                    kbind (balloc (i_dev (inodes s ip)) s) (\<lambda>addr s. if addr = 0 then Ret 0 s
                      else Ret addr (upd_inode ip (i_addrs_update (\<lambda>a. a(NDIRECT := addr))) s))
                  else Ret (i_addrs (inodes s ip) NDIRECT) s) (\<lambda>addr s.
        if addr = 0 then Ret 0 s else bmap_indirect ip addr (k - NDIRECT) s))"
proof -
  have k: "unat (of_nat k :: uint32) = k" using assms by (intro unat32) (simp add: file_sizes)
  have "k - NDIRECT < NINDIRECT" if "\<not> k < NDIRECT" using assms that by (simp add: file_sizes)
  then show ?thesis unfolding bmap_def k Let_def bmap_indirect_def [abs_def] by simp
qed

lemma release_kept:
  assumes "content a = content s" "lframe s a" "nlog a = nlog s" "home a = home s"
    "n \<in> home a ` {..<nlog a} \<or> b_data (bufs a c) = disk a n" "cached a n c" "kept p {c} a t"
  obtains u where "brelse c t = Ret () u" "kept p {} s u"
proof -
  note k = keptD [OF assms(7)]
  note ct = coreD [OF k(6) [OF singletonI]]
  have r: "cached t n c" "n \<in> home t ` {..<nlog t} \<or> b_data (bufs t c) = disk t n"
    using assms(5,6) ct k(4,5) lframeD(2) [OF k(3)] by (simp_all add: cached_def)
  obtain u where u: "brelse c t = Ret () u" "log_ok p ({c} - {c}) u" "content u = content t" "lframe t u" "nlog u = nlog t" "home u = home t"
    by (rule log_brelse [OF k(1) singletonI r]) (rule that, assumption+)
  have "kept p {} s u"
    using u(2,3,5,6) k(2,4,5) assms(1,3,4) lframe_trans [OF lframe_trans [OF assms(2) k(3)] u(4)] by (simp add: kept_def)
  then show thesis using that u(1) by blast
qed

lemma indirect_apart:
  fixes s :: "'a fs_state_scheme"
  assumes "data_block s n" "lframe s a" "content a = content s" "cached a n c"
  shows "apart {c} a"
proof -
  have c: "m = n" if "cached a m c" for m using that assms(4) by (simp add: cached_def)
  have ra: "used a b = used s b" for b using assms(3) lframe_layout(1) [OF assms(2)] by (simp add: used_def)
  have "n \<notin> bmap_blocks s" using assms(1) by (simp add: data_block_def meta_def)
  then have "\<not> cached a (bmap_block s b) c" if "b < fs_size s" for b using c that by (auto simp: bmap_blocks_def)
  moreover have "used s b" if "b < fs_size s" "cached a (of_nat b) c" for b
    using data_used [OF _ that(1)] assms(1) c [OF that(2)] by simp
  ultimately show ?thesis unfolding apart_def ra lframe_layout(1,2) [OF assms(2)] by blast
qed

lemma indirect_fill:
  fixes s :: "'a fs_state_scheme"
  assumes "file_inv p ip s" "i_addrs (inodes s ip) NDIRECT = ind" "ind \<noteq> 0" "e < NINDIRECT" "islot s ip (NDIRECT + e) = 0"
    "lframe s a" "content a = content s" "cached a ind c" "b_valid (bufs a c) \<noteq> 0" "nlog a + 3 < NBUF"
    "allocated p {c} b a v" "b < fs_size s" "\<not> used s b"
  obtains x t where "log_write c (upd_buf c (b_data_update (wr32 (4 * e) (of_nat b))) v) = Ret () x" "brelse c x = Ret () t"
    "filled_or_full p ip (NDIRECT + e) (of_nat b) s t" "nlog t \<le> nlog a + 3" "(of_nat b :: uint32) \<noteq> 0"
proof -
  note i = file_invD [OF assms(1)] and av = allocatedD [OF assms(11)]
  note m = marked_after [OF assms(6,7) av(3)]
  note d = marked_data [OF m i(3) assms(12,13)] and cv = coreD [OF av(4) [OF singletonI]]
  have di: "data_block s ind" using owned_ind [OF i(5)] assms(2,3) by simp
  have j: "NDIRECT + e \<le> MAXFILE" "islot s ip MAXFILE = ind" using assms(2,4) by (simp_all add: bslot_def file_sizes)
  have fv: "lframe s v" by (rule lframe_trans [OF assms(6) av(5)])
  have h: "c \<notin> {}" "cached v ind c" "b_valid (bufs v c) \<noteq> 0" "ind \<notin> log_area v" "nlog v < NBUF"
    using assms(8-10) cv av(2) di lframeD(6) [OF fv] by (simp_all add: cached_def data_block_def meta_def)
  obtain x t where t: "log_write c (upd_buf c (b_data_update (wr32 (4 * e) (of_nat b))) v) = Ret () x" "brelse c x = Ret () t"
    "trans_open p {} t" "nlog t \<le> Suc (nlog v)" "content t = (content v)(ind := wr32 (4 * e) (of_nat b) (content v ind))" "lframe v t"
    by (rule open_update [OF av(1) h]) (rule that, assumption+)
  have ft: "lframe s t" by (rule lframe_trans [OF fv t(6)])
  have s: "islot t ip j' = (if j' = NDIRECT + e then of_nat b else islot s ip j')" if "j' \<le> MAXFILE" for j'
    unfolding lframe_fs(2) [OF ft] using d(5) [OF di] t(5) assms(2,3) by (intro slot_entry [OF _ _ assms(4) that]) simp_all
  have "grows p ip {NDIRECT + e} s t"
    by (rule grows_new [OF assms(1) m assms(12,13) t(3) _ _ j(1) assms(5) s, where g = "\<lambda>a. a"])
      (use ft t(5) j(2) assms(3) in \<open>simp_all add: upd_inode_id\<close>)
  then have "filled_or_full p ip (NDIRECT + e) (of_nat b) s t" using s [OF j(1)] d(1) by (simp add: filled_or_full_def)
  then show thesis using that [OF t(1,2)] t(4) av(2) d(1) by simp
qed

lemma indirect_alloc:
  fixes s :: "'a fs_state_scheme"
  assumes "file_inv p ip s" "nlog s + 3 < NBUF" "i_addrs (inodes s ip) NDIRECT \<noteq> 0" "e < NINDIRECT"
  shows "\<exists>a t. bmap_indirect ip (i_addrs (inodes s ip) NDIRECT) e s = Ret a t \<and>
    filled_or_full p ip (NDIRECT + e) a s t \<and> nlog t \<le> nlog s + 3"
proof -
  let ?ind = "i_addrs (inodes s ip) NDIRECT" and ?j = "NDIRECT + e"
  note i = file_invD [OF assms(1)]
  have j: "?j \<le> MAXFILE" "islot s ip ?j = rd32 (content s ?ind) (4 * e)"
    using assms(3,4) by (simp_all add: bslot_def addr_of_def file_sizes)
  have di: "data_block s ?ind" using owned_ind [OF i(5) assms(3)] by simp
  have l: "nlog s + card ({} :: nat set) < NBUF" using assms(2) by simp
  obtain c a w where a: "bread ROOTDEV ?ind s = Ret c a" "log_ok p {c} a" "cached a ?ind c" "b_valid (bufs a c) \<noteq> 0"
    "b_data (bufs a c) = content s ?ind" "content a = content s" "lframe s a" "nlog a = nlog s" "home a = home s"
    "?ind \<in> home a ` {..<nlog a} \<or> b_data (bufs a c) = disk a ?ind" "brelse c a = Ret () w" "kept p {} s w"
    by (rule log_read [OF open_log_ok [OF i(1)] _ l, of ?ind]) (simp, rule that, assumption+)
  have dev: "i_dev (inodes a ip) = ROOTDEV" "i_dev (inodes s ip) = ROOTDEV" using i(4) lframe_fs(2) [OF a(7)] by simp_all
  have e: "bmap_indirect ip ?ind e s =
      kbind (if islot s ip ?j = 0 then kbind (balloc ROOTDEV a) (\<lambda>addr s. if addr \<noteq> 0 then
          kbind (log_write c (upd_buf c (b_data_update (wr32 (4 * e) addr)) s)) (\<lambda>_ s. Ret addr s) else Ret addr s)
        else Ret (islot s ip ?j) a) (\<lambda>addr s. kbind (brelse c s) (\<lambda>_ s. Ret addr s))"
    using a(1,5) dev j(2) by (simp add: bmap_indirect_def Let_def cong: if_cong)
  show ?thesis
  proof (cases "islot s ip ?j = 0")
    case False
    note g = grows_kept [OF assms(1) a(12)]
    have "filled_or_full p ip ?j (islot s ip ?j) s w"
      using growsD(3) [OF g j(1)] grows_mono [OF g] False by (simp add: filled_or_full_def)
    then show ?thesis using e a(11) False keptD(4) [OF a(12)] by simp
  next
    case True
    have o: "trans_open p {c} a" using a(2) i(1) lframeD(4) [OF a(7)] by (simp add: trans_open_def)
    have ra: "layout_ok a" "uart_ready a" "lowest_free a = lowest_free s" "Suc (nlog a + card {c}) < NBUF"
      using a(6,8) i(2,3) lframe_layout [OF a(7)] lframe_fs [OF a(7)] lframeD(6) [OF a(7)] assms(2)
      by (simp_all add: used_def layout_ok_def lowest_free_def)
    note al = balloc_ok [OF o ra(2,1) indirect_apart [OF di a(7,6,3)] ra(4), unfolded ra(3)]
    show ?thesis
    proof (cases "lowest_free s")
      case None
      then obtain t where t: "balloc ROOTDEV a = Ret 0 t" "kept p {c} a t" using al by auto
      obtain u where u: "brelse c t = Ret () u" "kept p {} s u" by (rule release_kept [OF a(6-10,3) t(2)])
      then show ?thesis using full_kept [OF assms(1) u(2) None True j(1)] e t(1) True keptD(4) [OF u(2)] by simp
    next
      case (Some b)
      then have b: "b < fs_size s" "\<not> used s b" by (simp_all add: lowest_free_def find_lowest)
      obtain v where v: "balloc ROOTDEV a = Ret (of_nat b) v" "allocated p {c} b a v" using al Some by auto
      have la: "nlog a + 3 < NBUF" using assms(2) a(8) by simp
      obtain x t where "log_write c (upd_buf c (b_data_update (wr32 (4 * e) (of_nat b))) v) = Ret () x" "brelse c x = Ret () t"
        "filled_or_full p ip ?j (of_nat b) s t" "nlog t \<le> nlog a + 3" "(of_nat b :: uint32) \<noteq> 0"
        by (rule indirect_fill [OF assms(1) refl assms(3,4) True a(7,6,3,4) la v(2) b]) (rule that, assumption+)
      then show ?thesis using e v(1) a(8) True by auto
    qed
  qed
qed

lemma bmap_ok:
  fixes s :: "'a fs_state_scheme"
  assumes "file_inv p ip s" "nlog s + 5 < NBUF" "k < MAXFILE"
  shows "\<exists>a t. bmap ip (of_nat k) s = Ret a t \<and> grows p ip {k, MAXFILE} s t \<and> a = file_addr t (inodes t ip) k \<and>
    (a = 0 \<longrightarrow> (\<forall>b<fs_size s. used t b)) \<and> nlog t \<le> nlog s + 5"
proof -
  note i = file_invD [OF assms(1)]
  have sk: "islot t ip k = file_addr t (inodes t ip) k" for t :: "'a fs_state_scheme" using assms(3) by (simp add: bslot_def)
  note r = grows_kept [OF assms(1) kept_refl [OF open_log_ok [OF i(1)]]]
  show ?thesis
  proof (cases "k < NDIRECT")
    case True
    show ?thesis
    proof (cases "i_addrs (inodes s ip) k = 0")
      case z: True
      obtain a t where "bmap ip (of_nat k) s = Ret a t" "filled_or_full p ip k a s t" "nlog t \<le> nlog s + 2"
        using entry_alloc [OF assms(1) _ _ z] assms(2,3) True i(4) z by (auto simp: bmap_split)
      then show ?thesis using grows_mono [of p ip "{k}" s t "{k, MAXFILE}"] sk by (auto simp: filled_or_full_def)
    next
      case False
      then show ?thesis
        using grows_mono [OF r, of "{k, MAXFILE}"] True assms(3) by (intro exI [of _ "i_addrs (inodes s ip) k"] exI [of _ s]) (simp add: bmap_split addr_of_def)
    qed
  next
    case False
    then have e: "k - NDIRECT < NINDIRECT" "NDIRECT + (k - NDIRECT) = k" using assms(3) by (simp_all add: file_sizes)
    let ?A = "if i_addrs (inodes s ip) NDIRECT = 0 then
        kbind (balloc (i_dev (inodes s ip)) s) (\<lambda>addr s. if addr = 0 then Ret 0 s
          else Ret addr (upd_inode ip (i_addrs_update (\<lambda>a. a(NDIRECT := addr))) s))
      else Ret (i_addrs (inodes s ip) NDIRECT) s"
    obtain a t where t: "?A = Ret a t" "filled_or_full p ip MAXFILE a s t" "nlog t \<le> nlog s + 2"
    proof (cases "i_addrs (inodes s ip) NDIRECT = 0")
      case True
      then show thesis using entry_alloc [OF assms(1) _ _ True] assms(2) i(4) that by auto
    next
      case False
      then show thesis using grows_mono [OF r, of "{MAXFILE}"] by (intro that [of "i_addrs (inodes s ip) NDIRECT" s]) (simp_all add: filled_or_full_def bslot_def)
    qed
    have f: "grows p ip {MAXFILE} s t" "a = i_addrs (inodes t ip) NDIRECT" "a = 0 \<longrightarrow> (\<forall>b<fs_size s. used t b)"
      using t(2) by (simp_all add: filled_or_full_def bslot_def)
    have B: "bmap ip (of_nat k) s = (if a = 0 then Ret 0 t else bmap_indirect ip a (k - NDIRECT) t)"
      using False t(1) by (simp add: bmap_split [OF assms(3)])
    show ?thesis
    proof (cases "a = 0")
      case True
      then show ?thesis using B t(3) f grows_mono [OF f(1), of "{k, MAXFILE}"] False by (auto simp: addr_of_def)
    next
      case na: False
      have "nlog t + 3 < NBUF" using t(3) assms(2) by simp
      then obtain b u where u: "bmap_indirect ip a (k - NDIRECT) t = Ret b u" "filled_or_full p ip k b t u" "nlog u \<le> nlog t + 3"
        using indirect_alloc [OF growsD(1) [OF f(1)] _ _ e(1)] na f(2) e(2) by auto
      have g: "grows p ip {k, MAXFILE} s u" using grows_trans [OF f(1), of "{k}" u "{k, MAXFILE}"] u(2) by (simp add: filled_or_full_def)
      have "fs_size t = fs_size s" using growsD(2) [OF f(1)] lframe_layout(2) by fastforce
      then show ?thesis using B na u t(3) g sk by (simp add: filled_or_full_def)
    qed
  qed
qed

end
