(* ===== verification/FileWrite.thy ===== *)
theory FileWrite
  imports FileGrow
begin

text \<open>
  Writing files (\<^verbatim>\<open>writei\<close> and \<^verbatim>\<open>iupdate\<close> of \<^verbatim>\<open>kernel/fs.c\<close>).  A write replaces a part of the byte sequence an
  inode stands for and extends it, stops early only when the disk is full, and leaves the blocks of
  other files alone.
\<close>

section \<open>Bytes written\<close>

text \<open>The bytes \<open>bs\<close> have been written from position \<open>off\<close> on; what the file had elsewhere is kept.\<close>

definition written :: "nat \<Rightarrow> nat \<Rightarrow> nat \<Rightarrow> uchar list \<Rightarrow> 'a fs_state_scheme \<Rightarrow> 'a fs_state_scheme \<Rightarrow> bool" where
  "written p ip off bs s t \<longleftrightarrow> file_inv p ip t \<and> (\<exists>g. lframe (upd_inode ip (i_addrs_update g) s) t) \<and>
     (\<forall>j\<le>MAXFILE. islot s ip j \<noteq> 0 \<longrightarrow> islot t ip j = islot s ip j) \<and>
     (\<forall>j\<le>MAXFILE. islot s ip j = 0 \<and> islot t ip j \<noteq> 0 \<longrightarrow> \<not> data_block s (islot t ip j)) \<and>
     (\<forall>i. off \<le> i \<and> i < off + length bs \<longrightarrow>
        file_addr t (inodes t ip) (i div BSIZE) \<noteq> 0 \<and> file_byte t (inodes t ip) i = bs ! (i - off)) \<and>
     (\<forall>i<MAXFILE * BSIZE. \<not> (off \<le> i \<and> i < off + length bs) \<and> file_addr s (inodes s ip) (i div BSIZE) \<noteq> 0 \<longrightarrow>
        file_byte t (inodes t ip) i = file_byte s (inodes s ip) i) \<and>
     (\<forall>m. data_block s m \<longrightarrow> data_block t m \<and> ((\<exists>j\<le>MAXFILE. m = islot s ip j) \<or> content t m = content s m))"

lemma writtenD:
  assumes "written p ip off bs s t"
  shows "file_inv p ip t" "\<exists>g. lframe (upd_inode ip (i_addrs_update g) s) t"
    "j \<le> MAXFILE \<Longrightarrow> islot s ip j \<noteq> 0 \<Longrightarrow> islot t ip j = islot s ip j"
    "j \<le> MAXFILE \<Longrightarrow> islot s ip j = 0 \<Longrightarrow> islot t ip j \<noteq> 0 \<Longrightarrow> \<not> data_block s (islot t ip j)"
    "off \<le> i \<Longrightarrow> i < off + length bs \<Longrightarrow> file_addr t (inodes t ip) (i div BSIZE) \<noteq> 0"
    "off \<le> i \<Longrightarrow> i < off + length bs \<Longrightarrow> file_byte t (inodes t ip) i = bs ! (i - off)"
    "i < MAXFILE * BSIZE \<Longrightarrow> \<not> (off \<le> i \<and> i < off + length bs) \<Longrightarrow> file_addr s (inodes s ip) (i div BSIZE) \<noteq> 0 \<Longrightarrow>
       file_byte t (inodes t ip) i = file_byte s (inodes s ip) i"
    "data_block s m \<Longrightarrow> data_block t m" "data_block s m \<Longrightarrow> \<forall>j\<le>MAXFILE. m \<noteq> islot s ip j \<Longrightarrow> content t m = content s m"
  using assms unfolding written_def by (blast, blast, blast, blast, simp, simp, simp, blast, blast)

lemma addr_slot: "k < MAXFILE \<Longrightarrow> file_addr s n k = bslot (content s) n k"
  by (simp add: bslot_def)

lemma block_lt: "i < MAXFILE * BSIZE \<Longrightarrow> i div BSIZE < MAXFILE"
  by (simp add: div_less_iff_less_mult BSIZE_def)

lemma grows_written:
  assumes "grows p ip J s t" "file_inv p ip s"
  shows "written p ip off [] s t"
proof -
  note g = growsD [OF assms(1)]
  have "file_byte t (inodes t ip) i = file_byte s (inodes s ip) i"
    if i: "i < MAXFILE * BSIZE" "file_addr s (inodes s ip) (i div BSIZE) \<noteq> 0" for i
  proof -
    let ?k = "i div BSIZE"
    have k: "?k < MAXFILE" by (rule block_lt [OF i(1)])
    then have n: "islot s ip ?k \<noteq> 0" using i(2) by (simp add: addr_slot)
    have "islot s ip ?k \<noteq> islot s ip MAXFILE" "data_block s (islot s ip ?k)"
      using ownedD(1) [OF file_invD(5) [OF assms(2)] _ n] ownedD(2) [OF file_invD(5) [OF assms(2)] _ n, of MAXFILE] k by auto
    then have "content t (islot s ip ?k) = content s (islot s ip ?k)" by (intro g(7))
    moreover have "islot t ip ?k = islot s ip ?k" using g(3) [of ?k] k n by simp
    ultimately show ?thesis using k by (simp add: file_byte_def addr_slot)
  qed
  moreover have "islot t ip j = islot s ip j" if "j \<le> MAXFILE" "islot s ip j \<noteq> 0" for j using g(3) that by blast
  moreover have "data_block t m \<and> ((\<exists>j\<le>MAXFILE. m = islot s ip j) \<or> content t m = content s m)" if "data_block s m" for m
    using g(6,7) [OF that] by blast
  ultimately show ?thesis unfolding written_def using g(1,2,4) by auto
qed

lemma same_block:
  fixes i off :: nat
  assumes "i div BSIZE = off div BSIZE"
  shows "off \<le> i \<longleftrightarrow> off mod BSIZE \<le> i mod BSIZE" "i < off + l \<longleftrightarrow> i mod BSIZE < off mod BSIZE + l"
    "off \<le> i \<Longrightarrow> i mod BSIZE - off mod BSIZE = i - off"
proof -
  have "i = off div BSIZE * BSIZE + i mod BSIZE" using div_mult_mod_eq [of i BSIZE] assms by simp
  moreover have "off = off div BSIZE * BSIZE + off mod BSIZE" by simp
  ultimately show "off \<le> i \<longleftrightarrow> off mod BSIZE \<le> i mod BSIZE" "i < off + l \<longleftrightarrow> i mod BSIZE < off mod BSIZE + l"
    "off \<le> i \<Longrightarrow> i mod BSIZE - off mod BSIZE = i - off" by linarith+
qed

lemma block_written:
  fixes s :: "'a fs_state_scheme"
  assumes "file_inv p ip s" "off div BSIZE < MAXFILE" "a = file_addr s (inodes s ip) (off div BSIZE)" "a \<noteq> 0"
    "length bs \<le> BSIZE - off mod BSIZE" "trans_open p {} t" "lframe s t"
    "content t = (content s)(a := wr (content s a) (off mod BSIZE) bs)"
  shows "written p ip off bs s t"
proof -
  let ?k = "off div BSIZE"
  note i = file_invD [OF assms(1)]
  have a: "a = islot s ip ?k" "islot s ip ?k \<noteq> 0" using assms(2-4) by (simp_all add: addr_slot)
  have d: "data_block s a" and ai: "a \<noteq> i_addrs (inodes s ip) NDIRECT"
    using ownedD(1) [OF i(5) _ a(2)] ownedD(2) [OF i(5) _ a(2), of MAXFILE] assms(2) a(1) by (auto simp: bslot_def)
  have n: "inodes t = inodes s" by (rule lframe_fs(2) [OF assms(7)])
  have sl: "bslot (content t) m = bslot (content s) m" if "i_addrs m NDIRECT \<noteq> a" for m
    using that assms(8) by (intro slot_cong) simp
  then have sl: "islot t ip = islot s ip" unfolding n using ai by simp
  have "content t m = content s m" if "m \<in> bmap_blocks s" for m using that d assms(8) by (auto simp: data_block_def meta_def)
  moreover have "0 < fs_size s" using d by (auto simp: data_block_def)
  ultimately have l: "layout_ok t = layout_ok s" "data_block t = data_block s"
    using layout_cong [of t s] lframe_fs(1) [OF assms(7)] lframeD(6) [OF assms(7)] by blast+
  have ad: "file_addr t (inodes t ip) k = file_addr s (inodes s ip) k" if "k < MAXFILE" for k
    using fun_cong [OF sl, of k] that by (simp add: addr_slot)
  have "owned (data t) (content t) (inodes t ip)" using i(5) unfolding owned_def l sl by simp
  then have inv: "file_inv p ip t" using i assms(6) lframe_fs(3) [OF assms(7)] by (simp add: file_inv_def l n)
  have byte: "file_byte t (inodes t ip) j = (if off \<le> j \<and> j < off + length bs then bs ! (j - off) else file_byte s (inodes s ip) j)"
    if j: "j div BSIZE = ?k" for j
    unfolding file_byte_def using ad [OF assms(2)] same_block [OF j] assms(3,8) j by (simp add: wr_def)
  have other: "file_byte t (inodes t ip) j = file_byte s (inodes s ip) j"
    if j: "j < MAXFILE * BSIZE" "j div BSIZE \<noteq> ?k" "file_addr s (inodes s ip) (j div BSIZE) \<noteq> 0" for j
  proof -
    have k: "j div BSIZE < MAXFILE" by (rule block_lt [OF j(1)])
    then have "islot s ip (j div BSIZE) \<noteq> a" using ownedD(2) [OF i(5) _ _ , of "j div BSIZE" ?k] j(2,3) a(1) assms(2) by (auto simp: addr_slot)
    then show ?thesis using ad [OF k] assms(8) k by (simp add: file_byte_def addr_slot)
  qed
  have part: "j div BSIZE = ?k" if "off \<le> j" "j < off + length bs" for j
    using block_step(1) [OF assms(5), of "j - off"] that by simp
  have "lframe (upd_inode ip (i_addrs_update (\<lambda>a. a)) s) t" using assms(7) by (simp only: upd_inode_id)
  moreover have "data_block t m \<and> ((\<exists>j\<le>MAXFILE. m = islot s ip j) \<or> content t m = content s m)" if "data_block s m" for m
    using that a(1) assms(2,8) l(2) by (cases "m = a") (auto intro: less_imp_le)
  moreover have "file_byte t (inodes t ip) j = file_byte s (inodes s ip) j"
    if "j < MAXFILE * BSIZE" "\<not> (off \<le> j \<and> j < off + length bs)" "file_addr s (inodes s ip) (j div BSIZE) \<noteq> 0" for j
    using byte [of j] other [of j] that by (cases "j div BSIZE = ?k") simp_all
  moreover have "file_addr t (inodes t ip) (j div BSIZE) \<noteq> 0 \<and> file_byte t (inodes t ip) j = bs ! (j - off)"
    if "off \<le> j" "j < off + length bs" for j
    using byte [OF part [OF that]] ad [OF assms(2)] assms(3,4) that part [OF that] by simp
  ultimately show ?thesis unfolding written_def sl using inv by blast
qed

lemma written_trans:
  assumes "written p ip off bs s t" "written p ip (off + length bs) cs t u" "off + length bs \<le> MAXFILE * BSIZE"
  shows "written p ip off (bs @ cs) s u"
proof -
  note a = writtenD [OF assms(1)] and b = writtenD [OF assms(2)]
  obtain f g where fg: "lframe (upd_inode ip (i_addrs_update f) s) t" "lframe (upd_inode ip (i_addrs_update g) t) u" using a(2) b(2) by blast
  have "lframe (upd_inode ip (i_addrs_update (g \<circ> f)) s) u"
    using lframe_trans [OF lframe_upd_inode [OF fg(1)] fg(2)] by (simp only: upd_inode_twice)
  moreover have sl: "islot u ip j = islot s ip j" if "j \<le> MAXFILE" "islot s ip j \<noteq> 0" for j
    using a(3) [OF that] b(3) [OF that(1)] that(2) by simp
  moreover have fresh: "\<not> data_block s (islot u ip j)" if j: "j \<le> MAXFILE" "islot s ip j = 0" "islot u ip j \<noteq> 0" for j
  proof (cases "islot t ip j = 0")
    case True
    then show ?thesis using b(4) [OF j(1) True j(3)] a(8) by blast
  next
    case False
    then show ?thesis using a(4) [OF j(1,2) False] b(3) [OF j(1) False] by simp
  qed
  moreover have "file_addr u (inodes u ip) (i div BSIZE) \<noteq> 0 \<and> file_byte u (inodes u ip) i = (bs @ cs) ! (i - off)"
    if i: "off \<le> i" "i < off + length (bs @ cs)" for i
  proof (cases "i < off + length bs")
    case True
    have im: "i < MAXFILE * BSIZE" using True assms(3) by simp
    note k = block_lt [OF im]
    have "file_addr u (inodes u ip) (i div BSIZE) = file_addr t (inodes t ip) (i div BSIZE)"
      using a(5) [OF i(1) True] b(3) [of "i div BSIZE"] k by (simp add: addr_slot)
    moreover have "file_byte u (inodes u ip) i = file_byte t (inodes t ip) i"
      using b(7) [OF im] a(5) [OF i(1) True] True by simp
    moreover have "i - off < length bs" using i(1) True by linarith
    ultimately show ?thesis using a(5,6) [OF i(1) True] by (simp add: nth_append)
  next
    case False
    then have "\<not> i - off < length bs" using i(1) by linarith
    then show ?thesis using False b(5,6) [of i] i by (simp add: nth_append)
  qed
  moreover have "file_byte u (inodes u ip) i = file_byte s (inodes s ip) i"
    if i: "i < MAXFILE * BSIZE" "\<not> (off \<le> i \<and> i < off + length (bs @ cs))" "file_addr s (inodes s ip) (i div BSIZE) \<noteq> 0" for i
  proof -
    have "file_addr t (inodes t ip) (i div BSIZE) \<noteq> 0"
      using a(3) [of "i div BSIZE"] block_lt [OF i(1)] i(3) by (simp add: addr_slot)
    moreover have "\<not> (off \<le> i \<and> i < off + length bs)" "\<not> (off + length bs \<le> i \<and> i < off + length bs + length cs)"
      using i(2) by auto
    ultimately show ?thesis using a(7) [OF i(1) _ i(3)] b(7) [OF i(1)] by simp
  qed
  moreover have "data_block u m \<and> ((\<exists>j\<le>MAXFILE. m = islot s ip j) \<or> content u m = content s m)" if m: "data_block s m" for m
  proof (cases "\<exists>j\<le>MAXFILE. m = islot s ip j")
    case False
    then have "\<forall>j\<le>MAXFILE. m \<noteq> islot t ip j" using a(3,4) m by metis
    then show ?thesis using a(8,9) [OF m] False b(8,9) [OF a(8) [OF m]] by simp
  qed (use a(8) [OF m] b(8) in blast)
  ultimately show ?thesis unfolding written_def using b(1) by blast
qed

section \<open>The loop\<close>

text \<open>The number of blocks a write of \<open>len\<close> bytes at \<open>off\<close> touches; each may log six blocks.\<close>

definition nblk :: "nat \<Rightarrow> nat \<Rightarrow> nat" where
  "nblk off len = (if len = 0 then 0 else (off + len - 1) div BSIZE - off div BSIZE + 1)"

lemma nblk_step:
  assumes "m = min len (BSIZE - off mod BSIZE)" "0 < len"
  shows "Suc (nblk (off + m) (len - m)) = nblk off len"
proof (cases "m = len")
  case True
  have "(off + (len - 1)) div BSIZE = off div BSIZE"
    using assms True by (intro block_step(1) [of len]) auto
  then show ?thesis using True assms(2) by (simp add: nblk_def)
next
  case False
  then have m: "m = BSIZE - off mod BSIZE" "m < len" using assms by auto
  have "off mod BSIZE < BSIZE" by (simp add: BSIZE_def)
  then have "off mod BSIZE + m = BSIZE" using m(1) by simp
  then have "off + m = (off div BSIZE + 1) * BSIZE" using div_mult_mod_eq [of off BSIZE] by (metis add.assoc add_mult_distrib mult_1)
  then have d: "(off + m) div BSIZE = off div BSIZE + 1" by (simp add: BSIZE_def)
  have "off + m + (len - m) - 1 = off + len - 1" using m(2) by simp
  moreover have "off div BSIZE + 1 \<le> (off + len - 1) div BSIZE"
    using div_le_mono [of "off + m" "off + len - 1" BSIZE] m(2) d by simp
  ultimately show ?thesis using m(2) d assms(2) by (simp add: nblk_def)
qed

lemma write_block:
  fixes s :: "'a fs_state_scheme"
  assumes "file_inv p ip s" "off div BSIZE < MAXFILE" "nlog s + 5 < NBUF"
    "m \<le> length bs" "m \<le> BSIZE - off mod BSIZE"
  obtains t where "bmap ip (of_nat (off div BSIZE)) s = Ret 0 t" "written p ip (off) [] s t" "\<forall>b<fs_size s. used t b" "nlog t \<le> nlog s + 5"
  | a u b c w t where "bmap ip (of_nat (off div BSIZE)) s = Ret a u" "a \<noteq> 0" "i_dev (inodes u ip) = ROOTDEV" "bread ROOTDEV a u = Ret b c"
      "either_copyin (Local bs) m c = Ret (0, take m bs) c"
      "log_write b (upd_buf b (b_data_update (\<lambda>d. wr d (off mod BSIZE) (take m bs))) c) = Ret () w" "brelse b w = Ret () t"
      "written p ip (off) (take m bs) s t" "nlog t \<le> nlog s + 6"
proof -
  let ?k = "off div BSIZE" and ?f = "\<lambda>d. wr d (off mod BSIZE) (take m bs)"
  obtain a u where u: "bmap ip (of_nat ?k) s = Ret a u" "grows p ip {?k, MAXFILE} s u" "a = file_addr u (inodes u ip) ?k"
    "a = 0 \<longrightarrow> (\<forall>b<fs_size s. used u b)" "nlog u \<le> nlog s + 5"
    using bmap_ok [OF assms(1,3,2)] by blast
  note wu = grows_written [OF u(2) assms(1)] and iu = file_invD [OF growsD(1) [OF u(2)]]
  show thesis
  proof (cases "a = 0")
    case True
    then show thesis using that(1) u wu by blast
  next
    case False
    have d: "data_block u a" using ownedD(1) [OF iu(5), of ?k] u(3) False assms(2) by (simp add: addr_slot)
    have l: "nlog u + card ({} :: nat set) < NBUF" using u(5) assms(3) by simp
    obtain b c where c: "bread ROOTDEV a u = Ret b c" "trans_open p (insert b {}) c" "b \<notin> {}" "cached c a b" "b_valid (bufs c b) \<noteq> 0"
      "content c = content u" "lframe u c" "nlog c = nlog u"
      by (rule open_bread [OF iu(1) _ l, of a]) (simp, rule that, assumption+)
    have la: "a \<notin> log_area c" "nlog c < NBUF" using d l c(8) lframeD(6) [OF c(7)] by (simp_all add: data_block_def meta_def)
    obtain w t where t: "log_write b (upd_buf b (b_data_update ?f) c) = Ret () w" "brelse b w = Ret () t" "trans_open p {} t"
      "nlog t \<le> Suc (nlog c)" "content t = (content c)(a := ?f (content c a))" "lframe c t"
      by (rule open_update [OF c(2-5) la]) (rule that, assumption+)
    have ci: "either_copyin (Local bs) m c = Ret (0, take m bs) c" by (rule copyin_local [OF log_calm [OF open_log_ok [OF c(2)]]])
    have "written p ip (off) (take m bs) u t"
      using block_written [OF growsD(1) [OF u(2)] assms(2) u(3) False _ t(3) lframe_trans [OF c(7) t(6)]] t(5) c(6) assms(4,5) by simp
    then have "written p ip (off) (take m bs) s t"
      using written_trans [OF wu, of "off" "take m bs" t] assms(2) by (simp add: div_less_iff_less_mult BSIZE_def)
    then show thesis using that(2) [OF u(1) False iu(4) c(1) ci t(1,2)] t(4) c(8) u(5) by simp
  qed
qed

lemma writei_loop_ok:
  fixes s :: "'a fs_state_scheme"
  assumes "file_inv p ip s" "tot \<le> n" "length bs = n - tot" "unat off + (n - tot) \<le> MAXFILE * BSIZE"
    "nlog s + 6 * nblk (unat off) (n - tot) \<le> NBUF"
  shows "\<exists>t m. writei_loop ip (Local bs) off n tot s = Ret (off + of_nat m, tot + m) t \<and> m \<le> n - tot \<and>
    written p ip (unat off) (take m bs) s t \<and> (m < n - tot \<longrightarrow> (\<forall>b<fs_size s. used t b)) \<and>
    nlog t \<le> nlog s + 6 * nblk (unat off) (n - tot)"
  using assms
proof (induction "n - tot" arbitrary: off tot bs s rule: less_induct)
  case less
  note r = grows_written [OF grows_kept [OF less.prems(1) kept_refl [OF open_log_ok [OF file_invD(1) [OF less.prems(1)]]]] less.prems(1)]
  show ?case
  proof (cases "tot < n")
    case False
    then show ?thesis using less.prems(2) r by (intro exI [of _ s] exI [of _ 0]) (simp add: writei_loop.simps)
  next
    case True
    let ?o = "unat off"
    define m where "m = min (n - tot) (BSIZE - ?o mod BSIZE)"
    have m: "0 < m" "m \<le> n - tot" "m \<le> BSIZE - ?o mod BSIZE" "m \<le> length bs" using True less.prems(3) by (auto simp: m_def BSIZE_def)
    have k: "?o div BSIZE < MAXFILE" using less.prems(4) True by (simp add: div_less_iff_less_mult BSIZE_def)
    have nb: "Suc (nblk (?o + m) (n - tot - m)) = nblk ?o (n - tot)" using True by (intro nblk_step m_def) simp
    then have l: "nlog s + 5 < NBUF" using less.prems(5) by simp
    have off: "unat (off + of_nat m) = ?o + m"
      using less.prems(4) m(2) True by (simp add: unat_word_ariths unat32 file_sizes)
    consider (full) t where "bmap ip (of_nat (?o div BSIZE)) s = Ret 0 t" "written p ip ?o [] s t" "\<forall>b<fs_size s. used t b" "nlog t \<le> nlog s + 5"
      | (block) a u b c w t where "bmap ip (of_nat (?o div BSIZE)) s = Ret a u" "a \<noteq> 0" "i_dev (inodes u ip) = ROOTDEV" "bread ROOTDEV a u = Ret b c"
        "either_copyin (Local bs) m c = Ret (0, take m bs) c"
        "log_write b (upd_buf b (b_data_update (\<lambda>d. wr d (?o mod BSIZE) (take m bs))) c) = Ret () w" "brelse b w = Ret () t"
        "written p ip ?o (take m bs) s t" "nlog t \<le> nlog s + 6"
      by (rule write_block [OF less.prems(1) k l m(4,3)])
    then show ?thesis
    proof cases
      case full
      then show ?thesis using True nb by (intro exI [of _ t] exI [of _ 0]) (simp add: writei_loop.simps [of ip _ off])
    next
      case block
      let ?off = "off + of_nat m" and ?bs = "drop m bs"
      have e: "writei_loop ip (Local bs) off n tot s = writei_loop ip (Local ?bs) ?off n (tot + m) t"
        using True block by (simp add: writei_loop.simps [of ip _ off] Let_def flip: m_def)
      have sz: "fs_size t = fs_size s" using writtenD(2) [OF block(8)] lframe_layout(2) by fastforce
      have l: "n - (tot + m) < n - tot" "tot + m \<le> n" "?o + m + (n - (tot + m)) \<le> MAXFILE * BSIZE"
        using m(1,2) less.prems(4) True by linarith+
      have "length ?bs = n - (tot + m)" "unat ?off + (n - (tot + m)) \<le> MAXFILE * BSIZE"
        "nlog t + 6 * nblk (unat ?off) (n - (tot + m)) \<le> NBUF"
        using l(3) less.prems(3,5) off nb block(9) by simp_all
      from less.hyps [OF l(1) writtenD(1) [OF block(8)] l(2) this] obtain v q where
        v: "writei_loop ip (Local ?bs) ?off n (tot + m) t = Ret (?off + of_nat q, tot + m + q) v" "q \<le> n - (tot + m)"
          "written p ip (unat ?off) (take q ?bs) t v" "q < n - (tot + m) \<longrightarrow> (\<forall>b<fs_size t. used v b)"
          "nlog v \<le> nlog t + 6 * nblk (unat ?off) (n - (tot + m))" by blast
      have "written p ip ?o (take m bs @ take q ?bs) s v"
        using written_trans [OF block(8), of "take q ?bs" v] v(3) off m(4) less.prems(4) m(2) True by simp
      then have w: "written p ip ?o (take (m + q) bs) s v" by (simp add: take_add)
      have "m + q \<le> n - tot" "m + q < n - tot \<Longrightarrow> q < n - (tot + m)" using v(2) m(2) True l(2) by linarith+
      then show ?thesis
        using e v w nb block(9) off sz by (intro exI [of _ v] exI [of _ "m + q"]) (simp add: add.assoc)
    qed
  qed
qed

section \<open>Inodes on disk\<close>

lemma rd_fold_wr32:
  assumes "\<forall>i<k. o2 + n \<le> b + 4 * i \<or> b + 4 * i + 4 \<le> o2"
  shows "(rd n (fold (\<lambda>i. wr32 (b + 4 * i) (f i)) [0..<k] d) o2 :: 'a::len word) = rd n d o2"
  using assms by (induction k) (simp_all add: wr32_def rd_wr_other)

lemma rd32_fold_wr32: "j < k \<Longrightarrow> rd32 (fold (\<lambda>i. wr32 (b + 4 * i) (f i)) [0..<k] d) (b + 4 * j) = f j"
proof (induction k)
  case (Suc k)
  then show ?case by (cases "j = k") auto
qed simp

lemma rd_put_dinode:
  assumes "o2 + n \<le> dip \<or> dip + 64 \<le> o2"
  shows "(rd n (put_dinode dip m d) o2 :: 'a::len word) = rd n d o2"
  unfolding put_dinode_def using assms by (subst rd_fold_wr32) (auto simp: NDIRECT_def wr32_def wr16_def rd_wr_other)

lemma get_put_dinode: "get_dinode dip (put_dinode dip m d) m = m"
proof -
  have a: "rd32 (put_dinode dip m d) (dip + 12 + 4 * i) = i_addrs m i" if "i < NDIRECT + 1" for i
    unfolding put_dinode_def by (rule rd32_fold_wr32 [OF that])
  have f: "(rd n (put_dinode dip m d) o2 :: 'a::len word) = rd n (wr32 (dip + 8) (i_size m) (wr16 (dip + 6) (i_nlink m)
      (wr16 (dip + 4) (i_minor m) (wr16 (dip + 2) (i_major m) (wr16 dip (i_type m) d))))) o2" if "o2 + n \<le> dip + 12" for n o2
    unfolding put_dinode_def by (rule rd_fold_wr32) (use that in auto)
  have "(\<lambda>i. if i < NDIRECT + 1 then rd32 (put_dinode dip m d) (dip + 12 + 4 * i) else i_addrs m i) = i_addrs m" using a by auto
  then show ?thesis by (simp add: get_dinode_def f)
qed

lemma get_other_dinode:
  assumes "dip + 64 \<le> dip' \<or> dip' + 64 \<le> dip"
  shows "get_dinode dip' (put_dinode dip m d) x = get_dinode dip' d x"
proof -
  have a: "rd32 (put_dinode dip m d) (dip' + 12 + 4 * i) = rd32 d (dip' + 12 + 4 * i)" if "i < NDIRECT + 1" for i
    using assms that by (intro rd_put_dinode) (auto simp: NDIRECT_def)
  have "rd16 (put_dinode dip m d) (dip' + j) = rd16 d (dip' + j)" "rd32 (put_dinode dip m d) (dip' + j) = rd32 d (dip' + j)" if "j \<le> 8" for j
    using assms that by (auto intro!: rd_put_dinode)
  from this [of 0] this [of 2] this [of 4] this [of 6] this [of 8] show ?thesis
    using a by (simp add: get_dinode_def cong: if_cong)
qed

lemma iupdate_ok:
  fixes s :: "'a fs_state_scheme"
  assumes "trans_open p {} s" "i_dev (inodes s ip) = ROOTDEV" "n = IBLOCK (i_inum (inodes s ip)) (sb s)" "n \<notin> log_area s" "nlog s < NBUF"
  shows "\<exists>t. iupdate ip s = Ret () t \<and> trans_open p {} t \<and> nlog t \<le> Suc (nlog s) \<and> lframe s t \<and>
    content t = (content s)(n := put_dinode (dip_off (i_inum (inodes s ip))) (inodes s ip) (content s n))"
proof -
  have l: "nlog s + card ({} :: nat set) < NBUF" using assms(5) by simp
  obtain b a where a: "bread ROOTDEV n s = Ret b a" "trans_open p (insert b {}) a" "b \<notin> {}" "cached a n b" "b_valid (bufs a b) \<noteq> 0"
    "content a = content s" "lframe s a" "nlog a = nlog s"
    by (rule open_bread [OF assms(1) _ l, of n]) (simp, rule that, assumption+)
  have la: "n \<notin> log_area a" "nlog a < NBUF" using assms(4,5) a(8) lframeD(6) [OF a(7)] by simp_all
  obtain w t where t: "log_write b (upd_buf b (b_data_update (put_dinode (dip_off (i_inum (inodes s ip))) (inodes s ip))) a) = Ret () w" "brelse b w = Ret () t" "trans_open p {} t"
    "nlog t \<le> Suc (nlog a)" "content t = (content a)(n := put_dinode (dip_off (i_inum (inodes s ip))) (inodes s ip) (content a n))" "lframe a t"
    by (rule open_update [OF a(2-5) la]) (rule that, assumption+)
  have "iupdate ip s = Ret () t" using a(1) t(1,2) assms(2,3) lframe_fs(2) [OF a(7)] by (simp add: iupdate_def Let_def)
  then show ?thesis using t(3-5) a(6,8) lframe_trans [OF a(7) t(6)] by simp
qed

section \<open>The whole write\<close>

lemma written_inode:
  fixes s :: "'a fs_state_scheme"
  assumes "written p ip off bs s t"
  shows "i_size (inodes t ip) = i_size (inodes s ip)" "i_dev (inodes t ip) = i_dev (inodes s ip)"
    "i_inum (inodes t ip) = i_inum (inodes s ip)" "sb t = sb s" "log_area t = log_area s"
proof -
  obtain g where "lframe (upd_inode ip (i_addrs_update g) s) t" using writtenD(2) [OF assms] by blast
  from lframe_fs(1,2) [OF this] lframeD(6) [OF this] show "i_size (inodes t ip) = i_size (inodes s ip)" "i_dev (inodes t ip) = i_dev (inodes s ip)"
    "i_inum (inodes t ip) = i_inum (inodes s ip)" "sb t = sb s" "log_area t = log_area s" by simp_all
qed

lemma bslot_size [simp]: "bslot C (i_size_update f n) = bslot C n" "addr_of C (i_size_update f n) = addr_of C n"
  by (simp_all add: bslot_def [abs_def] addr_of_def [abs_def] cong: if_cong)

lemma byte_size [simp]: "file_byte s (i_size_update f n) = file_byte s n"
  by (simp add: file_byte_def [abs_def])

text \<open>The byte sequence of the inode, once its size covers what was written.\<close>

lemma written_bytes:
  fixes s :: "'a fs_state_scheme"
  assumes "written p ip off bs s t" "file_ok s (inodes s ip)" "off \<le> unat (i_size (inodes s ip))" "off + length bs \<le> MAXFILE * BSIZE"
    "n = (inodes t ip)\<lparr>i_size := of_nat (max (unat (i_size (inodes s ip))) (off + length bs))\<rparr>"
  shows "file_ok t n"
    "file_bytes t n = take off (file_bytes s (inodes s ip)) @ bs @ drop (off + length bs) (file_bytes s (inodes s ip))"
proof -
  let ?n = "inodes s ip" let ?z = "unat (i_size ?n)" and ?e = "off + length bs"
  note w = writtenD [OF assms(1)]
  have ok: "?z \<le> MAXFILE * BSIZE" "\<And>k. k * BSIZE < ?z \<Longrightarrow> file_addr s ?n k \<noteq> 0" "i_dev ?n = ROOTDEV"
    using assms(2) by (simp_all add: file_ok_def)
  have z: "unat (i_size n) = max ?z ?e" using ok(1) assms(4,5) by (simp add: unat32 file_sizes)
  have old: "file_addr t (inodes t ip) k \<noteq> 0" if "k * BSIZE < ?z" for k
  proof -
    have "k * BSIZE < MAXFILE * BSIZE" using that ok(1) by linarith
    then have "k < MAXFILE" by simp
    then show ?thesis using ok(2) [OF that] w(3) [of k] by (simp add: addr_slot)
  qed
  have "file_addr t (inodes t ip) k \<noteq> 0" if k: "k * BSIZE < max ?z ?e" for k
  proof (cases "k * BSIZE < ?z")
    case False
    then show ?thesis using k w(5) [of "k * BSIZE"] assms(3) by (simp add: BSIZE_def)
  qed (rule old)
  then show "file_ok t n" using z ok assms(4) written_inode(2) [OF assms(1)] by (simp add: file_ok_def assms(5))
  have b: "file_byte t (inodes t ip) i = file_byte s ?n i" if i: "i < ?z" "\<not> (off \<le> i \<and> i < ?e)" for i
  proof -
    have "i div BSIZE * BSIZE < ?z" using i(1) div_times_less_eq_dividend [of i BSIZE] by linarith
    then show ?thesis using w(7) [of i] ok(1,2) i by simp
  qed
  show "file_bytes t n = take off (file_bytes s ?n) @ bs @ drop ?e (file_bytes s ?n)"
  proof (rule nth_equalityI)
    show l: "length (file_bytes t n) = length (take off (file_bytes s ?n) @ bs @ drop ?e (file_bytes s ?n))"
      using assms(3) by (simp add: file_bytes_def z max_def)
    fix i assume "i < length (file_bytes t n)"
    then have i: "i < max ?z ?e" by (simp add: file_bytes_def z)
    have "file_bytes t n ! i = file_byte t (inodes t ip) i" using i z by (simp add: file_bytes_def) (simp add: assms(5))
    then show "file_bytes t n ! i = (take off (file_bytes s ?n) @ bs @ drop ?e (file_bytes s ?n)) ! i"
      using b [of i] w(6) [of i] i assms(3) by (auto simp: nth_append file_bytes_def)
  qed
qed

text \<open>Writing the inode to its block on disk leaves the data and the bitmap alone.\<close>

lemma iupdate_inv:
  fixes s :: "'a fs_state_scheme"
  assumes "file_inv p ip s" "unat (i_inum (inodes s ip)) < unat (sb_ninodes (sb s))" "nlog s < NBUF" "n = IBLOCK (i_inum (inodes s ip)) (sb s)"
  shows "\<exists>t. iupdate ip s = Ret () t \<and> file_inv p ip t \<and> nlog t \<le> Suc (nlog s) \<and> inodes t = inodes s \<and> sb t = sb s \<and>
    (\<forall>b<fs_size s. used t b = used s b) \<and> data_block t = data_block s \<and> (\<forall>m. data_block s m \<longrightarrow> content t m = content s m) \<and>
    get_dinode (dip_off (i_inum (inodes s ip))) (content t n) (inodes s ip) = inodes s ip"
proof -
  note i = file_invD [OF assms(1)]
  have n: "n \<in> inode_blocks s" using assms(2,4) by (auto simp: inode_blocks_def intro!: image_eqI [of _ _ "unat (i_inum (inodes s ip))"])
  then have l: "n \<notin> log_area s" "n \<notin> bmap_blocks s" "\<not> data_block s n" using i(3) by (auto simp: layout_ok_def data_block_def meta_def)
  obtain t where t: "iupdate ip s = Ret () t" "trans_open p {} t" "nlog t \<le> Suc (nlog s)" "lframe s t"
    "content t = (content s)(n := put_dinode (dip_off (i_inum (inodes s ip))) (inodes s ip) (content s n))"
    using iupdate_ok [OF i(1,4) assms(4) l(1) assms(3)] by blast
  have f: "sb t = sb s" "inodes t = inodes s" "uart_ready t = uart_ready s" using lframe_fs [OF t(4)] by simp_all
  have "content t m = content s m" if "m \<in> bmap_blocks s" for m using l(2) that t(5) by auto
  note c = layout_cong [OF f(1) lframeD(6) [OF t(4)] this]
  then have c: "layout_ok t" "data_block t = data_block s" "\<And>b. b < fs_size s \<Longrightarrow> used t b = used s b" using i(3) by (simp_all add: layout_ok_def)
  have d: "content t m = content s m" if "m \<in> data s" for m using l(3) that t(5) by auto
  then have o: "owned (data s) (content t) (inodes s ip)" by (rule owned_mono(1) [OF i(5) order_refl])
  have "file_inv p ip t" unfolding file_inv_def using t(2) f c i o by simp
  moreover have "get_dinode (dip_off (i_inum (inodes s ip))) (content t n) (inodes s ip) = inodes s ip"
    unfolding t(5) fun_upd_same by (rule get_put_dinode)
  ultimately show ?thesis using t(1,3) f(1,2) c(2,3) d by blast
qed

lemma data_file:
  fixes s :: "'a fs_state_scheme"
  assumes "file_inv p ip s" "file_ok s (inodes s ip)" "\<And>m. data_block s m \<Longrightarrow> content t m = content s m"
  shows "file_ok t (inodes s ip)" "file_bytes t (inodes s ip) = file_bytes s (inodes s ip)"
proof -
  let ?n = "inodes s ip"
  note o = file_invD(5) [OF assms(1)]
  have a: "file_addr t ?n = file_addr s ?n" using owned_ind [OF o] assms(3) by (intro addr_cong) blast
  then show "file_ok t ?n" using assms(2) by (simp add: file_ok_def)
  have "file_byte t ?n i = file_byte s ?n i" if i: "i < unat (i_size ?n)" for i
  proof -
    have "i div BSIZE * BSIZE < unat (i_size ?n)" "i < MAXFILE * BSIZE"
      using i assms(2) div_times_less_eq_dividend [of i BSIZE] unfolding file_ok_def by linarith+
    then have "file_addr s ?n (i div BSIZE) \<noteq> 0" "i div BSIZE < MAXFILE" using assms(2) block_lt by (simp_all add: file_ok_def)
    then have "data_block s (file_addr s ?n (i div BSIZE))" using ownedD(1) [OF o, of "i div BSIZE"] by (simp add: addr_slot)
    then show ?thesis using assms(3) by (simp add: file_byte_def a)
  qed
  then show "file_bytes t ?n = file_bytes s ?n" by (simp add: file_bytes_def)
qed

lemma size_upd: "f (i_size n) = i_size n \<Longrightarrow> i_size_update f n = n" "f (i_size n) = z \<Longrightarrow> i_size_update f n = n\<lparr>i_size := z\<rparr>"
  by (cases n, simp)+

lemma max_unat: "unat e = k \<Longrightarrow> max z e = of_nat (max (unat z) k)"
  by (cases "z \<le> e") (auto simp: max_absorb1 max_absorb2 word_le_nat_alt)

lemma size_step:
  "(if off > i_size (inodes s ip) then upd_inode ip (i_size_update (\<lambda>_. off)) s else s) = upd_inode ip (i_size_update (\<lambda>z. max z off)) s"
proof (cases "off > i_size (inodes s ip)")
  case True
  then have "max (i_size (inodes s ip)) off = off" by (intro max_absorb2 less_imp_le)
  then have "i_size_update (\<lambda>z. max z off) (inodes s ip) = (inodes s ip)\<lparr>i_size := off\<rparr>" by (rule size_upd(2))
  then show ?thesis unfolding upd_inode_def if_P [OF True] by (rule ssubst) (rule refl)
next
  case False
  then have "max (i_size (inodes s ip)) off = i_size (inodes s ip)" by (intro max_absorb1) (simp add: not_less)
  then have "i_size_update (\<lambda>z. max z off) (inodes s ip) = inodes s ip" by (rule size_upd(1))
  then show ?thesis unfolding upd_inode_def if_not_P [OF False] by (rule ssubst) simp
qed

lemma size_inv: "file_inv p ip s \<Longrightarrow> file_inv p ip (upd_inode ip (i_size_update f) s)"
  by (simp add: file_inv_def owned_def)

lemma writei_ok:
  fixes s :: "'a fs_state_scheme"
  assumes "file_inv p ip s" "file_ok s (inodes s ip)" "unat (i_inum (inodes s ip)) < unat (sb_ninodes (sb s))"
    "unat off \<le> unat (i_size (inodes s ip))" "unat off + length bs \<le> MAXFILE * BSIZE" "nlog s + 6 * nblk (unat off) (length bs) < NBUF"
  shows "\<exists>t u m. writei ip (Local bs) off (of_nat (length bs)) s = Ret (int m) t \<and> m \<le> length bs \<and>
    written p ip (unat off) (take m bs) s u \<and> (m < length bs \<longrightarrow> (\<forall>b<fs_size s. used u b)) \<and>
    iupdate ip (upd_inode ip (i_size_update (\<lambda>z. max z (off + of_nat m))) u) = Ret () t \<and> nlog u < NBUF \<and>
    nlog u \<le> nlog s + 6 * nblk (unat off) (length bs)"
proof -
  have l: "length bs < 2 ^ 31" "unat off + length bs < 2 ^ 32" using assms(5) by (simp_all add: file_sizes)
  then have n: "unat (of_nat (length bs) :: uint32) = length bs" by (simp add: unat32)
  then have e: "unat (off + of_nat (length bs)) = unat off + length bs" using l(2) by (simp add: unat_plus_if')
  then have g: "\<not> (off > i_size (inodes s ip) \<or> off + of_nat (length bs) < off)" "\<not> unat (off + of_nat (length bs)) > MAXFILE * BSIZE"
    using assms(4,5) by (auto simp: word_less_nat_alt)
  obtain u m where u: "writei_loop ip (Local bs) off (length bs) 0 s = Ret (off + of_nat m, 0 + m) u" "m \<le> length bs"
    "written p ip (unat off) (take m bs) s u" "m < length bs \<longrightarrow> (\<forall>b<fs_size s. used u b)" "nlog u \<le> nlog s + 6 * nblk (unat off) (length bs)"
    using writei_loop_ok [OF assms(1), of 0 "length bs" bs off] assms(5,6) by auto
  let ?w = "upd_inode ip (i_size_update (\<lambda>z. max z (off + of_nat m))) u"
  have i: "file_inv p ip ?w" using writtenD(1) [OF u(3)] by (rule size_inv)
  have "unat (i_inum (inodes ?w ip)) < unat (sb_ninodes (sb ?w))" "nlog ?w < NBUF" using assms(3,6) u(5) written_inode [OF u(3)] by simp_all
  then obtain t where t: "iupdate ip ?w = Ret () t" using iupdate_inv [OF i] by blast
  have "sint (of_nat m :: uint32) = int m" using u(2) assms(5) by (intro small_sint) simp
  then have "writei ip (Local bs) off (of_nat (length bs)) s = Ret (int m) t"
    unfolding writei_def if_not_P [OF g(1)] if_not_P [OF g(2)] n u(1) kbind.simps prod.case size_step Let_def t by simp
  then show ?thesis using u t assms(6) by force
qed

lemma writei_file:
  fixes s :: "'a fs_state_scheme"
  assumes "file_inv p ip s" "file_ok s (inodes s ip)" "unat (i_inum (inodes s ip)) < unat (sb_ninodes (sb s))"
    "unat off \<le> unat (i_size (inodes s ip))" "unat off + length bs \<le> MAXFILE * BSIZE" "nlog s + 6 * nblk (unat off) (length bs) < NBUF"
    "old = file_bytes s (inodes s ip)" "inum = i_inum (inodes s ip)"
  shows "\<exists>t m. writei ip (Local bs) off (of_nat (length bs)) s = Ret (int m) t \<and>
    m \<le> length bs \<and> (m < length bs \<longrightarrow> (\<forall>b<fs_size s. used t b)) \<and>
    file_inv p ip t \<and> file_ok t (inodes t ip) \<and>
    file_bytes t (inodes t ip) = take (unat off) old @ take m bs @ drop (unat off + m) old \<and>
    get_dinode (dip_off inum) (content t (IBLOCK inum (sb s))) (inodes t ip) = inodes t ip \<and>
    (\<forall>a. data_block s a \<and> (\<forall>j\<le>MAXFILE. a \<noteq> islot s ip j) \<longrightarrow> data_block t a \<and> content t a = content s a) \<and> nlog t \<le> nlog s + 6 * nblk (unat off) (length bs) + 1"
proof -
  let ?o = "unat off" and ?n = "inodes s ip"
  obtain t u m where w: "writei ip (Local bs) off (of_nat (length bs)) s = Ret (int m) t" "m \<le> length bs"
    "written p ip ?o (take m bs) s u" "m < length bs \<longrightarrow> (\<forall>b<fs_size s. used u b)"
    "iupdate ip (upd_inode ip (i_size_update (\<lambda>z. max z (off + of_nat m))) u) = Ret () t" "nlog u < NBUF" "nlog u \<le> nlog s + 6 * nblk ?o (length bs)"
    using writei_ok [OF assms(1-6)] by blast
  let ?w = "upd_inode ip (i_size_update (\<lambda>z. max z (off + of_nat m))) u"
  note u = writtenD [OF w(3)] written_inode [OF w(3)]
  have "unat (i_inum (inodes ?w ip)) < unat (sb_ninodes (sb ?w))" "nlog ?w < NBUF" using assms(3) w(6) u by simp_all
  then obtain v where "iupdate ip ?w = Ret () v" "nlog v \<le> Suc (nlog ?w)" and v: "file_inv p ip v" "inodes v = inodes ?w" "\<forall>b<fs_size ?w. used v b = used ?w b"
    "data_block v = data_block ?w" "\<forall>m. data_block ?w m \<longrightarrow> content v m = content ?w m"
    "get_dinode (dip_off (i_inum (inodes ?w ip))) (content v (IBLOCK (i_inum (inodes ?w ip)) (sb ?w))) (inodes ?w ip) = inodes ?w ip"
    using iupdate_inv [OF size_inv [OF u(1)] _ _ refl] by blast
  then have vt: "v = t" and nv: "nlog t \<le> Suc (nlog ?w)" using w(5) by simp_all
  have "unat (off + of_nat m) = ?o + m" using assms(5) w(2) by (simp add: unat_word_ariths unat32 file_sizes)
  then have "unat (off + of_nat m) = ?o + length (take m bs)" using w(2) by simp
  note max_unat [OF this, of "i_size ?n"]
  then have n: "inodes ?w ip = (inodes u ip)\<lparr>i_size := of_nat (max (unat (i_size ?n)) (?o + length (take m bs)))\<rparr>"
    unfolding upd_inode_fs fun_upd_same using u(10) by (intro size_upd(2)) (simp only:)
  have l: "?o + length (take m bs) \<le> MAXFILE * BSIZE" using assms(5) w(2) by simp
  note b = written_bytes [OF w(3) assms(2,4) l n]
  have "file_ok ?w (inodes ?w ip)" "file_bytes ?w (inodes ?w ip) = file_bytes u (inodes ?w ip)"
    using b(1) by (simp_all add: file_ok_def file_bytes_def file_byte_def)
  note f = data_file [OF size_inv [OF u(1)] this(1), of v] this(2)
  have d: "content ?w = content u" "sb ?w = sb s" "data_block ?w = data_block u" "used ?w = used u" "inodes t = inodes ?w" "i_inum (inodes ?w ip) = inum"
    using u(12,13) v(2) vt assms(8) by simp_all
  have "file_ok t (inodes t ip)" "file_bytes t (inodes t ip) = take ?o old @ take m bs @ drop (?o + m) old"
    using f v(5) b(2) w(2) assms(7) unfolding vt d(5) by (simp_all only: length_take min_absorb2)
  moreover have "m < length bs \<longrightarrow> (\<forall>b<fs_size s. used t b)" using w(4) v(3) unfolding vt d by blast
  moreover have "get_dinode (dip_off inum) (content t (IBLOCK inum (sb s))) (inodes t ip) = inodes t ip" using v(6) unfolding vt d .
  moreover have "\<forall>a. data_block s a \<and> (\<forall>j\<le>MAXFILE. a \<noteq> islot s ip j) \<longrightarrow> data_block t a \<and> content t a = content s a"
    using v(4,5) u(8,9) unfolding vt d by simp
  moreover have "nlog t \<le> nlog s + 6 * nblk ?o (length bs) + 1" using nv w(7) by simp
  ultimately show ?thesis using w(1,2) v(1) unfolding vt by blast
qed


text \<open>An empty file on a new file system; inode 1 has no blocks yet.\<close>

definition empty_inode :: inode where
  "empty_inode = \<lparr>i_dev = ROOTDEV, i_inum = 1, i_ref = 1, i_valid = 1, i_type = T_FILE, i_major = 0, i_minor = 0, i_nlink = 1,
     i_size = 0, i_addrs = \<lambda>_. 0\<rparr>"

definition empty_fs :: "unit file_state_scheme" where
  "empty_fs = run_fs new_disk (\<lambda>_. empty_inode)"

lemma empty_fs_simps:
  "file_inv 1 0 empty_fs" "file_ok empty_fs (inodes empty_fs 0)" "unat (i_inum (inodes empty_fs 0)) < unat (sb_ninodes (sb empty_fs))"
  "unat 0 \<le> unat (i_size (inodes empty_fs 0))" "nlog empty_fs = 0" "file_bytes empty_fs (inodes empty_fs 0) = []"
proof -
  have i: "new_disk 46 = image_bitmap" by (simp add: new_disk_def)
  note r = run_fs_open [of new_disk "\<lambda>_. empty_inode", folded empty_fs_def]
  have z: "bslot C empty_inode j = 0" for C j by (simp add: bslot_def addr_of_def empty_inode_def)
  have "owned (data empty_fs) (content empty_fs) empty_inode" unfolding owned_def z by simp
  then show "file_inv 1 0 empty_fs"
    using r(1,3,5) image_layout_ok [where d = new_disk, OF i] by (simp add: file_inv_def empty_fs_def) (simp add: empty_inode_def)
  show "file_ok empty_fs (inodes empty_fs 0)" "file_bytes empty_fs (inodes empty_fs 0) = []"
    by (simp_all add: r(5) file_ok_def file_bytes_def) (simp_all add: empty_inode_def)
qed (simp_all add: empty_fs_def run_fs_open empty_inode_def)






end
