(* ===== verification/Spec2Isabelle.thy ===== *)
theory Spec2Isabelle
  imports Scheduling UserCopy Boot ConsoleLine Limits PipeFifo PathNames FileWrite
begin

text \<open>
  A verification development for the xv6 kernel of this repository.
\<close>

end
